(* ===== verification/RS_Prelude.thy ===== *)
theory RS_Prelude
  imports Main "HOL-Library.Word" "HOL-Library.Monad_Syntax" "HOL-Library.Sublist" "HOL-Library.Code_Target_Numeral"
begin

text \<open>
  What every component shares: the machine types, the return codes of
  \<^verbatim>\<open>src/core/rs_core.h\<close>, memory objects as byte lists, the C string functions the
  program calls, and little-endian integers.

  Undefined behaviour of C (a read or a write outside an object, a null dereference, a division
  by zero, an overflowing conversion) is the value \<^verbatim>\<open>None\<close>; every return code of the
  program, \<^verbatim>\<open>RS_ERR\<close> included, is an ordinary value under \<^verbatim>\<open>Some\<close>.
  A pointer into a byte object is the list of the bytes from the pointer to the end of the object,
  or an offset into the object where the code goes back and forth.
\<close>

unbundle bit_operations_syntax

section \<open>Machine types and return codes\<close>

type_synonym byte = "8 word"
type_synonym u16 = "16 word"
type_synonym u32 = "32 word"
type_synonym u64 = "64 word"
type_synonym addr = nat

named_theorems mem_simps "reads and writes of memory objects"
named_theorems cstr_simps "C string functions on terminated strings"
named_theorems le_simps "little-endian integers"

datatype rs_code =
    RS_OK | RS_ERR | RS_HAS_BINLOG | RS_NO_RECORD | RS_HEARTBEAT | RS_TIMEDOUT
  | RS_FULL | RS_EMPTY | RS_NO_BINLOG | RS_CMD_ERR | RS_SLAB_OVERFLOW | RS_EXISTS | RS_NOT_EXISTS

text \<open>The numbers behind the codes matter where the code mixes them with slab class indices.\<close>

fun rs_code_val :: "rs_code \<Rightarrow> int" where
  "rs_code_val RS_OK = 0"
| "rs_code_val RS_ERR = -1"
| "rs_code_val RS_HAS_BINLOG = -2"
| "rs_code_val RS_NO_RECORD = -3"
| "rs_code_val RS_HEARTBEAT = -4"
| "rs_code_val RS_TIMEDOUT = -5"
| "rs_code_val RS_FULL = -6"
| "rs_code_val RS_EMPTY = -7"
| "rs_code_val RS_NO_BINLOG = -8"
| "rs_code_val RS_CMD_ERR = -9"
| "rs_code_val RS_SLAB_OVERFLOW = -10"
| "rs_code_val RS_EXISTS = -11"
| "rs_code_val RS_NOT_EXISTS = -12"

lemma rs_code_val_inject [simp]: "rs_code_val a = rs_code_val b \<longleftrightarrow> a = b"
  by (cases a; cases b) simp_all

section \<open>Memory objects\<close>

text \<open>ASCII text as bytes, and a NUL-terminated string literal.\<close>

definition ascii :: "string \<Rightarrow> byte list" where
  "ascii s = map of_char s"

definition cstr :: "string \<Rightarrow> byte list" where
  "cstr s = ascii s @ [0]"

text \<open>\<open>mem_read m off n\<close>: the source of a \<^verbatim>\<open>memcpy\<close> of n bytes; \<open>mem_write\<close>: its target.\<close>

definition mem_read :: "'b list \<Rightarrow> nat \<Rightarrow> nat \<Rightarrow> 'b list option" where
  "mem_read m off n = (if off + n \<le> length m then Some (take n (drop off m)) else None)"

definition mem_write :: "'b list \<Rightarrow> nat \<Rightarrow> 'b list \<Rightarrow> 'b list option" where
  "mem_write m off src =
     (if off + length src \<le> length m
      then Some (take off m @ src @ drop (off + length src) m) else None)"

definition mem_get :: "'b list \<Rightarrow> nat \<Rightarrow> 'b option" where
  "mem_get m off = (if off < length m then Some (m ! off) else None)"

lemma mem_read_length: "mem_read m off n = Some r \<Longrightarrow> length r = n"
  by (auto simp: mem_read_def split: if_splits)

lemma mem_write_length: "mem_write m off src = Some m' \<Longrightarrow> length m' = length m"
  by (auto simp: mem_write_def split: if_splits)

lemma mem_read_append [mem_simps]:
  "length a = off \<Longrightarrow> length b = n \<Longrightarrow> mem_read (a @ b @ c) off n = Some b"
  by (simp add: mem_read_def)

lemma mem_read_split: "x = a @ b @ c \<Longrightarrow> off = length a \<Longrightarrow> n = length b \<Longrightarrow> mem_read x off n = Some b"
  by (simp add: mem_read_def)

lemma drop_split: "x = a @ c \<Longrightarrow> n = length a \<Longrightarrow> drop n x = c"
  by simp

lemma mem_read_all [mem_simps]: "length b = n \<Longrightarrow> mem_read b 0 n = Some b"
  by (simp add: mem_read_def)

lemma mem_read_write:
  "mem_write m off src = Some m' \<Longrightarrow> mem_read m' off (length src) = Some src"
  by (auto simp: mem_write_def mem_read_def split: if_splits)

lemma mem_write_0 [mem_simps]:
  "length src \<le> length m \<Longrightarrow> mem_write m 0 src = Some (src @ drop (length src) m)"
  by (simp add: mem_write_def)

lemma mem_write_single [mem_simps]:
  "mem_write m k [x] = (if k < length m then Some (m[k := x]) else None)"
  by (simp add: mem_write_def upd_conv_take_nth_drop Suc_le_eq)

section \<open>Little-endian integers\<close>

fun le_nat :: "byte list \<Rightarrow> nat" where
  "le_nat [] = 0"
| "le_nat (b # bs) = unat b + 256 * le_nat bs"

fun le_bytes :: "nat \<Rightarrow> nat \<Rightarrow> byte list" where
  "le_bytes 0 k = []"
| "le_bytes (Suc n) k = of_nat (k mod 256) # le_bytes n (k div 256)"

text \<open>
  \<^verbatim>\<open>memcpy(&x, p, n)\<close> with n at most the size of x: the low n bytes of x are replaced,
  the others keep their value.
\<close>

definition set_low :: "'a::len word \<Rightarrow> byte list \<Rightarrow> 'a word" where
  "set_low x bs =
     of_nat (unat x div 256 ^ length bs * 256 ^ length bs + le_nat bs)"

lemma le_nat_bound: "le_nat bs < 256 ^ length bs"
proof (induction bs)
  case (Cons b bs)
  have "unat b < 256" using unsigned_less [of b, where ?'a = nat] by simp
  with Cons show ?case by simp
qed simp

lemma length_le_bytes [simp]: "length (le_bytes n k) = n"
  by (induction n arbitrary: k) simp_all

lemma le_nat_le_bytes [le_simps]: "le_nat (le_bytes n k) = k mod 256 ^ n"
proof (induction n arbitrary: k)
  case (Suc n)
  have "unat (of_nat (k mod 256) :: byte) = k mod 256"
    by (simp add: unat_of_nat)
  with Suc show ?case by (simp add: mod_mult2_eq algebra_simps)
qed simp

lemma set_low_zero [le_simps]: "set_low 0 bs = of_nat (le_nat bs)"
  by (simp add: set_low_def)

lemma set_low_u32 [le_simps]: "length bs = 4 \<Longrightarrow> set_low (x::u32) bs = of_nat (le_nat bs)"
proof -
  assume l: "length bs = 4"
  have "unat x < 256 ^ 4" using unsigned_less [of x, where ?'a = nat] by simp
  with l show ?thesis by (simp add: set_low_def)
qed

lemma set_low_u64 [le_simps]: "length bs = 8 \<Longrightarrow> set_low (x::u64) bs = of_nat (le_nat bs)"
proof -
  assume l: "length bs = 8"
  have "unat x < 256 ^ 8" using unsigned_less [of x, where ?'a = nat] by simp
  with l show ?thesis by (simp add: set_low_def)
qed

lemma le_nat_bytes_u32 [le_simps]: "le_nat (le_bytes 4 (unat (x::u32))) = unat x"
  using unsigned_less [of x, where ?'a = nat] by (simp add: le_nat_le_bytes)

section \<open>C strings\<close>

text \<open>
  The argument is the memory from the pointer to the end of its object: no NUL before the end is a
  read out of bounds.
\<close>

fun c_strlen :: "byte list \<Rightarrow> nat option" where
  "c_strlen [] = None"
| "c_strlen (b # bs) = (if b = 0 then Some 0 else map_option Suc (c_strlen bs))"

text \<open>Whether \<^verbatim>\<open>strncmp(a, b, n) == 0\<close>.\<close>

fun c_strncmp_eq :: "nat \<Rightarrow> byte list \<Rightarrow> byte list \<Rightarrow> bool option" where
  "c_strncmp_eq n s t =
     (if n = 0 then Some True
      else case (s, t) of
          (a # s', b # t') \<Rightarrow>
            if a \<noteq> b then Some False else if a = 0 then Some True else c_strncmp_eq (n - 1) s' t'
        | _ \<Rightarrow> None)"

declare c_strncmp_eq.simps [simp del]

lemma c_strncmp_eq_rec [simp]:
  "c_strncmp_eq 0 s t = Some True"
  "c_strncmp_eq (Suc n) (a # s) (b # t) =
     (if a \<noteq> b then Some False else if a = 0 then Some True else c_strncmp_eq n s t)"
  "c_strncmp_eq (Suc n) [] t = None" "c_strncmp_eq (Suc n) s [] = None"
  by (simp_all add: c_strncmp_eq.simps split: list.split)

text \<open>\<^verbatim>\<open>strchr\<close>: the offset of the first match before the NUL (or of the NUL itself).\<close>

fun c_strchr :: "byte \<Rightarrow> byte list \<Rightarrow> nat option option" where
  "c_strchr c [] = None"
| "c_strchr c (b # bs) =
     (if b = c then Some (Some 0) else if b = 0 then Some None
      else map_option (map_option Suc) (c_strchr c bs))"

text \<open>\<^verbatim>\<open>strrchr\<close>: the offset of the last match.\<close>

fun c_strrchr :: "byte \<Rightarrow> byte list \<Rightarrow> nat option option" where
  "c_strrchr c [] = None"
| "c_strrchr c (b # bs) =
     (if b = 0 then Some (if c = 0 then Some 0 else None)
      else map_option
        (\<lambda>r. case r of Some k \<Rightarrow> Some (Suc k) | None \<Rightarrow> if b = c then Some 0 else None)
        (c_strrchr c bs))"

text \<open>The contents of a string, without the NUL; \<^verbatim>\<open>strstr\<close> compares contents.\<close>

definition c_contents :: "byte list \<Rightarrow> byte list option" where
  "c_contents m = map_option (\<lambda>n. take n m) (c_strlen m)"

fun find_sub :: "byte list \<Rightarrow> byte list \<Rightarrow> nat option" where
  "find_sub sea [] = (if sea = [] then Some 0 else None)"
| "find_sub sea (b # bs) =
     (if take (length sea) (b # bs) = sea then Some 0 else map_option Suc (find_sub sea bs))"

definition c_strstr :: "byte list \<Rightarrow> byte list \<Rightarrow> nat option option" where
  "c_strstr src sea = do {
     s \<leftarrow> c_contents src;
     t \<leftarrow> c_contents sea;
     Some (find_sub t s) }"

text \<open>\<^verbatim>\<open>snprintf("%u")\<close>: the decimal digits of an unsigned number.\<close>

fun fmt_u :: "nat \<Rightarrow> byte list" where
  "fmt_u n = (if n < 10 then [of_nat (48 + n)] else fmt_u (n div 10) @ [of_nat (48 + n mod 10)])"

declare fmt_u.simps [simp del]

lemma c_strlen_append [cstr_simps]: "0 \<notin> set k \<Longrightarrow> c_strlen (k @ 0 # r) = Some (length k)"
  by (induction k) auto

lemma c_contents_append [cstr_simps]: "0 \<notin> set k \<Longrightarrow> c_contents (k @ 0 # r) = Some k"
  by (simp add: c_contents_def c_strlen_append)

lemma c_strchr_append [cstr_simps]:
  "0 \<notin> set k \<Longrightarrow> c \<notin> set k \<Longrightarrow> c_strchr c (k @ c # r) = Some (Some (length k))"
  by (induction k) auto

lemma c_strchr_None [cstr_simps]:
  "0 \<notin> set k \<Longrightarrow> c \<notin> set k \<Longrightarrow> c \<noteq> 0 \<Longrightarrow> c_strchr c (k @ 0 # r) = Some None"
  by (induction k) auto

lemma c_strrchr_None [cstr_simps]:
  "0 \<notin> set k \<Longrightarrow> c \<notin> set k \<Longrightarrow> c \<noteq> 0 \<Longrightarrow> c_strrchr c (k @ 0 # r) = Some None"
  by (induction k) auto

lemma c_strrchr_append [cstr_simps]:
  "0 \<notin> set k \<Longrightarrow> c \<noteq> 0 \<Longrightarrow> 0 \<notin> set l \<Longrightarrow> c \<notin> set l \<Longrightarrow>
   c_strrchr c (k @ c # l @ 0 # r) = Some (Some (length k))"
  by (induction k) (auto simp: c_strrchr_None)

text \<open>
  \<^verbatim>\<open>strncmp(k, k', strlen(k)) == 0\<close> is the test "k is a prefix of k'", not equality.
\<close>

lemma c_strncmp_eq_prefix [cstr_simps]:
  "0 \<notin> set k \<Longrightarrow> 0 \<notin> set k' \<Longrightarrow>
   c_strncmp_eq (length k) (k @ r) (k' @ 0 # r') = Some (prefix k k')"
proof (induction k arbitrary: k')
  case (Cons a k)
  then show ?case by (cases k') auto
qed simp

lemma c_strncmp_eq_prefix' [cstr_simps]:
  "0 \<notin> set k \<Longrightarrow> 0 \<notin> set k' \<Longrightarrow>
   c_strncmp_eq (length k) (k' @ 0 # r') (k @ r) = Some (prefix k k')"
proof (induction k arbitrary: k')
  case (Cons a k)
  then show ?case by (cases k') auto
qed simp

section \<open>Options and lists\<close>

text \<open>To fix the value of a computation: evaluate that there is one.\<close>

lemma computes_Some: "\<not> Option.is_none x \<Longrightarrow> x = Some (the x)"
  by (cases x) simp_all

lemma computes_pair: "\<not> Option.is_none x \<Longrightarrow> fst (the x) = a \<Longrightarrow> x = Some (a, snd (the x))"
  by (cases x) auto

lemma sum_list_map_update:
  fixes f :: "'a \<Rightarrow> nat"
  assumes "i < length xs"
  shows "sum_list (map f (xs[i := y])) + f (xs ! i) = sum_list (map f xs) + f y"
  using assms
proof (induction xs arbitrary: i)
  case (Cons x xs)
  show ?case
  proof (cases i)
    case 0
    then show ?thesis by simp
  next
    case (Suc j)
    with Cons show ?thesis by simp
  qed
qed simp

lemma sum_list_ge_nth:
  fixes f :: "'a \<Rightarrow> nat"
  assumes "i < length xs"
  shows "f (xs ! i) \<le> sum_list (map f xs)"
proof -
  from assms have "f (xs ! i) \<in> set (map f xs)" by simp
  then show ?thesis by (intro member_le_sum_list) simp_all
qed

end
