(* ===== verification/RS_String.thy ===== *)
theory RS_String
  imports RS_Prelude
begin

text \<open>
  \<^verbatim>\<open>src/core/rs_string.c\<close>: decimal numbers read forwards and backwards, numbers written in
  decimal, escaped and hexadecimal copies, and the packed integer of the binlog. The lemmas show
  that reading back what was written gives the number, that the local buffer of
  \<^verbatim>\<open>rs_uint32_to_str\<close> is never overrun, and what the packed integer reader returns.
\<close>

section \<open>Numbers\<close>

text \<open>\<^verbatim>\<open>*p >= '0' && *p <= '9'\<close> on a signed char.\<close>

definition is_digit :: "byte \<Rightarrow> bool" where
  "is_digit c \<longleftrightarrow> 48 \<le> sint c \<and> sint c \<le> 57"

text \<open>
  The loop \<^verbatim>\<open>i = i * 10 + *p++ - '0'\<close>, which the unsigned readers share: the promotions of
  C make it arithmetic modulo the width of i.
\<close>

fun str_to_word :: "'a::len word \<Rightarrow> byte list \<Rightarrow> 'a word option" where
  "str_to_word i [] = None"
| "str_to_word i (c # p) =
     (if is_digit c then str_to_word (i * 10 + scast c - 48) p else Some i)"

definition rs_str_to_uint32 :: "byte list \<Rightarrow> u32 option" where
  "rs_str_to_uint32 p = str_to_word 0 p"

definition rs_str_to_uint16 :: "byte list \<Rightarrow> u16 option" where
  "rs_str_to_uint16 p = str_to_word 0 p"

definition rs_str_to_uint64 :: "byte list \<Rightarrow> u64 option" where
  "rs_str_to_uint64 p = str_to_word 0 p"

text \<open>The signed reader: an intermediate result outside the range of int is undefined.\<close>

definition s32_check :: "int \<Rightarrow> int option" where
  "s32_check k = (if - (2 ^ 31) \<le> k \<and> k < 2 ^ 31 then Some k else None)"

fun str_to_int32_loop :: "int \<Rightarrow> byte list \<Rightarrow> int option" where
  "str_to_int32_loop i [] = None"
| "str_to_int32_loop i (c # p) =
     (if is_digit c
      then do {
        a \<leftarrow> s32_check (i * 10);
        b \<leftarrow> s32_check (a + sint c);
        d \<leftarrow> s32_check (b - 48);
        str_to_int32_loop d p }
      else Some i)"

definition rs_str_to_int32 :: "byte list \<Rightarrow> int option" where
  "rs_str_to_int32 p = str_to_int32_loop 0 p"

text \<open>
  Backwards from the last digit: the argument of the loop is the memory from the pointer down to
  the start of the object. \<^verbatim>\<open>(uint32_t) pow(10, n)\<close> is exact up to n = 9 and an
  out-of-range conversion after that.
\<close>

fun estr_to_uint32_loop :: "nat \<Rightarrow> u32 \<Rightarrow> byte list \<Rightarrow> u32 option" where
  "estr_to_uint32_loop n i [] = None"
| "estr_to_uint32_loop n i (c # s) =
     (if is_digit c
      then (if n < 10
            then estr_to_uint32_loop (Suc n) (i + of_nat (10 ^ n) * (scast c - 48)) s
            else None)
      else Some i)"

definition rs_estr_to_uint32 :: "byte list \<Rightarrow> nat \<Rightarrow> u32 option" where
  "rs_estr_to_uint32 buf s =
     (if s < length buf then estr_to_uint32_loop 0 0 (rev (take (Suc s) buf)) else None)"

text \<open>
  Writing: the digits go backwards into the local array b of 11 bytes, from b + 10 down; a write
  below b is undefined. Then the p digits and the NUL are copied to the caller's buffer.
\<close>

function uint32_to_str_loop :: "u32 \<Rightarrow> byte list \<Rightarrow> byte list option" where
  "uint32_to_str_loop n t =
     (if length t = 10 then None
      else let t' = ucast (n mod 10 + 48) # t; n' = n div 10
           in if n' \<noteq> 0 then uint32_to_str_loop n' t' else Some t')"
  by pat_completeness auto
termination
  by (relation "measure (\<lambda>(n, t). unat n)")
    (auto simp: word_less_nat_alt unat_div word_neq_0_conv)

declare uint32_to_str_loop.simps [simp del]

definition rs_uint32_to_str :: "u32 \<Rightarrow> byte list \<Rightarrow> byte list option" where
  "rs_uint32_to_str n buf = do {
     t \<leftarrow> uint32_to_str_loop n [];
     mem_write buf 0 (t @ [0]) }"

section \<open>Copies\<close>

definition rs_ansi_escape_char :: "byte \<Rightarrow> byte" where
  "rs_ansi_escape_char src =
     (if src = 48 then 0 \<comment> \<open>0\<close>
      else if src = 97 then 7 \<comment> \<open>a\<close>
      else if src = 98 then 8 \<comment> \<open>b\<close>
      else if src = 116 then 9 \<comment> \<open>t\<close>
      else if src = 110 then 10 \<comment> \<open>n\<close>
      else if src = 118 then 11 \<comment> \<open>v\<close>
      else if src = 102 then 12 \<comment> \<open>f\<close>
      else if src = 114 then 13 \<comment> \<open>r\<close>
      else if src = 90 then 26 \<comment> \<open>Z\<close>
      else src)"

text \<open>
  The copy loops return the bytes stored from \<^verbatim>\<open>dst\<close> on and the pointer at which they stop.
  92 is the backslash, 39 the quote.
\<close>

fun rs_cp_binary_str :: "byte list \<Rightarrow> (byte list \<times> byte list) option" where
  "rs_cp_binary_str [] = None"
| "rs_cp_binary_str (c # src) =
     (if c = 92 then
        (case src of [] \<Rightarrow> None
         | e # src' \<Rightarrow> map_option (map_prod ((#) (rs_ansi_escape_char e)) id) (rs_cp_binary_str src'))
      else if c = 39 \<or> c = 0 then Some ([], c # src)
      else map_option (map_prod ((#) c) id) (rs_cp_binary_str src))"

definition rs_utf8_char_len :: "byte \<Rightarrow> int" where
  "rs_utf8_char_len c =
     (if uint c < 0x80 then 1 else if uint c < 0xE0 then 2 else if uint c < 0xF0 then 3 else -1)"

text \<open>A length of -1 is a \<^verbatim>\<open>memcpy\<close> of the whole address space.\<close>

function rs_cp_utf8_str :: "byte list \<Rightarrow> (byte list \<times> byte list) option" where
  "rs_cp_utf8_str [] = None"
| "rs_cp_utf8_str (c # src) =
     (let cl = rs_utf8_char_len c in
      if cl \<noteq> 1 then
        (if cl < 0 \<or> length (c # src) < nat cl then None
         else map_option (map_prod ((@) (take (nat cl) (c # src))) id)
                (rs_cp_utf8_str (drop (nat cl) (c # src))))
      else if c = 92 then
        (case src of [] \<Rightarrow> None
         | e # src' \<Rightarrow> map_option (map_prod ((#) (rs_ansi_escape_char e)) id) (rs_cp_utf8_str src'))
      else if c = 39 \<or> c = 0 then Some ([], c # src)
      else map_option (map_prod ((#) c) id) (rs_cp_utf8_str src))"
  by pat_completeness auto
termination
  by (relation "measure length") (auto simp: rs_utf8_char_len_def split: if_splits)

definition hex_digit :: "byte \<Rightarrow> byte" where
  "hex_digit k = (if k < 10 then 48 + k else 87 + k)"

fun convert_to_hex_bytes :: "byte list \<Rightarrow> byte list" where
  "convert_to_hex_bytes [] = []"
| "convert_to_hex_bytes (c # src) =
     hex_digit (drop_bit 4 c) # hex_digit (c AND 0xf) # convert_to_hex_bytes src"

definition rs_convert_to_hex :: "byte list \<Rightarrow> byte list \<Rightarrow> nat \<Rightarrow> byte list option" where
  "rs_convert_to_hex dst src len = do {
     s \<leftarrow> mem_read src 0 len;
     mem_write dst 0 (convert_to_hex_bytes s) }"

text \<open>\<^verbatim>\<open>*src\<close> is read before n is tested.\<close>

fun ncp_str_till_loop :: "byte \<Rightarrow> nat \<Rightarrow> byte list \<Rightarrow> (byte list \<times> byte list) option" where
  "ncp_str_till_loop es n [] = None"
| "ncp_str_till_loop es n (c # src) =
     (if c \<noteq> es \<and> n \<noteq> 0
      then map_option (map_prod ((#) c) id) (ncp_str_till_loop es (n - 1) src)
      else Some ([], src))"

definition rs_ncp_str_till ::
    "byte list \<Rightarrow> byte list \<Rightarrow> byte \<Rightarrow> nat \<Rightarrow> (byte list \<times> byte list) option" where
  "rs_ncp_str_till dst src es len = do {
     (copied, src') \<leftarrow> ncp_str_till_loop es len src;
     dst' \<leftarrow> mem_write dst 0 (copied @ [0]);
     Some (dst', src') }"

definition rs_strstr_end :: "byte list \<Rightarrow> byte list \<Rightarrow> nat \<Rightarrow> nat option option" where
  "rs_strstr_end src sea len = map_option (map_option (\<lambda>k. k + len)) (c_strstr src sea)"

section \<open>The packed integer\<close>

text \<open>The value and the number of bytes the reader says it took.\<close>

definition rs_parse_packed_integer :: "byte list \<Rightarrow> (u64 \<times> u32) option" where
  "rs_parse_packed_integer p = do {
     c \<leftarrow> mem_get p 0;
     if uint c \<le> 250 then Some (ucast c, 1)
     else if uint c \<le> 252 then do { b \<leftarrow> mem_read p 0 2; Some (set_low 0 b, 2) }
     else if uint c \<le> 253 then do { b \<leftarrow> mem_read p 0 3; Some (set_low 0 b, 3) }
     else if uint c \<le> 254 then do { b \<leftarrow> mem_read p 0 4; Some (set_low 0 b, 4) }
     else do { b \<leftarrow> mem_read p 0 8; Some (set_low 0 b, 8) } }"

section \<open>Digits\<close>

definition dec_val :: "byte list \<Rightarrow> nat" where
  "dec_val ds = foldl (\<lambda>v c. v * 10 + (unat c - 48)) 0 ds"

lemma sint_byte: "sint (c :: byte) = (if uint c < 128 then uint c else uint c - 256)"
proof -
  have "uint c = sint c mod 256"
    using uint_sint [of c] by (simp add: take_bit_eq_mod)
  moreover have "- 128 \<le> sint c" and "sint c < 128"
    using sint_greater_eq [of c] sint_less [of c] by simp_all
  ultimately show ?thesis by presburger
qed

lemma is_digit_uint: "is_digit c \<longleftrightarrow> 48 \<le> uint c \<and> uint c \<le> 57"
  using uint_lt2p [of c] by (simp add: is_digit_def sint_byte)

lemma is_digit_unat: "is_digit c \<longleftrightarrow> 48 \<le> unat c \<and> unat c \<le> 57"
  unfolding is_digit_uint uint_nat by arith

lemma scast_digit: "is_digit c \<Longrightarrow> (scast c :: 'a::len word) = of_nat (unat c)"
proof -
  assume "is_digit c"
  then have "sint c = uint c"
    by (simp add: is_digit_uint sint_byte)
  then show ?thesis by (metis of_int_uint scast_eq unat_eq_nat_uint of_nat_nat uint_ge_0)
qed

lemma digit_step: "is_digit c \<Longrightarrow> (i * 10 + scast c - 48 :: 'a::len word) = i * 10 + of_nat (unat c - 48)"
  by (simp add: scast_digit is_digit_unat)

lemma dec_val_snoc [simp]: "dec_val (ds @ [c]) = dec_val ds * 10 + (unat c - 48)"
  by (simp add: dec_val_def)

lemma unat_digit: "k < 10 \<Longrightarrow> unat (of_nat (48 + k) :: byte) = 48 + k"
  by (simp add: unat_of_nat del: of_nat_add)

lemma fmt_u_digits: "c \<in> set (fmt_u n) \<Longrightarrow> is_digit c"
proof (induction n rule: fmt_u.induct)
  case (1 n)
  then show ?case
    by (cases "n < 10")
      (auto simp: fmt_u.simps [of n] is_digit_unat simp del: of_nat_add simp: unat_digit)
qed

lemma dec_val_fmt_u [simp]: "dec_val (fmt_u n) = n"
proof (induction n rule: fmt_u.induct)
  case (1 n)
  show ?case
  proof (cases "n < 10")
    case True
    then show ?thesis
      by (subst fmt_u.simps) (simp add: dec_val_def unat_digit del: of_nat_add)
  next
    case False
    with 1 show ?thesis
      by (subst fmt_u.simps) (simp add: unat_digit del: of_nat_add)
  qed
qed

lemma fmt_u_not_Nil [simp]: "fmt_u n \<noteq> []"
  by (subst fmt_u.simps) simp

lemma length_fmt_u: "n < 10 ^ k \<Longrightarrow> 0 < k \<Longrightarrow> length (fmt_u n) \<le> k"
proof (induction n arbitrary: k rule: fmt_u.induct)
  case (1 n)
  show ?case
  proof (cases "n < 10")
    case True
    with 1 show ?thesis by (subst fmt_u.simps) simp
  next
    case False
    obtain j where "k = Suc j" using "1.prems" by (cases k) auto
    moreover from this False "1.prems" have "0 < j" by (cases j) auto
    ultimately have j: "k = Suc j" "0 < j" by simp_all
    with "1.prems" have "n div 10 < 10 ^ j" by (simp add: less_mult_imp_div_less mult.commute)
    with 1 False j show ?thesis by (subst fmt_u.simps) simp
  qed
qed

lemma length_fmt_u32: "length (fmt_u (unat (n :: u32))) \<le> 10"
  using unsigned_less [of n, where ?'a = nat] by (intro length_fmt_u) simp_all

lemma not_digit_0 [simp]: "\<not> is_digit 0"
  by (simp add: is_digit_def)

lemma fmt_u_no_byte: "\<not> is_digit c \<Longrightarrow> c \<notin> set (fmt_u n)"
  using fmt_u_digits by blast

section \<open>Reading and writing numbers\<close>

lemma str_to_word_digits:
  assumes "\<forall>c \<in> set ds. is_digit c" and "\<not> is_digit t"
  shows "str_to_word (of_nat v) (ds @ t # r) =
    Some (of_nat (foldl (\<lambda>v c. v * 10 + (unat c - 48)) v ds))"
  using assms
proof (induction ds arbitrary: v)
  case (Cons c ds)
  then have "(of_nat v * 10 + scast c - 48 :: 'a word) = of_nat (v * 10 + (unat c - 48))"
    by (simp add: digit_step)
  with Cons show ?case by (simp del: of_nat_add of_nat_mult of_nat_diff)
qed simp

lemmas str_to_word_dec_val =
  str_to_word_digits [where v = 0, folded dec_val_def, unfolded of_nat_0]

lemma estr_to_uint32_loop_digits:
  assumes "\<forall>c \<in> set rs. is_digit c" and "\<not> is_digit t" and "n + length rs \<le> 10"
  shows "estr_to_uint32_loop n i (rs @ t # q) = Some (i + of_nat (10 ^ n * dec_val (rev rs)))"
  using assms
proof (induction rs arbitrary: n i)
  case (Cons c rs)
  then have "(scast c - 48 :: u32) = of_nat (unat c - 48)"
    using digit_step [of c 0] by simp
  with Cons show ?case by (simp add: distrib_left ac_simps del: of_nat_diff)
qed (simp add: dec_val_def)

lemma uint32_to_str_loop_fmt_u:
  "length t + length (fmt_u (unat n)) \<le> 10 \<Longrightarrow>
   uint32_to_str_loop n t = Some (fmt_u (unat n) @ t)"
proof (induction n t rule: uint32_to_str_loop.induct)
  case (1 n t)
  have "unat (n mod 10 + 48) = unat n mod 10 + 48"
    by (subst unat_add_lem [THEN iffD1]) (simp_all add: unat_mod)
  then have d: "(ucast (n mod 10 + 48) :: byte) = of_nat (48 + unat n mod 10)"
    by (metis add.commute of_nat_unat)
  have len: "length t \<noteq> 10"
    using "1.prems" fmt_u_not_Nil [of "unat n"] by (auto simp del: fmt_u_not_Nil)
  have z: "n div 10 = 0 \<longleftrightarrow> unat n < 10"
    by (simp add: unat_eq_zero [symmetric] unat_div div_eq_0_iff)
  show ?case
  proof (cases "unat n < 10")
    case True
    then show ?thesis
      using len z by (simp add: uint32_to_str_loop.simps [of n t] fmt_u.simps [of "unat n"] d Let_def)
  next
    case False
    then have fm: "fmt_u (unat n) = fmt_u (unat (n div 10)) @ [of_nat (48 + unat n mod 10)]"
      by (simp add: fmt_u.simps [of "unat n"] unat_div)
    have "uint32_to_str_loop (n div 10) (ucast (n mod 10 + 48) # t) =
        Some (fmt_u (unat (n div 10)) @ ucast (n mod 10 + 48) # t)"
      using "1.prems" len z False fm by (intro "1.IH") simp_all
    with False z len fm d show ?thesis
      by (simp add: uint32_to_str_loop.simps [of n t] Let_def)
  qed
qed

section \<open>Properties\<close>

text \<open>Decimal digits up to the first other byte are read as a number modulo the width.\<close>

theorem str_to_uint32_value:
  assumes "\<forall>c \<in> set ds. is_digit c" and "\<not> is_digit t"
  shows "rs_str_to_uint32 (ds @ t # r) = Some (of_nat (dec_val ds))"
  using str_to_word_dec_val [OF assms] by (simp add: rs_str_to_uint32_def)

theorem str_to_uint32_value_witness: "rs_str_to_uint32 (ascii ''4294967297,'') = Some 1"
  using str_to_uint32_value [of "ascii ''4294967297''" 44 "[]"]
  by (simp add: ascii_def is_digit_uint dec_val_def)

text \<open>
  Writing a number into a buffer of 11 bytes stays inside the local and the target buffer,
  and reading the buffer gives the number back.
\<close>

theorem uint32_str_roundtrip:
  assumes "11 \<le> length buf"
  shows "\<exists>buf'. rs_uint32_to_str n buf = Some buf' \<and> length buf' = length buf \<and>
    c_contents buf' = Some (fmt_u (unat n)) \<and> rs_str_to_uint32 buf' = Some n"
proof -
  let ?s = "fmt_u (unat n)"
  have len: "length ?s \<le> 10" by (rule length_fmt_u32)
  then have "rs_uint32_to_str n buf = Some (?s @ 0 # drop (Suc (length ?s)) buf)"
    using assms uint32_to_str_loop_fmt_u [of "[]" n]
    by (simp add: rs_uint32_to_str_def mem_simps)
  moreover have "rs_str_to_uint32 (?s @ 0 # drop (Suc (length ?s)) buf) = Some n"
    using str_to_word_dec_val [of ?s 0, where ?'a = 32]
    by (simp add: rs_str_to_uint32_def fmt_u_digits)
  ultimately show ?thesis
    using len assms fmt_u_no_byte [of 0] by (simp add: cstr_simps)
qed

theorem uint32_str_roundtrip_witness:
  "\<exists>buf'. rs_uint32_to_str 4294967295 (replicate 11 1) = Some buf' \<and> rs_str_to_uint32 buf' = Some 4294967295"
  using uint32_str_roundtrip [of "replicate 11 1" 4294967295] by auto

text \<open>Reading backwards from the last digit gives the number in front of it.\<close>

theorem estr_to_uint32_value:
  assumes "\<not> is_digit t"
  shows "rs_estr_to_uint32 (pre @ t # fmt_u (unat n) @ r) (length pre + length (fmt_u (unat n))) = Some n"
proof -
  let ?s = "fmt_u (unat n)"
  have "rev (take (Suc (length pre + length ?s)) (pre @ t # ?s @ r)) = rev ?s @ t # rev pre"
    by simp
  moreover have "estr_to_uint32_loop 0 0 (rev ?s @ t # rev pre) = Some n"
    using estr_to_uint32_loop_digits [of "rev ?s" t 0 0 "rev pre"] assms length_fmt_u32 [of n]
    by (auto simp: fmt_u_digits)
  ultimately show ?thesis by (simp add: rs_estr_to_uint32_def)
qed

theorem estr_to_uint32_value_witness:
  "rs_estr_to_uint32 ([46] @ 46 # fmt_u (unat (42 :: u32)) @ [0]) (length [46 :: byte] + length (fmt_u (unat (42 :: u32)))) = Some 42"
  using estr_to_uint32_value [of 46 "[46]" 42 "[0]"] by (simp add: is_digit_uint)

text \<open>How a statement quotes a string: NUL, quote and backslash are escaped.\<close>

fun sql_escape :: "byte list \<Rightarrow> byte list" where
  "sql_escape [] = []"
| "sql_escape (c # s) =
     (if c = 0 then 92 # 48 # sql_escape s
      else if c = 39 \<or> c = 92 then 92 # c # sql_escape s
      else c # sql_escape s)"

text \<open>Copying a quoted string removes the quoting and stops at the closing quote.\<close>

theorem cp_binary_str_unescapes:
  "rs_cp_binary_str (sql_escape s @ 39 # r) = Some (s, 39 # r)"
  by (induction s) (auto simp: rs_ansi_escape_char_def)

text \<open>On ASCII text the UTF-8 copy is the binary copy.\<close>

theorem cp_utf8_str_ascii:
  assumes "\<forall>c \<in> set src. uint c < 128"
  shows "rs_cp_utf8_str src = rs_cp_binary_str src"
  using assms
proof (induction src rule: rs_cp_binary_str.induct)
  case (2 c src)
  then have "rs_utf8_char_len c = 1" by (simp add: rs_utf8_char_len_def)
  with 2 show ?case by (auto split: list.splits)
qed simp

theorem cp_utf8_str_ascii_witness:
  "rs_cp_utf8_str (ascii ''a'' @ [92, 110, 39]) = rs_cp_binary_str (ascii ''a'' @ [92, 110, 39])"
  by (rule cp_utf8_str_ascii) (simp add: ascii_def)

text \<open>Hexadecimal output takes two bytes per byte and determines the input.\<close>

fun hex_val :: "byte \<Rightarrow> byte" where
  "hex_val c = (if c \<ge> 97 then c - 87 else c - 48)"

fun hex_decode :: "byte list \<Rightarrow> byte list" where
  "hex_decode (a # b # s) = (hex_val a * 16 + hex_val b) # hex_decode s"
| "hex_decode _ = []"

lemma hex_val_digit: "unat k < 16 \<Longrightarrow> hex_val (hex_digit k) = k"
proof -
  assume k: "unat k < 16"
  have "unat (48 + k) = 48 + unat k" "unat (87 + k) = 87 + unat k"
    using k by (simp_all add: unat_word_ariths)
  then show ?thesis
    using k by (auto simp: hex_digit_def word_less_nat_alt word_le_nat_alt)
qed

lemma hex_byte: "hex_val (hex_digit (drop_bit 4 c)) * 16 + hex_val (hex_digit (c AND 0xf)) = c"
proof -
  have "unat c < 256" using unsigned_less [of c, where ?'a = nat] by simp
  then have "unat (drop_bit 4 c) < 16" by (simp add: drop_bit_eq_div unat_div)
  moreover have a: "c AND 0xf = c mod 16"
    using take_bit_eq_mask [of 4 c] by (simp add: take_bit_eq_mod mask_eq_exp_minus_1)
  then have "unat (c AND 0xf) < 16" by (simp add: unat_mod)
  ultimately show ?thesis
    using hex_val_digit a div_mult_mod_eq [of c 16] by (simp add: drop_bit_eq_div del: hex_val.simps)
qed

lemma hex_decode_bytes: "hex_decode (convert_to_hex_bytes s) = s"
  by (induction s) (simp_all add: hex_byte del: hex_val.simps)

lemma length_convert_to_hex_bytes: "length (convert_to_hex_bytes s) = 2 * length s"
  by (induction s) simp_all

text \<open>The hexadecimal form of some bytes takes two characters for each and determines them.\<close>

theorem convert_to_hex_roundtrip:
  assumes "length src = len" and "2 * len \<le> length dst"
  shows "\<exists>hex. rs_convert_to_hex dst src len = Some (hex @ drop (2 * len) dst) \<and>
    length hex = 2 * len \<and> hex_decode hex = src"
  using assms
  by (intro exI [of _ "convert_to_hex_bytes src"])
    (simp add: rs_convert_to_hex_def mem_simps hex_decode_bytes length_convert_to_hex_bytes)

theorem convert_to_hex_roundtrip_witness:
  "\<exists>hex. rs_convert_to_hex [1, 2, 3, 4, 5] [0xAB, 0x10] 2 = Some (hex @ [5]) \<and> hex_decode hex = [0xAB, 0x10]"
  using convert_to_hex_roundtrip [of "[0xAB, 0x10]" 2 "[1, 2, 3, 4, 5]"]
  by (auto simp del: hex_decode.simps)

lemma packed_small: "n \<le> 250 \<Longrightarrow> rs_parse_packed_integer (of_nat n # r) = Some (of_nat n, 1)"
proof -
  assume n: "n \<le> 250"
  have u: "unat (of_nat n :: byte) = n" using n by (simp add: unat_of_nat)
  then have "uint (of_nat n :: byte) \<le> 250" using n by (simp add: uint_nat)
  moreover have "ucast (of_nat n :: byte) = (of_nat n :: u64)" by (rule word_unat_eq_iff [THEN iffD2]) (use n in \<open>simp add: unsigned_ucast_eq unat_of_nat take_bit_eq_mod\<close>)
  ultimately show ?thesis by (simp add: rs_parse_packed_integer_def mem_get_def)
qed

text \<open>
  The packed integer reader is right for one byte; for the longer forms it reads the prefix
  byte as the lowest byte of the value and reports a length one too small.
\<close>

theorem packed_integer_includes_prefix:
  "(uint c \<le> 250 \<longrightarrow> rs_parse_packed_integer (c # r) = Some (ucast c, 1)) \<and>
   rs_parse_packed_integer (252 # b # r) = Some (of_nat (252 + 256 * unat b), 2) \<and>
   rs_parse_packed_integer (253 # b # b' # r) = Some (of_nat (253 + 256 * (unat b + 256 * unat b')), 3)"
  by (simp add: rs_parse_packed_integer_def mem_get_def mem_read_def set_low_def)

theorem packed_integer_includes_prefix_witness:
  "rs_parse_packed_integer (7 # [0]) = Some (7, 1)"
  using packed_integer_includes_prefix [of 7 "[0]" 0 0] by simp

end
