(* ===== verification/RS_Palloc.thy ===== *)
theory RS_Palloc
  imports RS_Prelude
begin

text \<open>
  \<^verbatim>\<open>src/core/rs_palloc.c\<close> and \<^verbatim>\<open>rs_palloc.h\<close>: the slab pool every other
  component takes its memory from. Addresses are natural numbers, a null pointer is
  \<^verbatim>\<open>None\<close>. The answers of the operating system (\<^verbatim>\<open>malloc\<close>,
  \<^verbatim>\<open>realloc\<close>) are an argument of the operations that ask for them.

  The central lemma is a conservation law: an allocation moves one chunk from the pool's free
  blocks to the caller and a release moves it back, for every additive way of weighing blocks.
  Weighing by "covers address x" gives that live chunks never overlap, weighing by size gives the
  bounds that keep the counters from wrapping around.
\<close>

section \<open>State\<close>

record rs_pool_class_t =
  pc_size :: u32
  pc_num :: u32
  pc_free_chunk :: "addr option list" \<comment> \<open>\<^verbatim>\<open>total_free\<close> cells, None: not yet written\<close>
  pc_chunk :: "addr option"
  pc_free :: u32
  pc_used_slab :: u32
  pc_total_slab :: u32
  pc_total_free :: u32
  pc_used_free :: u32
  pc_slab :: "addr option list"
  pc_died :: u32

definition rs_pool_class_t_init :: rs_pool_class_t where
  "rs_pool_class_t_init =
     \<lparr>pc_size = 0, pc_num = 0, pc_free_chunk = [], pc_chunk = None, pc_free = 0,
      pc_used_slab = 0, pc_total_slab = 0, pc_total_free = 0, pc_used_free = 0,
      pc_slab = [], pc_died = 0\<rparr>"

text \<open>
  \<^verbatim>\<open>slab_class\<close> holds the initialised classes, 0 to \<^verbatim>\<open>cur_idx\<close>; the rest of
  the array is indeterminate.
\<close>

record rs_pool_t =
  p_slab_class :: "rs_pool_class_t list"
  p_cur_idx :: int
  p_max_idx :: int
  p_start :: addr
  p_cur :: addr
  p_max_size :: u32
  p_used_size :: u32
  p_free_size :: u32
  p_chunk_size :: u32
  p_flag :: int

definition RS_POOL_PAGEALLOC :: int where "RS_POOL_PAGEALLOC = 0"

definition RS_POOL_PREALLOC :: int where "RS_POOL_PREALLOC = 1"

definition RS_POOL_CLASS_IDX :: u32 where "RS_POOL_CLASS_IDX = 200"

text \<open>What the operating system answers to the calls an operation makes (sizes in bytes).\<close>

record os_mem =
  os_malloc :: "nat \<Rightarrow> addr option"
  os_realloc :: "nat \<Rightarrow> bool"

section \<open>Operations\<close>

definition pool_class :: "rs_pool_t \<Rightarrow> int \<Rightarrow> rs_pool_class_t option" where
  "pool_class p idx =
     (if 0 \<le> idx \<and> nat idx < length (p_slab_class p) then Some (p_slab_class p ! nat idx) else None)"

definition set_class :: "rs_pool_t \<Rightarrow> int \<Rightarrow> rs_pool_class_t \<Rightarrow> rs_pool_t" where
  "set_class p idx c = p\<lparr>p_slab_class := (p_slab_class p)[nat idx := c]\<rparr>"

text \<open>\<^verbatim>\<open>rs_align(d, sizeof(unsigned long))\<close>: computed on 64 bits, stored in 32.\<close>

definition rs_align :: "u32 \<Rightarrow> u32" where
  "rs_align d = ucast ((ucast d + (8 - 1)) AND NOT (8 - 1) :: u64)"

text \<open>\<^verbatim>\<open>realloc\<close> of an array of pointers: old cells kept, new ones not written.\<close>

definition realloc_cells :: "addr option list \<Rightarrow> nat \<Rightarrow> addr option list" where
  "realloc_cells cells n = take n cells @ replicate (n - length cells) None"

definition rs_palloc_grow :: "os_mem \<Rightarrow> rs_pool_t \<Rightarrow> int \<Rightarrow> (rs_code \<times> rs_pool_t) option" where
  "rs_palloc_grow os p idx = do {
     c \<leftarrow> pool_class p idx;
     if pc_used_slab c = pc_total_slab c then
       (let sz = (if pc_total_slab c = 0 then 16 else pc_total_slab c * 2) in
        if os_realloc os (unat sz * 8)
        then Some (RS_OK, set_class p idx (c\<lparr>pc_slab := realloc_cells (pc_slab c) (unat sz),
                                            pc_total_slab := sz\<rparr>))
        else Some (RS_ERR, set_class p idx (c\<lparr>pc_slab := []\<rparr>)))
     else Some (RS_OK, p) }"

definition rs_pmemalloc :: "os_mem \<Rightarrow> rs_pool_t \<Rightarrow> u32 \<Rightarrow> addr option \<times> rs_pool_t" where
  "rs_pmemalloc os p sz =
     (if sz > p_free_size p then (None, p)
      else let p' = p\<lparr>p_free_size := p_free_size p - sz, p_used_size := p_used_size p + sz\<rparr>
           in if p_flag p = RS_POOL_PAGEALLOC then
                (case os_malloc os (unat sz) of None \<Rightarrow> (None, p) | Some t \<Rightarrow> (Some t, p'))
              else if p_flag p = RS_POOL_PREALLOC then
                (Some (p_cur p), p'\<lparr>p_cur := p_cur p + unat sz\<rparr>)
              else (None, p'))"

definition rs_palloc_new :: "os_mem \<Rightarrow> rs_pool_t \<Rightarrow> int \<Rightarrow> (rs_code \<times> rs_pool_t) option" where
  "rs_palloc_new os p idx = do {
     c \<leftarrow> pool_class p idx;
     (r, p1) \<leftarrow> rs_palloc_grow os p idx;
     if r \<noteq> RS_OK then Some (RS_ERR, p1)
     else (case rs_pmemalloc os p1 (pc_size c * pc_num c) of
         (None, p2) \<Rightarrow> Some (RS_ERR, p2)
       | (Some t, p2) \<Rightarrow> do {
           c2 \<leftarrow> pool_class p2 idx;
           slab \<leftarrow> mem_write (pc_slab c2) (unat (pc_used_slab c2)) [Some t];
           Some (RS_OK, set_class p2 idx
             (c2\<lparr>pc_chunk := Some t, pc_free := pc_num c2, pc_slab := slab,
                 pc_used_slab := pc_used_slab c2 + 1\<rparr>)) }) }"

lemma midpoint: "low \<le> high \<Longrightarrow> low \<le> low + (high - low) div 2 \<and> low + (high - low) div 2 \<le> (high :: int)"
  by presburger

text \<open>
  The search loop returns whether it hit a class of exactly this size, and \<^verbatim>\<open>low\<close>: the
  code returns \<^verbatim>\<open>low\<close>, not \<^verbatim>\<open>mid\<close>, in both cases.
\<close>

function palloc_id_loop :: "rs_pool_t \<Rightarrow> u32 \<Rightarrow> int \<Rightarrow> int \<Rightarrow> (bool \<times> int) option" where
  "palloc_id_loop p sz low high =
     (if low \<le> high then
        (let mid = low + (high - low) div 2 in
         case pool_class p mid of
           None \<Rightarrow> None
         | Some c \<Rightarrow>
             if pc_size c > sz then palloc_id_loop p sz low (mid - 1)
             else if pc_size c < sz then palloc_id_loop p sz (mid + 1) high
             else Some (True, low))
      else Some (False, low))"
  by pat_completeness auto
termination
  using midpoint by (relation "measure (\<lambda>(p, sz, low, high). nat (high - low + 1))") fastforce+

declare palloc_id_loop.simps [simp del]

definition rs_palloc_id :: "rs_pool_t \<Rightarrow> u32 \<Rightarrow> int option" where
  "rs_palloc_id p sz =
     (if sz = 0 then Some (rs_code_val RS_ERR)
      else if sz > p_chunk_size p then Some (rs_code_val RS_SLAB_OVERFLOW)
      else do {
        (hit, low) \<leftarrow> palloc_id_loop p sz 0 (p_cur_idx p);
        if hit then Some low
        else if low > -1 \<and> low \<le> p_cur_idx p then Some low
        else Some (rs_code_val RS_SLAB_OVERFLOW) })"

text \<open>
  The class table: \<open>grow s\<close> is \<^verbatim>\<open>(uint32_t) (init_size * factor)\<close>, a double
  multiplication that is a parameter. The first argument counts the classes still allowed; a class
  size of 0 is the division \<^verbatim>\<open>chunk_size / 0\<close>.
\<close>

fun create_classes :: "(u32 \<Rightarrow> u32) \<Rightarrow> u32 \<Rightarrow> nat \<Rightarrow> u32 \<Rightarrow> rs_pool_class_t list option" where
  "create_classes grow chunk_size 0 init_size = Some []"
| "create_classes grow chunk_size (Suc n) init_size =
     (if init_size < chunk_size then
        (if init_size = 0 then None
         else map_option
           ((#) (rs_pool_class_t_init\<lparr>pc_size := init_size, pc_num := chunk_size div init_size\<rparr>))
           (create_classes grow chunk_size n (rs_align (grow init_size))))
      else Some [])"

text \<open>Sizes of the two structs on a 64-bit machine, in bytes.\<close>

definition sizeof_rs_pool_class_t :: u32 where "sizeof_rs_pool_class_t = 64"

definition sizeof_rs_pool_t :: u32 where "sizeof_rs_pool_t = 56"

definition pool_alloc_size :: "u32 \<Rightarrow> u32 \<Rightarrow> int \<Rightarrow> u32" where
  "pool_alloc_size mem_size max_idx flag =
     sizeof_rs_pool_t + sizeof_rs_pool_class_t * (max_idx + 1)
       + (if flag = RS_POOL_PREALLOC then rs_align mem_size else 0)"

text \<open>The outer option is undefined behaviour, the inner one the NULL of a failed creation.\<close>

definition rs_create_pool ::
    "os_mem \<Rightarrow> u32 \<Rightarrow> u32 \<Rightarrow> u32 \<Rightarrow> u32 \<Rightarrow> (u32 \<Rightarrow> u32) \<Rightarrow> int \<Rightarrow> rs_pool_t option option" where
  "rs_create_pool os init_size mem_size chunk_size max_idx grow flag =
     (if flag \<noteq> RS_POOL_PREALLOC \<and> flag \<noteq> RS_POOL_PAGEALLOC then Some None
      else case os_malloc os (unat (pool_alloc_size mem_size max_idx flag)) of
        None \<Rightarrow> Some None
      | Some base \<Rightarrow> do {
          cs \<leftarrow> create_classes grow chunk_size (nat (sint max_idx)) (rs_align init_size);
          let arena = base + unat sizeof_rs_pool_t + unat (sizeof_rs_pool_class_t * (max_idx + 1));
          Some (Some
            \<lparr>p_slab_class =
               cs @ [rs_pool_class_t_init\<lparr>pc_size := chunk_size, pc_num := 1\<rparr>],
             p_cur_idx = int (length cs), p_max_idx = sint max_idx,
             p_start = arena, p_cur = arena,
             p_max_size = rs_align mem_size, p_used_size = 0, p_free_size = rs_align mem_size,
             p_chunk_size = chunk_size, p_flag = flag\<rparr>) })"

text \<open>The second half of \<^verbatim>\<open>rs_palloc\<close>, once a chunk is known to be there.\<close>

definition palloc_take :: "rs_pool_t \<Rightarrow> int \<Rightarrow> (addr option \<times> rs_pool_t) option" where
  "palloc_take p idx = do {
     c \<leftarrow> pool_class p idx;
     if pc_used_free c > 0 then do {
       cell \<leftarrow> mem_get (pc_free_chunk c) (unat (pc_used_free c - 1));
       t \<leftarrow> cell;
       Some (Some t, set_class p idx (c\<lparr>pc_used_free := pc_used_free c - 1\<rparr>)) }
     else
       (let free = pc_free c - 1 in
        Some (pc_chunk c, set_class p idx
          (c\<lparr>pc_free := free,
             pc_chunk := (if free > 0 then map_option (\<lambda>a. a + unat (pc_size c)) (pc_chunk c)
                          else None)\<rparr>))) }"

definition rs_palloc ::
    "os_mem \<Rightarrow> rs_pool_t \<Rightarrow> u32 \<Rightarrow> int \<Rightarrow> (addr option \<times> rs_pool_t) option" where
  "rs_palloc os p sz idx =
     (if idx = rs_code_val RS_SLAB_OVERFLOW then Some (os_malloc os (unat sz), p)
      else do {
        c \<leftarrow> pool_class p idx;
        if pc_chunk c \<noteq> None \<or> pc_used_free c > 0 then palloc_take p idx
        else do {
          (r, p1) \<leftarrow> rs_palloc_new os p idx;
          if r = RS_OK then palloc_take p1 idx else Some (None, p1) } })"

definition rs_pfree :: "os_mem \<Rightarrow> rs_pool_t \<Rightarrow> addr \<Rightarrow> int \<Rightarrow> rs_pool_t option" where
  "rs_pfree os p data idx =
     (if idx = rs_code_val RS_SLAB_OVERFLOW then Some p
      else do {
        c \<leftarrow> pool_class p idx;
        if pc_used_free c = pc_total_free c then
          (let tf = (if pc_total_free c = 0 then 16 else pc_total_free c * 2) in
           if os_realloc os (unat tf * 8) then do {
             cells \<leftarrow> mem_write (realloc_cells (pc_free_chunk c) (unat tf))
                        (unat (pc_used_free c)) [Some data];
             Some (set_class p idx (c\<lparr>pc_free_chunk := cells, pc_total_free := tf,
                                     pc_used_free := pc_used_free c + 1\<rparr>)) }
           else Some p)
        else do {
          cells \<leftarrow> mem_write (pc_free_chunk c) (unat (pc_used_free c)) [Some data];
          Some (set_class p idx (c\<lparr>pc_free_chunk := cells,
                                  pc_used_free := pc_used_free c + 1\<rparr>)) } })"

section \<open>Alignment and the class search\<close>

lemma word_and_not_mask: "(x :: 'a::len word) AND NOT (mask n) = push_bit n (drop_bit n x)"
  by (rule bit_word_eqI) (auto simp: bit_simps)

lemma unat_rs_align: "unat (rs_align d) = (unat d + 7) div 8 * 8 mod 2 ^ 32"
proof -
  let ?x = "ucast d + 7 :: u64"
  have "?x AND NOT 7 = push_bit 3 (drop_bit 3 ?x)"
    using word_and_not_mask [of ?x 3] by (simp add: mask_eq_exp_minus_1)
  also have "\<dots> = ?x div 8 * 8"
    by (simp add: push_bit_eq_mult drop_bit_eq_div)
  finally have and_eq: "?x AND NOT 7 = ?x div 8 * 8" .
  have x: "unat ?x = unat d + 7"
    using unsigned_less [of d, where ?'a = nat]
    by (subst unat_add_lem [THEN iffD1])
      (simp_all add: unsigned_ucast_eq take_bit_eq_mod)
  have "unat (?x div 8 * 8) = (unat d + 7) div 8 * 8"
    using unsigned_less [of d, where ?'a = nat]
    by (subst unat_mult_lem [THEN iffD1]) (simp_all add: unat_div x)
  moreover have "rs_align d = ucast (?x div 8 * 8)"
    using and_eq by (simp add: rs_align_def)
  ultimately show ?thesis
    by (simp add: unsigned_ucast_eq take_bit_eq_mod)
qed

lemma rs_align_code [code]: "rs_align d = of_nat ((unat d + 7) div 8 * 8)"
  by (rule word_unat_eq_iff [THEN iffD2])
    (simp add: unat_rs_align unat_of_nat del: of_nat_mult)

definition cls_sizes :: "rs_pool_t \<Rightarrow> u32 list" where
  "cls_sizes p = map pc_size (p_slab_class p)"

definition classes_ok :: "rs_pool_t \<Rightarrow> bool" where
  "classes_ok p \<longleftrightarrow>
     p_slab_class p \<noteq> [] \<and> p_cur_idx p = int (length (p_slab_class p)) - 1 \<and>
     sorted_wrt (<) (cls_sizes p) \<and> last (cls_sizes p) = p_chunk_size p"

lemma pool_class_nth:
  "i < length (p_slab_class p) \<Longrightarrow> pool_class p (int i) = Some (p_slab_class p ! i)"
  by (simp add: pool_class_def)

lemma cls_sizes_mono:
  "classes_ok p \<Longrightarrow> i < j \<Longrightarrow> j < length (p_slab_class p) \<Longrightarrow> cls_sizes p ! i < cls_sizes p ! j"
  using sorted_wrt_nth_less [of "(<)" "cls_sizes p" i j]
  by (simp add: classes_ok_def cls_sizes_def)

lemma cls_sizes_le:
  "classes_ok p \<Longrightarrow> i \<le> j \<Longrightarrow> j < length (p_slab_class p) \<Longrightarrow> cls_sizes p ! i \<le> cls_sizes p ! j"
  using cls_sizes_mono [of p i j] by (cases "i = j") auto

lemma palloc_id_loop_correct:
  assumes "classes_ok p"
    and "0 \<le> low" and "low \<le> high + 1" and "high < int (length (p_slab_class p))"
    and "\<forall>j. int j < low \<longrightarrow> cls_sizes p ! j < sz"
    and "\<forall>j. high < int j \<and> j < length (p_slab_class p) \<longrightarrow> sz < cls_sizes p ! j"
  shows "\<exists>hit k. palloc_id_loop p sz low high = Some (hit, int k) \<and> k \<le> length (p_slab_class p) \<and>
     (\<forall>j<k. cls_sizes p ! j < sz) \<and>
     (hit \<longrightarrow> sz \<in> set (cls_sizes p) \<and> k < length (p_slab_class p)) \<and>
     (\<not> hit \<longrightarrow> (\<forall>j. k \<le> j \<and> j < length (p_slab_class p) \<longrightarrow> sz < cls_sizes p ! j))"
  using assms
proof (induction p sz low high rule: palloc_id_loop.induct)
  case (1 p sz low high)
  let ?n = "length (p_slab_class p)"
  show ?case
  proof (cases "low \<le> high")
    case False
    with "1.prems" show ?thesis
      by (intro exI [of _ False] exI [of _ "nat low"])
        (auto simp: palloc_id_loop.simps [of p sz low high])
  next
    case True
    define m where "m = nat (low + (high - low) div 2)"
    have m: "low + (high - low) div 2 = int m" "low \<le> int m" "int m \<le> high" "m < ?n"
      using True "1.prems" midpoint [OF True] by (auto simp: m_def)
    have cls: "pool_class p (int m) = Some (p_slab_class p ! m)" "cls_sizes p ! m = pc_size (p_slab_class p ! m)"
      using m by (simp_all add: pool_class_nth cls_sizes_def)
    note unf = palloc_id_loop.simps [of p sz low high]
    consider "sz < cls_sizes p ! m" | "cls_sizes p ! m < sz" | "sz = cls_sizes p ! m"
      by fastforce
    then show ?thesis
    proof cases
      case 1
      have "\<forall>j. int m - 1 < int j \<and> j < ?n \<longrightarrow> sz < cls_sizes p ! j"
      proof (intro allI impI)
        fix j
        assume "int m - 1 < int j \<and> j < ?n"
        then have "cls_sizes p ! m \<le> cls_sizes p ! j"
          by (intro cls_sizes_le "1.prems"(1)) linarith+
        with 1 show "sz < cls_sizes p ! j" by order
      qed
      moreover have "palloc_id_loop p sz low high = palloc_id_loop p sz low (int m - 1)"
        using 1 cls m True by (subst unf) (simp add: Let_def)
      ultimately show ?thesis
        using "1.IH"(1) [OF True refl, unfolded m, OF cls(1)] "1.prems" m 1 cls by simp
    next
      case 2
      have "\<forall>j. int j < int m + 1 \<longrightarrow> cls_sizes p ! j < sz"
      proof (intro allI impI)
        fix j
        assume "int j < int m + 1"
        then have "cls_sizes p ! j \<le> cls_sizes p ! m"
          by (intro cls_sizes_le "1.prems"(1) m(4)) linarith
        with 2 show "cls_sizes p ! j < sz" by order
      qed
      moreover have "palloc_id_loop p sz low high = palloc_id_loop p sz (int m + 1) high"
        using 2 less_imp_not_less [OF 2] cls m True by (subst unf) (simp add: Let_def)
      ultimately show ?thesis
        using "1.IH"(2) [OF True refl, unfolded m, OF cls(1)] "1.prems" m 2 cls by simp
    next
      case 3
      have "palloc_id_loop p sz low high = Some (True, low)"
        using 3 cls m True by (subst unf) (simp add: Let_def)
      moreover have "sz \<in> set (cls_sizes p)"
        using 3 m(4) by (simp add: cls_sizes_def)
      ultimately show ?thesis
        using m "1.prems"
        by (intro exI [of _ True] exI [of _ "nat low"]) auto
    qed
  qed
qed


lemma classes_ok_last:
  assumes "classes_ok p"
  shows "p_slab_class p \<noteq> []" and "p_cur_idx p = int (length (p_slab_class p)) - 1"
    and "cls_sizes p ! (length (p_slab_class p) - 1) = p_chunk_size p"
  using assms by (auto simp: classes_ok_def cls_sizes_def last_map last_conv_nth)

lemma palloc_id_loop_top:
  assumes "classes_ok p"
  obtains hit k where "palloc_id_loop p sz 0 (p_cur_idx p) = Some (hit, int k)"
    and "k \<le> length (p_slab_class p)" and "\<forall>j<k. cls_sizes p ! j < sz"
    and "hit \<Longrightarrow> sz \<in> set (cls_sizes p) \<and> k < length (p_slab_class p)"
    and "\<not> hit \<Longrightarrow> \<forall>j. k \<le> j \<and> j < length (p_slab_class p) \<longrightarrow> sz < cls_sizes p ! j"
proof -
  have "\<exists>hit k. palloc_id_loop p sz 0 (p_cur_idx p) = Some (hit, int k) \<and>
     k \<le> length (p_slab_class p) \<and> (\<forall>j<k. cls_sizes p ! j < sz) \<and>
     (hit \<longrightarrow> sz \<in> set (cls_sizes p) \<and> k < length (p_slab_class p)) \<and>
     (\<not> hit \<longrightarrow> (\<forall>j. k \<le> j \<and> j < length (p_slab_class p) \<longrightarrow> sz < cls_sizes p ! j))"
    using classes_ok_last [OF assms]
    by (intro palloc_id_loop_correct assms) auto
  then show ?thesis using that by blast
qed

text \<open>Off the exact sizes the search finds the smallest class that is large enough.\<close>

lemma palloc_id_least:
  assumes "classes_ok p" and "sz \<noteq> 0" and "sz \<le> p_chunk_size p" and "sz \<notin> set (cls_sizes p)"
  shows "\<exists>k < length (p_slab_class p). rs_palloc_id p sz = Some (int k) \<and>
    sz < cls_sizes p ! k \<and> (\<forall>j<k. cls_sizes p ! j < sz)"
proof -
  let ?n = "length (p_slab_class p)"
  note n = classes_ok_last [OF assms(1)]
  obtain hit k where r: "palloc_id_loop p sz 0 (p_cur_idx p) = Some (hit, int k)" "k \<le> ?n"
      "\<forall>j<k. cls_sizes p ! j < sz" "\<not> hit"
      "\<not> hit \<Longrightarrow> \<forall>j. k \<le> j \<and> j < ?n \<longrightarrow> sz < cls_sizes p ! j"
    using palloc_id_loop_top [OF assms(1), of sz] assms(4) by metis
  have "k < ?n"
  proof (rule ccontr)
    assume "\<not> k < ?n"
    with r(2,3) n(1) have "cls_sizes p ! (?n - 1) < sz" by simp
    with n(3) assms(3) show False by simp
  qed
  with r n assms(2-4) show ?thesis
    by (intro exI [of _ k]) (simp add: rs_palloc_id_def linorder_not_less)
qed

lemma palloc_id_in_range:
  assumes "classes_ok p"
  obtains r where "rs_palloc_id p sz = Some r"
    and "r = rs_code_val RS_ERR \<longleftrightarrow> sz = 0"
    and "r = rs_code_val RS_SLAB_OVERFLOW \<longleftrightarrow> sz > p_chunk_size p"
    and "sz \<noteq> 0 \<Longrightarrow> sz \<le> p_chunk_size p \<Longrightarrow> 0 \<le> r \<and> nat r < length (p_slab_class p)"
proof -
  let ?n = "length (p_slab_class p)"
  note n = classes_ok_last [OF assms]
  obtain hit k where r: "palloc_id_loop p sz 0 (p_cur_idx p) = Some (hit, int k)" "k \<le> ?n"
      "\<forall>j<k. cls_sizes p ! j < sz" "hit \<Longrightarrow> k < ?n"
    using palloc_id_loop_top [OF assms, of sz] by metis
  have k: "k < ?n" if "sz \<le> p_chunk_size p"
  proof (rule ccontr)
    assume "\<not> k < ?n"
    with r(2,3) n(1) have "cls_sizes p ! (?n - 1) < sz" by simp
    with n(3) that show False by simp
  qed
  have "p_chunk_size p \<ge> 0" by simp
  show ?thesis
  proof (cases "sz = 0")
    case True
    then show ?thesis by (intro that [of "-1"]) (simp_all add: rs_palloc_id_def)
  next
    case nz: False
    show ?thesis
    proof (cases "sz > p_chunk_size p")
      case True
      with nz show ?thesis by (intro that [of "-10"]) (simp_all add: rs_palloc_id_def)
    next
      case False
      with nz r(1) k n(2) show ?thesis
        by (intro that [of "int k"]) (simp_all add: rs_palloc_id_def linorder_not_less)
    qed
  qed
qed

section \<open>Blocks and weights\<close>

definition class_blocks :: "rs_pool_class_t \<Rightarrow> (addr \<times> nat) list" where
  "class_blocks c =
     (case pc_chunk c of None \<Rightarrow> [] | Some a \<Rightarrow> [(a, unat (pc_free c) * unat (pc_size c))]) @
     map (\<lambda>x. (the x, unat (pc_size c))) (take (unat (pc_used_free c)) (pc_free_chunk c))"

definition blocks_weight :: "(addr \<Rightarrow> nat \<Rightarrow> nat) \<Rightarrow> (addr \<times> nat) list \<Rightarrow> nat" where
  "blocks_weight w bs = sum_list (map (\<lambda>(a, n). w a n) bs)"

definition class_weight :: "(addr \<Rightarrow> nat \<Rightarrow> nat) \<Rightarrow> rs_pool_class_t \<Rightarrow> nat" where
  "class_weight w c = blocks_weight w (class_blocks c)"

definition pool_weight :: "(addr \<Rightarrow> nat \<Rightarrow> nat) \<Rightarrow> rs_pool_t \<Rightarrow> nat" where
  "pool_weight w p = sum_list (map (class_weight w) (p_slab_class p))"

definition cls_size :: "rs_pool_t \<Rightarrow> int \<Rightarrow> nat" where
  "cls_size p idx = unat (pc_size (p_slab_class p ! nat idx))"

definition live_blocks :: "rs_pool_t \<Rightarrow> (addr \<times> int) list \<Rightarrow> (addr \<times> nat) list" where
  "live_blocks p live = map (\<lambda>(a, idx). (a, cls_size p idx)) live"

definition class_ok :: "rs_pool_class_t \<Rightarrow> bool" where
  "class_ok c \<longleftrightarrow>
     (pc_chunk c = None \<longleftrightarrow> pc_free c = 0) \<and> pc_num c \<noteq> 0 \<and> 8 \<le> unat (pc_size c) \<and>
     unat (pc_size c) * unat (pc_num c) < 2 ^ 32 \<and>
     pc_used_free c \<le> pc_total_free c \<and> length (pc_free_chunk c) = unat (pc_total_free c) \<and>
     (\<forall>i < unat (pc_used_free c). pc_free_chunk c ! i \<noteq> None) \<and>
     pc_used_slab c \<le> pc_total_slab c \<and>
     (length (pc_slab c) = unat (pc_total_slab c) \<or> pc_used_slab c = pc_total_slab c)"

definition classes_wf :: "rs_pool_t \<Rightarrow> bool" where
  "classes_wf p \<longleftrightarrow> (\<forall>c \<in> set (p_slab_class p). class_ok c)"

text \<open>What no operation changes: the class table and the arena.\<close>

definition pool_shape :: "rs_pool_t \<Rightarrow> (u32 \<times> u32) list \<times> int \<times> addr \<times> u32 \<times> u32 \<times> int" where
  "pool_shape p =
     (map (\<lambda>c. (pc_size c, pc_num c)) (p_slab_class p), p_cur_idx p, p_start p, p_max_size p,
      p_chunk_size p, p_flag p)"

lemma pool_class_Some:
  "pool_class p idx = Some c \<longleftrightarrow>
     0 \<le> idx \<and> nat idx < length (p_slab_class p) \<and> c = p_slab_class p ! nat idx"
  by (auto simp: pool_class_def)

lemma pool_class_set_class [simp]:
  "pool_class p idx = Some c \<Longrightarrow> pool_class (set_class p idx c') idx = Some c'"
  by (simp add: pool_class_Some set_class_def)

lemma set_class_same: "pool_class p idx = Some c \<Longrightarrow> set_class p idx c = p"
  by (auto simp: pool_class_Some set_class_def)

lemma set_class_fields [simp]:
  "p_cur_idx (set_class p idx c) = p_cur_idx p" "p_max_idx (set_class p idx c) = p_max_idx p"
  "p_start (set_class p idx c) = p_start p" "p_cur (set_class p idx c) = p_cur p"
  "p_max_size (set_class p idx c) = p_max_size p" "p_used_size (set_class p idx c) = p_used_size p"
  "p_free_size (set_class p idx c) = p_free_size p"
  "p_chunk_size (set_class p idx c) = p_chunk_size p" "p_flag (set_class p idx c) = p_flag p"
  by (simp_all add: set_class_def)

lemma pool_shape_set_class:
  "pool_class p idx = Some c \<Longrightarrow> pc_size c' = pc_size c \<Longrightarrow> pc_num c' = pc_num c \<Longrightarrow>
   pool_shape (set_class p idx c') = pool_shape p"
  by (auto simp: pool_shape_def pool_class_Some set_class_def map_update
        intro!: list_update_same_conv [THEN iffD2])

lemma pool_weight_set_class:
  "pool_class p idx = Some c \<Longrightarrow>
   pool_weight w (set_class p idx c') + class_weight w c = pool_weight w p + class_weight w c'"
  by (auto simp: pool_weight_def set_class_def pool_class_Some sum_list_map_update)

lemma classes_wf_set_class:
  "classes_wf p \<Longrightarrow> class_ok c \<Longrightarrow> classes_wf (set_class p idx c)"
  by (auto simp: classes_wf_def set_class_def dest: set_update_subset_insert [THEN subsetD])

lemma classes_wfD: "classes_wf p \<Longrightarrow> pool_class p idx = Some c \<Longrightarrow> class_ok c"
  by (auto simp: classes_wf_def pool_class_Some)

lemma cls_size_shape:
  assumes "pool_shape p' = pool_shape p" and "nat idx < length (p_slab_class p)"
  shows "cls_size p' idx = cls_size p idx"
proof -
  have "map pc_size (p_slab_class p') = map pc_size (p_slab_class p)"
    using arg_cong [OF assms(1), of "\<lambda>x. map fst (fst x)"] by (simp add: pool_shape_def o_def)
  moreover from this have "length (p_slab_class p') = length (p_slab_class p)"
    by (rule map_eq_imp_length_eq)
  ultimately show ?thesis
    using assms(2) by (metis cls_size_def nth_map)
qed

lemma unat_Suc_small: "unat (x :: u32) < 2 ^ 31 \<Longrightarrow> unat (x + 1) = Suc (unat x)"
  by (subst unat_add_lem [THEN iffD1]) simp_all

lemma unat_double: "unat (x :: u32) < 2 ^ 31 \<Longrightarrow> unat (x * 2) = unat x * 2"
  by (subst unat_mult_lem [THEN iffD1]) simp_all

text \<open>What each operation does to its class.\<close>

lemma pfree_result:
  assumes "pool_class p idx = Some c" and "class_ok c" and "unat (pc_used_free c) < 2 ^ 31"
  obtains "rs_pfree os p a idx = Some p" and "\<exists>n. \<not> os_realloc os n"
  | cells tf where "rs_pfree os p a idx = Some (set_class p idx
        (c\<lparr>pc_free_chunk := cells[unat (pc_used_free c) := Some a], pc_total_free := tf,
           pc_used_free := pc_used_free c + 1\<rparr>))"
    and "take (unat (pc_used_free c)) cells = take (unat (pc_used_free c)) (pc_free_chunk c)"
    and "unat (pc_used_free c) < length cells" and "length cells = unat tf"
proof -
  let ?k = "unat (pc_used_free c)"
  define tf where "tf = (if pc_total_free c = 0 then 16 else pc_total_free c * 2)"
  define cells where "cells = realloc_cells (pc_free_chunk c) (unat tf)"
  have idx: "idx \<noteq> - 10" using assms(1) by (auto simp: pool_class_Some)
  have len: "length (pc_free_chunk c) = unat (pc_total_free c)" "?k \<le> unat (pc_total_free c)"
    using assms(2) by (simp_all add: class_ok_def word_le_nat_alt)
  have cells: "length cells = unat tf" "take ?k cells = take ?k (pc_free_chunk c)"
    if "unat (pc_total_free c) < unat tf"
    using that len by (simp_all add: cells_def realloc_cells_def)
  show thesis
  proof (cases "pc_used_free c = pc_total_free c")
    case full: True
    have tf: "unat (pc_total_free c) < unat tf"
      using assms(3) full by (auto simp: tf_def unat_double unat_gt_0)
    have eq: "rs_pfree os p a idx =
       (if os_realloc os (unat tf * 8) then do {
             cells \<leftarrow> mem_write cells ?k [Some a];
             Some (set_class p idx (c\<lparr>pc_free_chunk := cells, pc_total_free := tf,
                                     pc_used_free := pc_used_free c + 1\<rparr>)) }
           else Some p)"
      unfolding rs_pfree_def tf_def cells_def Let_def using assms(1) idx full by simp
    show ?thesis
    proof (cases "os_realloc os (unat tf * 8)")
      case True
      with cells [OF tf] tf len show ?thesis
        by (intro that(2) [where cells = cells and tf = tf]) (simp_all add: eq mem_simps)
    next
      case False
      then show ?thesis by (intro that(1)) (auto simp: eq)
    qed
  next
    case False
    with len have "?k < unat (pc_total_free c)"
      by (simp add: order_less_le word_unat_eq_iff)
    with False assms(1) idx len show ?thesis
      by (intro that(2) [where cells = "pc_free_chunk c" and tf = "pc_total_free c"])
        (simp_all add: rs_pfree_def mem_simps)
  qed
qed

lemma palloc_take_result:
  assumes "pool_class p idx = Some c" and "class_ok c" and "pc_chunk c \<noteq> None \<or> pc_used_free c > 0"
  obtains (free_list) a where "pc_free_chunk c ! unat (pc_used_free c - 1) = Some a"
      and "unat (pc_used_free c) = Suc (unat (pc_used_free c - 1))"
      and "palloc_take p idx = Some (Some a, set_class p idx (c\<lparr>pc_used_free := pc_used_free c - 1\<rparr>))"
  | (fresh) a where "pc_chunk c = Some a" and "pc_used_free c = 0"
      and "unat (pc_free c) = Suc (unat (pc_free c - 1))"
      and "palloc_take p idx = Some (Some a, set_class p idx
        (c\<lparr>pc_free := pc_free c - 1,
           pc_chunk := (if pc_free c - 1 > 0 then Some (a + unat (pc_size c)) else None)\<rparr>))"
proof (cases "pc_used_free c > 0")
  case True
  let ?k = "unat (pc_used_free c - 1)"
  have k: "unat (pc_used_free c) = Suc ?k"
    using True by (simp add: unat_minus_one word_neq_0_conv unat_gt_0)
  with assms(2) have "?k < length (pc_free_chunk c)" "pc_free_chunk c ! ?k \<noteq> None"
    by (simp_all add: class_ok_def word_le_nat_alt)
  with assms(1) True k show ?thesis
    by (auto intro!: free_list simp: palloc_take_def mem_get_def)
next
  case False
  then have z: "pc_used_free c = 0" by (simp add: word_gt_0)
  with assms(3) obtain a where a: "pc_chunk c = Some a" by auto
  moreover have "unat (pc_free c) = Suc (unat (pc_free c - 1))"
    using assms(2) a by (simp add: class_ok_def unat_minus_one word_neq_0_conv unat_gt_0)
  ultimately show ?thesis
    using assms(1) z by (intro fresh [of a]) (simp_all add: palloc_take_def Let_def)
qed

lemma palloc_grow_result:
  assumes "pool_class p idx = Some c" and "class_ok c" and "unat (pc_used_slab c) < 2 ^ 31"
  obtains (refused) slab where
      "rs_palloc_grow os p idx = Some (RS_ERR, set_class p idx (c\<lparr>pc_slab := slab\<rparr>))"
      and "pc_used_slab c = pc_total_slab c"
  | (grown) slab tot where
      "rs_palloc_grow os p idx = Some (RS_OK, set_class p idx (c\<lparr>pc_slab := slab, pc_total_slab := tot\<rparr>))"
      and "length slab = unat tot" and "pc_used_slab c < tot"
proof (cases "pc_used_slab c = pc_total_slab c")
  case True
  define tot where "tot = (if pc_total_slab c = 0 then 16 else pc_total_slab c * 2)"
  have tot: "unat (pc_total_slab c) < unat tot"
    using assms(3) True by (auto simp: tot_def unat_double unat_gt_0)
  have "length (realloc_cells (pc_slab c) (unat tot)) = unat tot"
    by (simp add: realloc_cells_def)
  with True assms(1) tot show ?thesis
    using refused [of "[]"] grown [where tot = tot and slab = "realloc_cells (pc_slab c) (unat tot)"]
    by (cases "os_realloc os (unat tot * 8)")
      (auto simp: rs_palloc_grow_def tot_def [symmetric] word_less_nat_alt)
next
  case False
  then have "length (pc_slab c) = unat (pc_total_slab c)" "pc_used_slab c < pc_total_slab c"
    using assms(2) by (auto simp: class_ok_def order_less_le)
  with False assms(1) show ?thesis
    by (intro grown [where tot = "pc_total_slab c" and slab = "pc_slab c"])
      (simp_all add: rs_palloc_grow_def set_class_same)
qed

lemma pmemalloc_fields:
  assumes "rs_pmemalloc os p len = (r, p')"
  shows "p_slab_class p' = p_slab_class p" and "pool_shape p' = pool_shape p"
    and "p_max_idx p' = p_max_idx p"
  using assms by (auto simp: rs_pmemalloc_def Let_def pool_shape_def split: if_splits option.splits)


text \<open>
  A weight is additive: a block weighs as much as its two parts. The laws of the operations hold
  for every such weight.
\<close>

locale block_weight =
  fixes w :: "addr \<Rightarrow> nat \<Rightarrow> nat"
  assumes weight_split: "w a (m + n) = w a m + w (a + m) n"
begin

lemma weight_0: "w a 0 = 0"
  using weight_split [of a 0 0] by simp

lemma palloc_take_weight:
  assumes "pool_class p idx = Some c" and "class_ok c" and "pc_chunk c \<noteq> None \<or> pc_used_free c > 0"
    and "palloc_take p idx = Some (r, p')"
  shows "\<exists>a. r = Some a \<and> pool_weight w p' + w a (unat (pc_size c)) = pool_weight w p"
  using assms(1-3)
proof (cases rule: palloc_take_result)
  case (free_list a)
  let ?k = "unat (pc_used_free c - 1)"
  let ?c' = "c\<lparr>pc_used_free := pc_used_free c - 1\<rparr>"
  have "?k < length (pc_free_chunk c)"
    using assms(2) free_list(2) by (simp add: class_ok_def word_le_nat_alt)
  then have "class_weight w c = class_weight w ?c' + w a (unat (pc_size c))"
    unfolding class_weight_def class_blocks_def blocks_weight_def
    using free_list by (simp add: take_Suc_conv_app_nth split: option.split)
  with assms(4) free_list(3) pool_weight_set_class [OF assms(1), of w ?c'] show ?thesis by auto
next
  case (fresh a)
  let ?c' = "c\<lparr>pc_free := pc_free c - 1,
       pc_chunk := (if pc_free c - 1 > 0 then Some (a + unat (pc_size c)) else None)\<rparr>"
  have "class_weight w c = class_weight w ?c' + w a (unat (pc_size c))"
    unfolding class_weight_def class_blocks_def blocks_weight_def
    using fresh weight_split [of a "unat (pc_size c)" "unat (pc_free c - 1) * unat (pc_size c)"]
    by (auto simp: weight_0 word_gt_0)
  with assms(4) fresh(4) pool_weight_set_class [OF assms(1), of w ?c'] show ?thesis by auto
qed

lemma pfree_weight:
  assumes "pool_class p idx = Some c" and "class_ok c" and "unat (pc_used_free c) < 2 ^ 31"
    and "rs_pfree os p a idx = Some p'"
  shows "p' = p \<or> pool_weight w p' = pool_weight w p + w a (unat (pc_size c))"
  using assms(1-3)
proof (cases rule: pfree_result [where os = os and a = a])
  case (2 cells tf)
  let ?k = "unat (pc_used_free c)"
  let ?c' = "c\<lparr>pc_free_chunk := cells[?k := Some a], pc_total_free := tf,
      pc_used_free := pc_used_free c + 1\<rparr>"
  have "unat (pc_used_free c + 1) = Suc ?k"
    using assms(2,3) by (simp add: class_ok_def word_le_nat_alt unat_Suc_small)
  then have "class_weight w ?c' = class_weight w c + w a (unat (pc_size c))"
    unfolding class_weight_def class_blocks_def blocks_weight_def
    using 2 by (simp add: take_Suc_conv_app_nth split: option.split)
  with assms(4) 2(1) pool_weight_set_class [OF assms(1), of w ?c'] show ?thesis by simp
qed (use assms(4) in simp)

lemma slab_update_weight:
  assumes "pool_class p idx = Some c"
  shows "pool_weight w (set_class p idx (c\<lparr>pc_slab := slab, pc_total_slab := tot\<rparr>)) = pool_weight w p"
    and "pool_weight w (set_class p idx (c\<lparr>pc_slab := slab\<rparr>)) = pool_weight w p"
  using pool_weight_set_class [OF assms, of w "c\<lparr>pc_slab := slab, pc_total_slab := tot\<rparr>"]
    pool_weight_set_class [OF assms, of w "c\<lparr>pc_slab := slab\<rparr>"]
  by (simp_all add: class_weight_def class_blocks_def cong: option.case_cong)

lemma new_slab_weight:
  assumes "pool_class p idx = Some c" and "pc_chunk c = None" and "pc_used_free c = 0"
    and "c' = c\<lparr>pc_slab := slab, pc_total_slab := tot, pc_chunk := Some t, pc_free := pc_num c,
               pc_used_slab := u\<rparr>"
  shows "pool_weight w (set_class p idx c') =
    pool_weight w p + w t (unat (pc_num c) * unat (pc_size c))"
proof -
  have "class_weight w c = 0" and "class_weight w c' = w t (unat (pc_num c) * unat (pc_size c))"
    using assms(2,3) by (simp_all add: assms(4) class_weight_def class_blocks_def blocks_weight_def)
  with pool_weight_set_class [OF assms(1), of w c'] show ?thesis by simp
qed

end

text \<open>The two weights in use: covering an address, and the number of bytes.\<close>

definition cover :: "addr \<Rightarrow> addr \<Rightarrow> nat \<Rightarrow> nat" where
  "cover x a n = (if a \<le> x \<and> x < a + n then 1 else 0)"

definition byte_count :: "addr \<Rightarrow> nat \<Rightarrow> nat" where
  "byte_count a n = n"

interpretation cover: block_weight "cover x" for x
  by unfold_locales (auto simp: cover_def)

interpretation byte_count: block_weight byte_count
  by unfold_locales (simp add: byte_count_def)

section \<open>The pool invariant\<close>

text \<open>
  \<open>live\<close> is the list of chunks the clients hold, with the class they came from.
  \<open>pool_owned p live x\<close> counts the blocks (fresh, on a free list, or live) that cover address x.
\<close>

definition pool_owned :: "rs_pool_t \<Rightarrow> (addr \<times> int) list \<Rightarrow> addr \<Rightarrow> nat" where
  "pool_owned p live x = pool_weight (cover x) p + blocks_weight (cover x) (live_blocks p live)"

definition pool_bytes :: "rs_pool_t \<Rightarrow> (addr \<times> int) list \<Rightarrow> nat" where
  "pool_bytes p live = pool_weight byte_count p + blocks_weight byte_count (live_blocks p live)"

definition slab_bytes :: "rs_pool_class_t \<Rightarrow> nat" where
  "slab_bytes c = unat (pc_used_slab c) * (unat (pc_size c) * unat (pc_num c))"

definition live_ok :: "rs_pool_t \<Rightarrow> (addr \<times> int) list \<Rightarrow> bool" where
  "live_ok p live \<longleftrightarrow> (\<forall>(a, idx) \<in> set live. 0 \<le> idx \<and> nat idx < length (p_slab_class p))"

definition pool_acct :: "rs_pool_t \<Rightarrow> bool" where
  "pool_acct p \<longleftrightarrow>
     unat (p_used_size p) + unat (p_free_size p) = unat (p_max_size p) \<and>
     sum_list (map slab_bytes (p_slab_class p)) \<le> unat (p_used_size p) \<and>
     (p_flag p = RS_POOL_PREALLOC \<or> p_flag p = RS_POOL_PAGEALLOC) \<and>
     (p_flag p = RS_POOL_PREALLOC \<longrightarrow> p_cur p = p_start p + unat (p_used_size p))"

definition pool_ok :: "rs_pool_t \<Rightarrow> (addr \<times> int) list \<Rightarrow> bool" where
  "pool_ok p live \<longleftrightarrow>
     classes_wf p \<and> live_ok p live \<and> pool_acct p \<and>
     pool_bytes p live \<le> unat (p_used_size p) \<and>
     (\<forall>x. pool_owned p live x \<le> 1) \<and>
     (p_flag p = RS_POOL_PREALLOC \<longrightarrow>
        (\<forall>x. pool_owned p live x \<noteq> 0 \<longrightarrow> p_start p \<le> x \<and> x < p_cur p))"

text \<open>
  What \<^verbatim>\<open>malloc\<close> promises: a block it returns covers no byte that is still in use. Only
  a page-allocating pool asks for it.
\<close>

definition malloc_fresh :: "os_mem \<Rightarrow> rs_pool_t \<Rightarrow> (addr \<times> int) list \<Rightarrow> bool" where
  "malloc_fresh os p live \<longleftrightarrow>
     (p_flag p = RS_POOL_PAGEALLOC \<longrightarrow>
        (\<forall>n a x. os_malloc os n = Some a \<longrightarrow> a \<le> x \<longrightarrow> x < a + n \<longrightarrow> pool_owned p live x = 0))"

lemma live_blocks_shape:
  "pool_shape p' = pool_shape p \<Longrightarrow> live_ok p live \<Longrightarrow> live_blocks p' live = live_blocks p live"
  unfolding live_blocks_def
  by (rule map_cong) (auto simp: live_ok_def intro!: cls_size_shape)

lemma live_ok_shape: "pool_shape p' = pool_shape p \<Longrightarrow> live_ok p' live \<longleftrightarrow> live_ok p live"
proof -
  assume "pool_shape p' = pool_shape p"
  then have "map (\<lambda>c. (pc_size c, pc_num c)) (p_slab_class p') = map (\<lambda>c. (pc_size c, pc_num c)) (p_slab_class p)"
    by (simp add: pool_shape_def)
  then have "length (p_slab_class p') = length (p_slab_class p)"
    by (rule map_eq_imp_length_eq)
  then show ?thesis by (simp add: live_ok_def)
qed

lemma pool_ok_counters:
  assumes "pool_ok p live" and "pool_class p idx = Some c"
  shows "unat (pc_used_free c) < 2 ^ 31" and "unat (pc_used_slab c) < 2 ^ 31"
proof -
  from assms have c: "class_ok c" by (auto simp: pool_ok_def intro: classes_wfD)
  have used: "unat (p_used_size p) < 2 ^ 32"
    using unsigned_less [of "p_used_size p", where ?'a = nat] by simp
  have idx: "nat idx < length (p_slab_class p)" "c = p_slab_class p ! nat idx"
    using assms(2) by (auto simp: pool_class_Some)
  have "length (take (unat (pc_used_free c)) (pc_free_chunk c)) = unat (pc_used_free c)"
    using c by (simp add: class_ok_def word_le_nat_alt)
  then have "unat (pc_used_free c) * unat (pc_size c) \<le> class_weight byte_count c"
    by (simp add: class_weight_def class_blocks_def blocks_weight_def byte_count_def o_def
        sum_list_triv)
  also have "\<dots> \<le> pool_weight byte_count p"
    unfolding pool_weight_def idx(2) by (rule sum_list_ge_nth) (rule idx(1))
  also have "\<dots> < 2 ^ 32"
    using assms(1) used by (simp add: pool_ok_def pool_bytes_def)
  finally have "unat (pc_used_free c) * 8 < 2 ^ 32"
    using c by (meson class_ok_def le_less_trans mult_le_mono2)
  then show "unat (pc_used_free c) < 2 ^ 31" by simp
  have "slab_bytes c \<le> sum_list (map slab_bytes (p_slab_class p))"
    unfolding idx(2) by (rule sum_list_ge_nth) (rule idx(1))
  also have "\<dots> < 2 ^ 32"
    using assms(1) used by (simp add: pool_ok_def pool_acct_def)
  finally have "unat (pc_used_slab c) * (unat (pc_size c) * unat (pc_num c)) < 2 ^ 32"
    by (simp add: slab_bytes_def)
  moreover have "8 * 1 \<le> unat (pc_size c) * unat (pc_num c)"
    using c by (intro mult_le_mono) (auto simp: class_ok_def Suc_le_eq unat_gt_0)
  ultimately have "unat (pc_used_slab c) * 8 < 2 ^ 32"
    by (metis le_less_trans mult_le_mono2 mult.right_neutral)
  then show "unat (pc_used_slab c) < 2 ^ 31" by simp
qed

lemma pool_ok_update:
  assumes ok: "pool_ok p live" and c: "pool_class p idx = Some c" and c': "class_ok c'"
    and same: "pc_size c' = pc_size c" "pc_num c' = pc_num c" "pc_used_slab c' = pc_used_slab c"
    and live': "live_ok p live'"
    and owned: "\<And>x. pool_owned (set_class p idx c') live' x \<le> pool_owned p live x"
    and bytes: "pool_bytes (set_class p idx c') live' \<le> pool_bytes p live"
  shows "pool_ok (set_class p idx c') live'"
proof -
  let ?p' = "set_class p idx c'"
  have shape: "pool_shape ?p' = pool_shape p"
    using c same by (intro pool_shape_set_class)
  have "sum_list (map slab_bytes (p_slab_class ?p')) + slab_bytes c =
      sum_list (map slab_bytes (p_slab_class p)) + slab_bytes c'"
    using c by (auto simp: set_class_def pool_class_Some sum_list_map_update)
  moreover have "slab_bytes c' = slab_bytes c" by (simp add: slab_bytes_def same)
  ultimately have "pool_acct ?p'"
    using ok by (simp add: pool_ok_def pool_acct_def)
  moreover have "pool_owned ?p' live' x \<noteq> 0 \<Longrightarrow> pool_owned p live x \<noteq> 0" for x
    using owned [of x] by simp
  moreover have "pool_owned ?p' live' x \<le> 1" for x
    using owned [of x] ok by (metis le_trans pool_ok_def)
  ultimately show ?thesis
    using ok c' live' live_ok_shape [OF shape] bytes
    by (auto simp: pool_ok_def classes_wf_set_class)
qed

lemma blocks_weight_live_Cons:
  "blocks_weight w (live_blocks p ((a, idx) # live)) =
     w a (cls_size p idx) + blocks_weight w (live_blocks p live)"
  by (simp add: blocks_weight_def live_blocks_def)

lemma blocks_weight_live_remove1:
  "(a, idx) \<in> set live \<Longrightarrow>
   blocks_weight w (live_blocks p live) =
     w a (cls_size p idx) + blocks_weight w (live_blocks p (remove1 (a, idx) live))"
  using sum_list_map_remove1 [of "(a, idx)" live "\<lambda>(a, idx). w a (cls_size p idx)"]
  by (simp add: blocks_weight_def live_blocks_def o_def split_def)

lemma palloc_take_ok:
  assumes ok: "pool_ok p live" and c: "pool_class p idx = Some c"
    and some: "pc_chunk c \<noteq> None \<or> pc_used_free c > 0"
  shows "\<exists>a p'. palloc_take p idx = Some (Some a, p') \<and> pool_ok p' ((a, idx) # live) \<and>
    pool_shape p' = pool_shape p"
proof -
  have cok: "class_ok c" using ok c by (auto simp: pool_ok_def intro: classes_wfD)
  obtain a c' where take: "palloc_take p idx = Some (Some a, set_class p idx c')"
    and c': "class_ok c'" "pc_size c' = pc_size c" "pc_num c' = pc_num c"
      "pc_used_slab c' = pc_used_slab c"
    using c cok some
  proof (cases rule: palloc_take_result)
    case (free_list a)
    let ?c' = "c\<lparr>pc_used_free := pc_used_free c - 1\<rparr>"
    have "class_ok ?c'" using cok free_list(2) by (auto simp: class_ok_def word_le_nat_alt)
    with free_list(3) show ?thesis by (intro that [of a ?c']) simp_all
  next
    case (fresh a)
    let ?c' = "c\<lparr>pc_free := pc_free c - 1,
         pc_chunk := (if pc_free c - 1 > 0 then Some (a + unat (pc_size c)) else None)\<rparr>"
    have "class_ok ?c'" using cok fresh by (auto simp: class_ok_def word_gt_0)
    with fresh(4) show ?thesis by (intro that [of a ?c']) simp_all
  qed
  let ?p' = "set_class p idx c'"
  have shape: "pool_shape ?p' = pool_shape p" using c c' by (intro pool_shape_set_class)
  have live': "live_ok p ((a, idx) # live)"
    using ok c by (auto simp: pool_ok_def live_ok_def pool_class_Some)
  have size: "cls_size p idx = unat (pc_size c)"
    using c by (auto simp: cls_size_def pool_class_Some)
  note blocks = live_blocks_shape [OF shape live'] blocks_weight_live_Cons size
  have "pool_weight (cover x) ?p' + cover x a (unat (pc_size c)) = pool_weight (cover x) p" for x
    using cover.palloc_take_weight [OF c cok some take] by auto
  then have owned: "pool_owned ?p' ((a, idx) # live) x \<le> pool_owned p live x" for x
    by (simp add: pool_owned_def blocks)
  have "pool_weight byte_count ?p' + byte_count a (unat (pc_size c)) = pool_weight byte_count p"
    using byte_count.palloc_take_weight [OF c cok some take] by auto
  then have bytes: "pool_bytes ?p' ((a, idx) # live) \<le> pool_bytes p live"
    by (simp add: pool_bytes_def blocks)
  show ?thesis
    using take shape pool_ok_update [OF ok c c' live' owned bytes] by blast
qed

lemma pfree_ok:
  assumes ok: "pool_ok p live" and held: "(a, idx) \<in> set live"
  shows "\<exists>p'. rs_pfree os p a idx = Some p' \<and> pool_ok p' (remove1 (a, idx) live) \<and>
    pool_shape p' = pool_shape p"
proof -
  let ?live = "remove1 (a, idx) live"
  from ok held obtain c where c: "pool_class p idx = Some c"
    by (auto simp: pool_ok_def live_ok_def pool_class_Some)
  have cok: "class_ok c" using ok c by (auto simp: pool_ok_def intro: classes_wfD)
  note small = pool_ok_counters(1) [OF ok c]
  have live': "live_ok p ?live"
    using ok by (auto simp: pool_ok_def live_ok_def dest: notin_set_remove1 split_list)
  have size: "cls_size p idx = unat (pc_size c)"
    using c by (auto simp: cls_size_def pool_class_Some)
  obtain c' where free: "rs_pfree os p a idx = Some (set_class p idx c')"
    and c': "class_ok c'" "pc_size c' = pc_size c" "pc_num c' = pc_num c"
      "pc_used_slab c' = pc_used_slab c"
    using c cok small
  proof (cases rule: pfree_result [where os = os and a = a])
    case 1
    with c cok show ?thesis by (intro that [of c]) (simp_all add: set_class_same)
  next
    case (2 cells tf)
    let ?k = "unat (pc_used_free c)"
    let ?c' = "c\<lparr>pc_free_chunk := cells[?k := Some a], pc_total_free := tf,
        pc_used_free := pc_used_free c + 1\<rparr>"
    have "cells ! i = pc_free_chunk c ! i" if "i < ?k" for i
      using 2(2) that by (metis nth_take)
    then have "class_ok ?c'"
      using cok 2(3,4) unat_Suc_small [OF small]
      by (auto simp: class_ok_def word_le_nat_alt nth_list_update less_Suc_eq)
    with 2(1) show ?thesis by (intro that [of ?c']) simp_all
  qed
  let ?p' = "set_class p idx c'"
  have shape: "pool_shape ?p' = pool_shape p" using c c' by (intro pool_shape_set_class)
  note blocks = live_blocks_shape [OF shape live'] blocks_weight_live_remove1 [OF held] size
  have owned: "pool_owned ?p' ?live x \<le> pool_owned p live x" for x
    using cover.pfree_weight [OF c cok small free, of x]
    by (auto simp: pool_owned_def blocks)
  have bytes: "pool_bytes ?p' ?live \<le> pool_bytes p live"
    using byte_count.pfree_weight [OF c cok small free]
    by (auto simp: pool_bytes_def blocks)
  show ?thesis
    using free shape pool_ok_update [OF ok c c' live' owned bytes] by blast
qed

lemma palloc_new_refused_ok:
  assumes ok: "pool_ok p live" and c: "pool_class p idx = Some c" and c': "class_ok c'"
    and eq: "c' = c\<lparr>pc_slab := slab, pc_total_slab := tot\<rparr>"
  shows "pool_ok (set_class p idx c') live" and "pool_shape (set_class p idx c') = pool_shape p"
proof -
  show shape: "pool_shape (set_class p idx c') = pool_shape p"
    using c eq by (intro pool_shape_set_class) simp_all
  have live: "live_ok p live" using ok by (simp add: pool_ok_def)
  note same = cover.slab_update_weight(1) [OF c] byte_count.slab_update_weight(1) [OF c]
    live_blocks_shape [OF shape live]
  show "pool_ok (set_class p idx c') live"
    using same by (intro pool_ok_update [OF ok c c' _ _ _ live])
      (simp_all add: eq pool_owned_def pool_bytes_def)
qed

lemma pmemalloc_Some:
  assumes "rs_pmemalloc os p len = (Some t, p')" and "pool_acct p"
  shows "len \<le> p_free_size p" and "unat (p_free_size p') = unat (p_free_size p) - unat len"
    and "unat (p_used_size p') = unat (p_used_size p) + unat len"
    and "p_flag p = RS_POOL_PREALLOC \<Longrightarrow> t = p_cur p \<and> p_cur p' = p_cur p + unat len"
    and "p_flag p = RS_POOL_PAGEALLOC \<Longrightarrow> os_malloc os (unat len) = Some t"
proof -
  show le: "len \<le> p_free_size p"
    using assms(1) by (auto simp: rs_pmemalloc_def split: if_splits)
  have "p_free_size p' = p_free_size p - len" "p_used_size p' = p_used_size p + len"
    using assms(1) by (auto simp: rs_pmemalloc_def Let_def split: if_splits option.splits)
  moreover have "unat (p_used_size p) + unat len < 2 ^ 32"
    using assms(2) le unsigned_less [of "p_max_size p", where ?'a = nat]
    by (simp add: pool_acct_def word_le_nat_alt)
  ultimately show "unat (p_free_size p') = unat (p_free_size p) - unat len"
    and "unat (p_used_size p') = unat (p_used_size p) + unat len"
    using le by (simp_all add: unat_sub word_le_nat_alt unat_add_lem [THEN iffD1])
qed (use assms(1) in \<open>auto simp: rs_pmemalloc_def Let_def RS_POOL_PREALLOC_def RS_POOL_PAGEALLOC_def
      split: if_splits option.splits\<close>)

lemma new_slab_weight_step:
  assumes "block_weight w" and c: "pool_class p idx = Some c"
    and none: "pc_chunk c = None" "pc_used_free c = 0"
    and mem: "rs_pmemalloc os p (pc_size c * pc_num c) = (Some t, p2)"
    and eq: "c2 = c\<lparr>pc_chunk := Some t, pc_free := pc_num c, pc_slab := slab,
                     pc_used_slab := pc_used_slab c + 1\<rparr>"
  shows "pool_weight w (set_class p2 idx c2) =
    pool_weight w p + w t (unat (pc_num c) * unat (pc_size c))"
proof -
  have c': "pool_class p2 idx = Some c"
    using c pmemalloc_fields(1) [OF mem] unfolding pool_class_Some by simp
  have "pool_weight w (set_class p2 idx c2) =
      pool_weight w p2 + w t (unat (pc_num c) * unat (pc_size c))"
    using block_weight.new_slab_weight [OF assms(1) c' none, where c' = c2 and t = t and
        slab = slab and tot = "pc_total_slab c" and u = "pc_used_slab c + 1"]
    by (simp add: eq)
  with pmemalloc_fields(1) [OF mem] show ?thesis by (simp add: pool_weight_def)
qed

lemma class_bytes: "class_ok c \<Longrightarrow> unat (pc_size c * pc_num c) = unat (pc_size c) * unat (pc_num c)"
  by (subst unat_mult_lem [THEN iffD1]) (simp_all add: class_ok_def)

lemma new_slab_acct:
  assumes acct: "pool_acct p" and c: "pool_class p idx = Some c" "class_ok c"
    and small: "unat (pc_used_slab c) < 2 ^ 31"
    and mem: "rs_pmemalloc os p (pc_size c * pc_num c) = (Some t, p2)"
    and eq: "c2 = c\<lparr>pc_chunk := Some t, pc_free := pc_num c, pc_slab := slab,
                     pc_used_slab := pc_used_slab c + 1\<rparr>"
  shows "pool_acct (set_class p2 idx c2)" and "p_flag p2 = p_flag p" and "p_start p2 = p_start p"
proof -
  note m = pmemalloc_Some [OF mem acct]
  have c': "pool_class p2 idx = Some c"
    using c(1) pmemalloc_fields(1) [OF mem] unfolding pool_class_Some by simp
  have "sum_list (map slab_bytes (p_slab_class (set_class p2 idx c2))) + slab_bytes c =
      sum_list (map slab_bytes (p_slab_class p2)) + slab_bytes c2"
    using c' unfolding pool_class_Some by (simp add: set_class_def sum_list_map_update)
  moreover have "slab_bytes c2 = slab_bytes c + unat (pc_size c * pc_num c)"
    using unat_Suc_small [OF small] class_bytes [OF c(2)] by (simp add: slab_bytes_def eq)
  ultimately have "sum_list (map slab_bytes (p_slab_class (set_class p2 idx c2))) =
      sum_list (map slab_bytes (p_slab_class p)) + unat (pc_size c * pc_num c)"
    using pmemalloc_fields(1) [OF mem] by simp
  moreover show flags: "p_flag p2 = p_flag p" "p_start p2 = p_start p"
    using mem by (auto simp: rs_pmemalloc_def Let_def split: if_splits option.splits)
  moreover have "p_max_size p2 = p_max_size p"
    using mem by (auto simp: rs_pmemalloc_def Let_def split: if_splits option.splits)
  ultimately show "pool_acct (set_class p2 idx c2)"
    using acct m by (auto simp: pool_acct_def word_le_nat_alt)
qed

lemma new_slab_ok:
  assumes ok: "pool_ok p live" and c: "pool_class p idx = Some c"
    and none: "pc_chunk c = None" "pc_used_free c = 0" and fresh: "malloc_fresh os p live"
    and mem: "rs_pmemalloc os p (pc_size c * pc_num c) = (Some t, p2)"
    and eq: "c2 = c\<lparr>pc_chunk := Some t, pc_free := pc_num c, pc_slab := slab,
                     pc_used_slab := pc_used_slab c + 1\<rparr>"
    and c2: "class_ok c2"
  shows "pool_ok (set_class p2 idx c2) live" and "pool_shape (set_class p2 idx c2) = pool_shape p"
proof -
  let ?p' = "set_class p2 idx c2"
  define len where "len = unat (pc_size c * pc_num c)"
  have cok: "class_ok c" using ok c by (auto simp: pool_ok_def intro: classes_wfD)
  have live: "live_ok p live" and acct: "pool_acct p" using ok by (simp_all add: pool_ok_def)
  note m = pmemalloc_Some [OF mem acct]
    and flags = new_slab_acct [OF acct c cok pool_ok_counters(2) [OF ok c] mem eq]
  have c': "pool_class p2 idx = Some c"
    using c pmemalloc_fields(1) [OF mem] unfolding pool_class_Some by simp
  show shape: "pool_shape ?p' = pool_shape p"
    using pool_shape_set_class [OF c', of c2] pmemalloc_fields(2) [OF mem] by (simp add: eq)
  have len: "unat (pc_num c) * unat (pc_size c) = len"
    unfolding len_def class_bytes [OF cok] by (rule mult.commute)
  note blocks = live_blocks_shape [OF shape live]
  have owned: "pool_owned ?p' live x = pool_owned p live x + cover x t len" for x
    using new_slab_weight_step [OF cover.block_weight_axioms c none mem eq, of x] blocks len
    by (simp add: pool_owned_def)
  have bytes: "pool_bytes ?p' live = pool_bytes p live + len"
    using new_slab_weight_step [OF byte_count.block_weight_axioms c none mem eq] blocks len
    by (simp add: pool_bytes_def byte_count_def)
  have new_block: "pool_owned p live x = 0" if "cover x t len \<noteq> 0" for x
    using that ok fresh m(4,5) acct len_def
    by (auto simp: pool_ok_def pool_acct_def malloc_fresh_def cover_def split: if_splits)
  have "pool_owned ?p' live x \<le> 1" for x
    using ok owned [of x] new_block [of x] by (cases "cover x t len = 0")
      (auto simp: pool_ok_def cover_def)
  moreover have "p_start p \<le> x \<and> x < p_cur p2"
    if pre: "p_flag p = RS_POOL_PREALLOC" and "pool_owned ?p' live x \<noteq> 0" for x
  proof (cases "cover x t len = 0")
    case True
    with that owned [of x] ok have "p_start p \<le> x \<and> x < p_cur p" by (simp add: pool_ok_def)
    then show ?thesis using m(4) [OF pre] by simp
  next
    case False
    then have "p_cur p \<le> x \<and> x < p_cur p2"
      using m(4) [OF pre] len_def by (auto simp: cover_def split: if_splits)
    then show ?thesis using acct pre by (simp add: pool_acct_def)
  qed
  moreover have "classes_wf p2"
    using ok pmemalloc_fields(1) [OF mem] by (simp add: pool_ok_def classes_wf_def)
  moreover have "pool_bytes p live \<le> unat (p_used_size p)" using ok by (simp add: pool_ok_def)
  ultimately show "pool_ok ?p' live"
    using flags live live_ok_shape [OF shape] bytes m(3) len_def
    by (simp add: pool_ok_def classes_wf_set_class c2)
qed

lemma palloc_new_ok:
  assumes ok: "pool_ok p live" and c: "pool_class p idx = Some c"
    and none: "pc_chunk c = None" "pc_used_free c = 0" and fresh: "malloc_fresh os p live"
  shows "\<exists>r p'. rs_palloc_new os p idx = Some (r, p') \<and> pool_ok p' live \<and>
    pool_shape p' = pool_shape p \<and>
    (r = RS_OK \<longrightarrow> (\<exists>c'. pool_class p' idx = Some c' \<and> pc_chunk c' \<noteq> None))"
proof -
  have cok: "class_ok c" using ok c by (auto simp: pool_ok_def intro: classes_wfD)
  show ?thesis
    using c cok pool_ok_counters(2) [OF ok c]
  proof (cases rule: palloc_grow_result [where os = os])
    case (refused slab)
    have eq: "c\<lparr>pc_slab := slab\<rparr> = c\<lparr>pc_slab := slab, pc_total_slab := pc_total_slab c\<rparr>" by simp
    have "class_ok (c\<lparr>pc_slab := slab\<rparr>)" using cok refused(2) by (simp add: class_ok_def)
    then show ?thesis
      using refused(1) c palloc_new_refused_ok [OF ok c _ eq] by (simp add: rs_palloc_new_def)
  next
    case (grown slab tot)
    define c1 where "c1 = c\<lparr>pc_slab := slab, pc_total_slab := tot\<rparr>"
    let ?p1 = "set_class p idx c1"
    have c1: "class_ok c1" using cok grown(2,3) by (simp add: class_ok_def c1_def)
    have ok1: "pool_ok ?p1 live" and shape1: "pool_shape ?p1 = pool_shape p"
      using palloc_new_refused_ok [OF ok c c1 c1_def] by auto
    have cls1: "pool_class ?p1 idx = Some c1" using c by simp
    obtain r p2 where mem: "rs_pmemalloc os ?p1 (pc_size c1 * pc_num c1) = (r, p2)" by fastforce
    show ?thesis
    proof (cases r)
      case None
      have "p2 = ?p1"
        using mem None ok1 by (auto simp: rs_pmemalloc_def Let_def pool_ok_def pool_acct_def
            split: if_splits option.splits)
      with grown(1) c ok1 shape1 mem None show ?thesis
        by (simp add: rs_palloc_new_def c1_def)
    next
      case (Some t)
      define c2 where "c2 = c1\<lparr>pc_chunk := Some t, pc_free := pc_num c1,
          pc_slab := slab[unat (pc_used_slab c) := Some t], pc_used_slab := pc_used_slab c1 + 1\<rparr>"
      have cls2: "pool_class p2 idx = Some c1"
        using cls1 pmemalloc_fields(1) [OF mem] unfolding pool_class_Some by simp
      have c2: "class_ok c2"
        using c1 cok grown(2,3) unat_Suc_small [OF pool_ok_counters(2) [OF ok c]]
        unfolding class_ok_def c2_def c1_def by (auto simp: word_le_nat_alt word_less_nat_alt)
      have "malloc_fresh os ?p1 live"
        using fresh cover.slab_update_weight(1) [OF c] live_blocks_shape [OF shape1] ok
        unfolding malloc_fresh_def pool_owned_def c1_def by (simp add: pool_ok_def)
      then have "pool_ok (set_class p2 idx c2) live" "pool_shape (set_class p2 idx c2) = pool_shape p"
        using new_slab_ok [OF ok1 cls1 _ _ _ mem [unfolded Some] c2_def c2] none shape1
        by (simp_all add: c1_def)
      moreover have "rs_palloc_new os p idx = Some (RS_OK, set_class p2 idx c2)"
        using grown c mem Some cls2
        by (simp add: rs_palloc_new_def c1_def c2_def mem_simps word_less_nat_alt)
      moreover have "pool_class (set_class p2 idx c2) idx = Some c2" "pc_chunk c2 \<noteq> None"
        using cls2 by (simp_all add: c2_def)
      ultimately show ?thesis by blast
    qed
  qed
qed

text \<open>An allocation succeeds or answers NULL; it never leaves the model, and keeps the invariant.\<close>

lemma palloc_ok:
  assumes ok: "pool_ok p live" and idx: "0 \<le> idx" "nat idx < length (p_slab_class p)"
    and fresh: "malloc_fresh os p live"
  shows "\<exists>r p'. rs_palloc os p sz idx = Some (r, p') \<and> pool_shape p' = pool_shape p \<and>
    (case r of None \<Rightarrow> pool_ok p' live | Some a \<Rightarrow> pool_ok p' ((a, idx) # live))"
proof -
  obtain c where c: "pool_class p idx = Some c" using idx by (auto simp: pool_class_Some)
  have unf: "rs_palloc os p sz idx =
     (if pc_chunk c \<noteq> None \<or> pc_used_free c > 0 then palloc_take p idx
      else do { (r, p1) \<leftarrow> rs_palloc_new os p idx;
                if r = RS_OK then palloc_take p1 idx else Some (None, p1) })"
    using c idx by (simp add: rs_palloc_def)
  show ?thesis
  proof (cases "pc_chunk c \<noteq> None \<or> pc_used_free c > 0")
    case True
    with palloc_take_ok [OF ok c True] show ?thesis unfolding unf by fastforce
  next
    case False
    then have none: "pc_chunk c = None" "pc_used_free c = 0" by (simp_all add: word_gt_0)
    obtain r p1 where new: "rs_palloc_new os p idx = Some (r, p1)" "pool_ok p1 live"
        "pool_shape p1 = pool_shape p"
        "r = RS_OK \<Longrightarrow> \<exists>c'. pool_class p1 idx = Some c' \<and> pc_chunk c' \<noteq> None"
      using palloc_new_ok [OF ok c none fresh] by blast
    show ?thesis
    proof (cases "r = RS_OK")
      case True
      obtain c' where c': "pool_class p1 idx = Some c'" "pc_chunk c' \<noteq> None"
        using new(4) [OF True] by blast
      with palloc_take_ok [OF new(2) c'(1)] obtain a p' where
        "palloc_take p1 idx = Some (Some a, p')" "pool_ok p' ((a, idx) # live)"
        "pool_shape p' = pool_shape p1" by blast
      with False True new show ?thesis unfolding unf by simp
    qed (use False new in \<open>simp add: unf\<close>)
  qed
qed

section \<open>Creation\<close>

lemma create_classes_ok:
  assumes grow: "\<And>s. 0 < s \<Longrightarrow> s < chunk \<Longrightarrow> s < rs_align (grow s)"
    and "s \<noteq> 0" and "8 dvd unat s"
  shows "\<exists>cs. create_classes grow chunk n s = Some cs \<and> sorted_wrt (<) (map pc_size cs) \<and>
    length cs \<le> n \<and>
    (\<forall>c \<in> set cs. s \<le> pc_size c \<and> pc_size c < chunk \<and> 8 dvd unat (pc_size c) \<and>
       c = rs_pool_class_t_init\<lparr>pc_size := pc_size c, pc_num := chunk div pc_size c\<rparr>)"
  using assms(2,3)
proof (induction n arbitrary: s)
  case (Suc n)
  show ?case
  proof (cases "s < chunk")
    case True
    have next_s: "s < rs_align (grow s)" using grow True Suc.prems by (simp add: word_neq_0_conv)
    then have "rs_align (grow s) \<noteq> 0" "8 dvd unat (rs_align (grow s))"
      by (auto simp: unat_rs_align dvd_mod)
    from Suc.IH [OF this] obtain cs where cs: "create_classes grow chunk n (rs_align (grow s)) = Some cs"
      "sorted_wrt (<) (map pc_size cs)" "length cs \<le> n"
      "\<forall>c \<in> set cs. rs_align (grow s) \<le> pc_size c \<and> pc_size c < chunk \<and> 8 dvd unat (pc_size c) \<and>
       c = rs_pool_class_t_init\<lparr>pc_size := pc_size c, pc_num := chunk div pc_size c\<rparr>"
      by auto
    have "\<forall>c \<in> set cs. s < pc_size c" using cs(4) next_s by (metis less_le_trans)
    with cs True Suc.prems show ?thesis
      by (auto intro!: exI [of _ "rs_pool_class_t_init\<lparr>pc_size := s, pc_num := chunk div s\<rparr> # cs"]
          intro: less_imp_le)
  qed simp
qed simp

lemma fresh_class_ok:
  assumes "8 dvd unat s" and "s \<noteq> 0" and "s \<le> chunk"
  shows "class_ok (rs_pool_class_t_init\<lparr>pc_size := s, pc_num := chunk div s\<rparr>)"
proof -
  have s: "8 \<le> unat s" using assms(1,2) by (auto simp: unat_gt_0 dest: dvd_imp_le)
  have "unat (chunk div s) = unat chunk div unat s" by (simp add: unat_div)
  moreover have "unat s \<le> unat chunk" using assms(3) by (simp add: word_le_nat_alt)
  moreover from this s have "0 < unat chunk div unat s" by (simp add: div_greater_zero_iff)
  moreover have "unat s * (unat chunk div unat s) < 2 ^ 32"
    using unsigned_less [of chunk, where ?'a = nat]
    by (intro le_less_trans [OF times_div_less_eq_dividend]) simp
  ultimately show ?thesis using s
    by (auto simp: class_ok_def rs_pool_class_t_init_def unat_gt_0 word_le_nat_alt)
qed


definition pool_config_ok :: "(u32 \<Rightarrow> u32) \<Rightarrow> u32 \<Rightarrow> u32 \<Rightarrow> bool" where
  "pool_config_ok grow init_size chunk_size \<longleftrightarrow>
     rs_align init_size \<noteq> 0 \<and> 8 \<le> unat chunk_size \<and>
     (\<forall>s. 0 < s \<longrightarrow> s < chunk_size \<longrightarrow> s < rs_align (grow s))"

lemma fresh_class_fields:
  "c = rs_pool_class_t_init\<lparr>pc_size := s, pc_num := n\<rparr> \<Longrightarrow>
   pc_chunk c = None \<and> pc_used_free c = 0 \<and> pc_used_slab c = 0"
  by (simp add: rs_pool_class_t_init_def)

lemma pool_weight_0:
  assumes "\<And>c. c \<in> set (p_slab_class p) \<Longrightarrow> pc_chunk c = None \<and> pc_used_free c = 0"
  shows "pool_weight w p = 0"
  using assms by (auto simp: pool_weight_def class_weight_def class_blocks_def blocks_weight_def
      cong: option.case_cong)

lemma create_pool_ok:
  assumes "pool_config_ok grow init_size chunk_size"
    and "rs_create_pool os init_size mem_size chunk_size max_idx grow flag = Some (Some p)"
  shows "classes_ok p" and "pool_ok p []" and "p_chunk_size p = chunk_size" and "p_flag p = flag"
proof -
  have "8 dvd unat (rs_align init_size)" by (simp add: unat_rs_align dvd_mod)
  then obtain cs where cs:
    "create_classes grow chunk_size (nat (sint max_idx)) (rs_align init_size) = Some cs"
    "sorted_wrt (<) (map pc_size cs)"
    "\<forall>c \<in> set cs. rs_align init_size \<le> pc_size c \<and> pc_size c < chunk_size \<and> 8 dvd unat (pc_size c) \<and>
       c = rs_pool_class_t_init\<lparr>pc_size := pc_size c, pc_num := chunk_size div pc_size c\<rparr>"
    using create_classes_ok [of chunk_size grow "rs_align init_size" "nat (sint max_idx)"] assms(1)
    by (auto simp: pool_config_ok_def)
  let ?l = "rs_pool_class_t_init\<lparr>pc_size := chunk_size, pc_num := 1\<rparr>"
  obtain base where flag: "flag = RS_POOL_PREALLOC \<or> flag = RS_POOL_PAGEALLOC"
    and p: "p = \<lparr>p_slab_class = cs @ [?l], p_cur_idx = int (length cs), p_max_idx = sint max_idx,
       p_start = base, p_cur = base,
       p_max_size = rs_align mem_size, p_used_size = 0, p_free_size = rs_align mem_size,
       p_chunk_size = chunk_size, p_flag = flag\<rparr>"
    using assms(2) cs(1) by (auto simp: rs_create_pool_def Let_def split: if_splits option.splits)
  show "classes_ok p" using cs by (auto simp: classes_ok_def cls_sizes_def p sorted_wrt_append)
  have "class_ok c" if c: "c \<in> set cs" for c
  proof -
    from c cs(3) have "c = rs_pool_class_t_init\<lparr>pc_size := pc_size c, pc_num := chunk_size div pc_size c\<rparr>"
      "8 dvd unat (pc_size c)" "pc_size c < chunk_size" "rs_align init_size \<le> pc_size c" by auto
    moreover have "pc_size c \<noteq> 0" using calculation(4) assms(1) by (auto simp: pool_config_ok_def)
    ultimately show ?thesis using fresh_class_ok [of "pc_size c" chunk_size] by simp
  qed
  moreover have "class_ok ?l"
    using assms(1) unsigned_less [of chunk_size, where ?'a = nat]
    by (auto simp: class_ok_def rs_pool_class_t_init_def pool_config_ok_def)
  ultimately have wf: "classes_wf p" by (auto simp: classes_wf_def p)
  have init: "pc_chunk c = None \<and> pc_used_free c = 0 \<and> pc_used_slab c = 0"
    if "c \<in> set (p_slab_class p)" for c
  proof (cases "c \<in> set cs")
    case True
    with cs(3) have "c = rs_pool_class_t_init\<lparr>pc_size := pc_size c, pc_num := chunk_size div pc_size c\<rparr>"
      by blast
    then show ?thesis by (rule fresh_class_fields)
  qed (use that in \<open>auto simp: p rs_pool_class_t_init_def\<close>)
  have w: "pool_weight w p = 0" for w by (rule pool_weight_0) (use init in blast)
  have "sum_list (map slab_bytes (p_slab_class p)) = 0"
    using init by (auto simp: slab_bytes_def)
  then have "pool_acct p" using flag by (auto simp: pool_acct_def p)
  with wf w show "pool_ok p []"
    by (simp add: pool_ok_def live_ok_def pool_bytes_def pool_owned_def live_blocks_def
        blocks_weight_def)
  show "p_chunk_size p = chunk_size" "p_flag p = flag" by (simp_all add: p)
qed

text \<open>With such a configuration creation cannot leave the model.\<close>

lemma create_pool_defined:
  assumes "pool_config_ok grow init_size chunk_size"
  shows "rs_create_pool os init_size mem_size chunk_size max_idx grow flag \<noteq> None"
proof -
  have "8 dvd unat (rs_align init_size)" by (simp add: unat_rs_align dvd_mod)
  then obtain cs where
    "create_classes grow chunk_size (nat (sint max_idx)) (rs_align init_size) = Some cs"
    using create_classes_ok [of chunk_size grow "rs_align init_size" "nat (sint max_idx)"] assms
    by (auto simp: pool_config_ok_def)
  then show ?thesis by (auto simp: rs_create_pool_def Let_def split: option.split)
qed

section \<open>Runs of the pool\<close>

text \<open>
  Any sequence of allocations and releases by clients that release only what they hold; the
  operating system may refuse any request.
\<close>

inductive pool_run :: "rs_pool_t \<Rightarrow> rs_pool_t \<Rightarrow> (addr \<times> int) list \<Rightarrow> bool" for p0 where
  start: "pool_run p0 p0 []"
| alloc: "pool_run p0 p live \<Longrightarrow> 0 \<le> idx \<Longrightarrow> nat idx < length (p_slab_class p) \<Longrightarrow>
    malloc_fresh os p live \<Longrightarrow> rs_palloc os p sz idx = Some (Some a, p') \<Longrightarrow>
    pool_run p0 p' ((a, idx) # live)"
| alloc_null: "pool_run p0 p live \<Longrightarrow> 0 \<le> idx \<Longrightarrow> nat idx < length (p_slab_class p) \<Longrightarrow>
    malloc_fresh os p live \<Longrightarrow> rs_palloc os p sz idx = Some (None, p') \<Longrightarrow>
    pool_run p0 p' live"
| free: "pool_run p0 p live \<Longrightarrow> (a, idx) \<in> set live \<Longrightarrow> rs_pfree os p a idx = Some p' \<Longrightarrow>
    pool_run p0 p' (remove1 (a, idx) live)"

lemma pool_run_ok: "pool_run p0 p live \<Longrightarrow> pool_ok p0 [] \<Longrightarrow> pool_ok p live \<and> pool_shape p = pool_shape p0"
proof (induction rule: pool_run.induct)
  case (alloc p live idx os sz a p')
  then show ?case using palloc_ok [of p live idx os sz] by auto
next
  case (alloc_null p live idx os sz p')
  then show ?case using palloc_ok [of p live idx os sz] by auto
next
  case (free p live a idx os p')
  then show ?case using pfree_ok [of p live a idx os] by auto
qed simp

lemma cover_two_live:
  assumes "i < j" and "j < length live"
  shows "cover x (fst (live ! i)) (cls_size p (snd (live ! i))) +
      cover x (fst (live ! j)) (cls_size p (snd (live ! j))) \<le> pool_owned p live x"
proof -
  let ?f = "\<lambda>(a, idx). cover x a (cls_size p idx)"
  have "?f (live ! i) \<le> sum_list (map ?f (take j live))"
    using sum_list_ge_nth [of i "take j live" ?f] assms by simp
  moreover have "sum_list (map ?f live) =
      sum_list (map ?f (take j live)) + ?f (live ! j) + sum_list (map ?f (drop (Suc j) live))"
    using assms(2) by (subst id_take_nth_drop [of j live]) simp_all
  ultimately have "?f (live ! i) + ?f (live ! j) \<le> sum_list (map ?f live)" by simp
  then show ?thesis
    by (simp add: pool_owned_def blocks_weight_def live_blocks_def o_def split_def)
qed

lemma pool_ok_disjoint:
  assumes "pool_ok p live" and "i < j" and "j < length live"
  shows "{fst (live ! i) ..< fst (live ! i) + cls_size p (snd (live ! i))} \<inter>
         {fst (live ! j) ..< fst (live ! j) + cls_size p (snd (live ! j))} = {}"
proof -
  have "\<not> (x \<in> {fst (live ! i) ..< fst (live ! i) + cls_size p (snd (live ! i))} \<and>
           x \<in> {fst (live ! j) ..< fst (live ! j) + cls_size p (snd (live ! j))})" for x
  proof -
    have "pool_owned p live x \<le> 1" using assms(1) by (simp add: pool_ok_def)
    with cover_two_live [OF assms(2,3), of x p] show ?thesis by (auto simp: cover_def)
  qed
  then show ?thesis by blast
qed

lemma pool_ok_arena:
  assumes ok: "pool_ok p live" and held: "(a, idx) \<in> set live" and flag: "p_flag p = RS_POOL_PREALLOC"
  shows "p_start p \<le> a \<and> a + cls_size p idx \<le> p_start p + unat (p_max_size p)"
proof -
  have acct: "pool_acct p" and live: "live_ok p live" and wf: "classes_wf p"
    using ok by (simp_all add: pool_ok_def)
  obtain c where c: "pool_class p idx = Some c"
    using live held by (auto simp: live_ok_def pool_class_Some)
  have "8 \<le> unat (pc_size c)" using classes_wfD [OF wf c] by (simp add: class_ok_def)
  then have pos: "0 < cls_size p idx" using c by (auto simp: cls_size_def pool_class_Some)
  have own: "pool_owned p live x \<noteq> 0" if "a \<le> x" "x < a + cls_size p idx" for x
    using that blocks_weight_live_remove1 [OF held, of "cover x" p]
    by (simp add: pool_owned_def cover_def)
  have rng: "p_start p \<le> x \<and> x < p_cur p" if "a \<le> x" "x < a + cls_size p idx" for x
    using ok own [OF that] flag by (simp add: pool_ok_def)
  have "p_start p \<le> a" using rng [of a] pos by simp
  moreover have "a + cls_size p idx - 1 < p_cur p"
    using rng [of "a + cls_size p idx - 1"] pos by auto
  ultimately show ?thesis using acct flag by (auto simp: pool_acct_def)
qed

section \<open>Destruction\<close>

text \<open>
  The slabs \<^verbatim>\<open>rs_destroy_pool\<close> hands to \<^verbatim>\<open>free\<close>, in order; a cell that was never
  written is an indeterminate pointer. The index \<^verbatim>\<open>j\<close> is a signed 32-bit integer.
\<close>

definition class_slabs :: "rs_pool_class_t \<Rightarrow> addr list option" where
  "class_slabs c =
     (if pc_slab c = [] then Some []
      else do { cells \<leftarrow> mem_read (pc_slab c) 0 (nat (sint (pc_used_slab c))); those cells })"

definition rs_destroy_pool :: "rs_pool_t \<Rightarrow> addr list option" where
  "rs_destroy_pool p =
     (if p_flag p = RS_POOL_PAGEALLOC
      then map_option concat (those (map class_slabs (take (nat (p_cur_idx p + 1)) (p_slab_class p))))
      else Some [])"

section \<open>Properties\<close>

definition chunk_range :: "rs_pool_t \<Rightarrow> addr \<times> int \<Rightarrow> addr set" where
  "chunk_range p = (\<lambda>(a, idx). {a ..< a + cls_size p idx})"

text \<open>The pool of the configuration: 10 MB, pages of 4096 bytes, factor 1.5.\<close>

definition grow_half :: "u32 \<Rightarrow> u32" where
  "grow_half s = of_nat (unat s * 3 div 2)"

lemma three_halves_aligned:
  fixes n :: nat
  assumes "0 < n" and "n < 4096"
  shows "n < (n * 3 div 2 + 7) div 8 * 8" and "(n * 3 div 2 + 7) div 8 * 8 < 4294967296"
    and "n * 3 div 2 < 4294967296"
proof -
  define h where "h = n * 3 div 2"
  define q where "q = (h + 7) div 8"
  have h: "2 * h \<le> 3 * n" "3 * n \<le> 2 * h + 1" by (simp_all add: h_def)
  have q: "8 * q \<le> h + 7" "h \<le> 8 * q" by (simp_all add: q_def)
  have "n < q * 8"
  proof (cases "n = 1")
    case True
    with h q show ?thesis by (cases q) auto
  next
    case False
    with assms h q show ?thesis by linarith
  qed
  then show "n < (n * 3 div 2 + 7) div 8 * 8" by (simp add: h_def q_def)
  have "q * 8 < 4294967296" using h q assms by linarith
  then show "(n * 3 div 2 + 7) div 8 * 8 < 4294967296" by (simp add: h_def q_def)
  show "n * 3 div 2 < 4294967296" using h assms by (simp add: h_def)
qed

lemma grow_half_config: "pool_config_ok grow_half 200 4096"
proof -
  have "s < rs_align (grow_half s)" if "0 < s" "s < 4096" for s :: u32
  proof -
    have "0 < unat s" "unat s < 4096" using that by (simp_all add: unat_gt_0 word_gt_0 word_less_nat_alt)
    from three_halves_aligned [OF this] show ?thesis
      by (simp add: word_less_nat_alt unat_rs_align grow_half_def unat_of_nat)
  qed
  then show ?thesis by (simp add: pool_config_ok_def rs_align_def)
qed

definition os_grant :: "addr \<Rightarrow> os_mem" where
  "os_grant a = \<lparr>os_malloc = (\<lambda>_. Some a), os_realloc = (\<lambda>_. True)\<rparr>"

definition conf_classes :: "rs_pool_class_t list" where
  "conf_classes = map (\<lambda>(s, n). rs_pool_class_t_init\<lparr>pc_size := s, pc_num := n\<rparr>)
     [(200, 20), (304, 13), (456, 8), (688, 5), (1032, 3), (1552, 2), (2328, 1), (3496, 1), (4096, 1)]"

definition conf_pool :: "int \<Rightarrow> rs_pool_t" where
  "conf_pool flag =
     \<lparr>p_slab_class = conf_classes, p_cur_idx = 8, p_max_idx = 200, p_start = 13920, p_cur = 13920,
      p_max_size = 10485760, p_used_size = 0, p_free_size = 10485760, p_chunk_size = 4096,
      p_flag = flag\<rparr>"

definition conf_pool2 :: rs_pool_t where
  "conf_pool2 =
     snd (the (rs_palloc (os_grant 7)
       (snd (the (rs_palloc (os_grant 7) (conf_pool RS_POOL_PREALLOC) 300 1))) 300 1))"

lemma conf_create_classes: "create_classes grow_half 4096 200 200 =
  Some (map (\<lambda>(s, n). rs_pool_class_t_init\<lparr>pc_size := s, pc_num := n\<rparr>)
     [(200, 20), (304, 13), (456, 8), (688, 5), (1032, 3), (1552, 2), (2328, 1), (3496, 1)])"
  by code_simp

lemma conf_pool_created:
  assumes "flag = RS_POOL_PREALLOC \<or> flag = RS_POOL_PAGEALLOC"
  shows "rs_create_pool (os_grant 1000) 200 (10 * 1024 * 1024) 4096 RS_POOL_CLASS_IDX grow_half
     flag = Some (Some (conf_pool flag))"
proof -
  have "rs_align 200 = 200" "rs_align (10 * 1024 * 1024) = 10485760"
    "unat sizeof_rs_pool_t = 56" "unat (sizeof_rs_pool_class_t * (RS_POOL_CLASS_IDX + 1)) = 12864"
    "sint RS_POOL_CLASS_IDX = 200" by code_simp+
  with assms show ?thesis
    using conf_create_classes unfolding rs_create_pool_def
    by (auto simp: os_grant_def conf_pool_def conf_classes_def)
qed

lemma conf_pool_ok:
  "pool_ok (conf_pool RS_POOL_PREALLOC) []" "classes_ok (conf_pool RS_POOL_PREALLOC)"
  using create_pool_ok [OF grow_half_config conf_pool_created [OF disjI1 [OF refl]]] by blast+

lemma conf_pool_fresh: "malloc_fresh os (conf_pool RS_POOL_PREALLOC) live"
  by (simp add: malloc_fresh_def conf_pool_def RS_POOL_PAGEALLOC_def RS_POOL_PREALLOC_def)

lemma conf_pool_run: "pool_run (conf_pool RS_POOL_PREALLOC) conf_pool2 [(14224, 1), (13920, 1)]"
proof -
  let ?p0 = "conf_pool RS_POOL_PREALLOC"
  let ?p1 = "snd (the (rs_palloc (os_grant 7) ?p0 300 1))"
  have flags: "p_flag ?p0 = 1" "p_flag ?p1 = 1" "1 < length (p_slab_class ?p0)"
    "1 < length (p_slab_class ?p1)" by code_simp+
  then have fresh: "malloc_fresh (os_grant 7) ?p0 []" "malloc_fresh (os_grant 7) ?p1 [(13920, 1)]"
    by (simp_all add: malloc_fresh_def RS_POOL_PAGEALLOC_def)
  have "rs_palloc (os_grant 7) ?p0 300 1 = Some (Some 13920, ?p1)"
    by (rule computes_pair) code_simp+
  then have "pool_run ?p0 ?p1 [(13920, 1)]"
    using pool_run.alloc [OF pool_run.start _ _ fresh(1)] flags by simp
  moreover have "rs_palloc (os_grant 7) ?p1 300 1 = Some (Some 14224, conf_pool2)"
    unfolding conf_pool2_def by (rule computes_pair) code_simp+
  ultimately show ?thesis
    using pool_run.alloc [OF _ _ _ fresh(2)] flags by simp
qed

lemma classes_ok_shape:
  assumes "pool_shape p' = pool_shape p"
  shows "classes_ok p' \<longleftrightarrow> classes_ok p"
proof -
  have sizes: "cls_sizes p' = cls_sizes p"
    using arg_cong [OF assms, of "\<lambda>x. map fst (fst x)"]
    by (simp add: pool_shape_def cls_sizes_def o_def)
  then have len: "length (p_slab_class p') = length (p_slab_class p)"
    by (metis cls_sizes_def length_map)
  have "p_cur_idx p' = p_cur_idx p" "p_chunk_size p' = p_chunk_size p"
    using assms by (simp_all add: pool_shape_def)
  moreover have "p_slab_class p' = [] \<longleftrightarrow> p_slab_class p = []"
    using len by (metis length_0_conv)
  ultimately show ?thesis unfolding classes_ok_def using sizes len by simp
qed

text \<open>
  C1. In every history of allocations and releases by clients that release only what they hold, two
  chunks in use at the same time have no byte in common, also when the operating system refuses
  requests.
\<close>

theorem pool_chunks_disjoint:
  assumes "pool_config_ok grow init_size chunk_size"
    and "rs_create_pool os init_size mem_size chunk_size max_idx grow flag = Some (Some p0)"
    and "pool_run p0 p live" and "i < j" and "j < length live"
  shows "chunk_range p (live ! i) \<inter> chunk_range p (live ! j) = {}"
proof -
  have "pool_ok p live"
    using pool_run_ok [OF assms(3)] create_pool_ok [OF assms(1,2)] by blast
  from pool_ok_disjoint [OF this assms(4,5)] show ?thesis
    by (simp add: chunk_range_def split_def)
qed

text \<open>
  In a preallocated pool every chunk in use lies inside the memory the pool was created with.
\<close>

theorem pool_chunks_in_arena:
  assumes "pool_config_ok grow init_size chunk_size"
    and "rs_create_pool os init_size mem_size chunk_size max_idx grow RS_POOL_PREALLOC = Some (Some p0)"
    and "pool_run p0 p live" and "(a, idx) \<in> set live"
  shows "chunk_range p (a, idx) \<subseteq> {p_start p0 ..< p_start p0 + unat (p_max_size p0)}"
proof -
  have ok: "pool_ok p live" and shape: "pool_shape p = pool_shape p0"
    using pool_run_ok [OF assms(3)] create_pool_ok [OF assms(1,2)] by blast+
  from shape have "p_start p = p_start p0" "p_max_size p = p_max_size p0"
    "p_flag p = RS_POOL_PREALLOC"
    using create_pool_ok(4) [OF assms(1,2)] by (simp_all add: pool_shape_def)
  with pool_ok_arena [OF ok assms(4)] show ?thesis by (auto simp: chunk_range_def)
qed

theorem pool_chunks_disjoint_witness:
  "chunk_range conf_pool2 (14224, 1) \<inter> chunk_range conf_pool2 (13920, 1) = {}"
  using pool_chunks_disjoint [OF grow_half_config conf_pool_created [OF disjI1 [OF refl]] conf_pool_run, of 0 1] by simp

theorem pool_chunks_in_arena_witness:
  "chunk_range conf_pool2 (14224, 1) \<subseteq> {13920 ..< 13920 + 10 * 1024 * 1024}"
proof -
  have "p_start (conf_pool RS_POOL_PREALLOC) = 13920"
    "unat (p_max_size (conf_pool RS_POOL_PREALLOC)) = 10 * 1024 * 1024" by code_simp+
  with pool_chunks_in_arena [OF grow_half_config conf_pool_created [OF disjI1 [OF refl]] conf_pool_run, of 14224 1]
  show ?thesis by simp
qed



text \<open>
  For a size that is no class size the search returns the least class that is large enough.
\<close>

theorem palloc_id_finds_class:
  assumes "pool_config_ok grow init_size chunk_size"
    and "rs_create_pool os init_size mem_size chunk_size max_idx grow flag = Some (Some p)"
    and "sz \<noteq> 0" and "sz \<le> chunk_size" and "sz \<notin> set (cls_sizes p)"
  shows "\<exists>k < length (p_slab_class p). rs_palloc_id p sz = Some (int k) \<and>
    sz < cls_sizes p ! k \<and> (\<forall>j<k. cls_sizes p ! j < sz)"
  using palloc_id_least [of p sz] create_pool_ok [OF assms(1,2)] assms(3-5) by blast

theorem palloc_id_finds_class_witness:
  "\<exists>k < length (p_slab_class (conf_pool RS_POOL_PREALLOC)).
    rs_palloc_id (conf_pool RS_POOL_PREALLOC) 300 = Some (int k) \<and>
    300 < cls_sizes (conf_pool RS_POOL_PREALLOC) ! k"
proof -
  have "(300 :: u32) \<notin> set (cls_sizes (conf_pool RS_POOL_PREALLOC))" by code_simp
  with palloc_id_finds_class [OF grow_half_config conf_pool_created [OF disjI1 [OF refl]], of 300] show ?thesis by force
qed

text \<open>
  For a size that is exactly a class size the search may return a smaller class: in the pool of the
  configuration 1032 bytes get a chunk of 200, although a class of 1032 is there.
\<close>

theorem palloc_id_exact_size_too_small:
  "rs_palloc_id (conf_pool RS_POOL_PREALLOC) 1032 = Some 0 \<and>
   map_option pc_size (pool_class (conf_pool RS_POOL_PREALLOC) 0) = Some 200 \<and>
   map_option pc_size (pool_class (conf_pool RS_POOL_PREALLOC) 4) = Some 1032"
  by code_simp

text \<open>
  A released chunk is the next one its class hands out, without new memory.
\<close>

theorem pfree_palloc_reuses:
  assumes "pool_ok p live" and "(a, idx) \<in> set live" and c: "pool_class p idx = Some c"
    and "\<forall>n. os_realloc os n"
  shows "\<exists>p' p'' c''. rs_pfree os p a idx = Some p' \<and> rs_palloc os' p' sz idx = Some (Some a, p'') \<and>
    pool_class p'' idx = Some c'' \<and> pc_used_free c'' = pc_used_free c \<and>
    pc_chunk c'' = pc_chunk c \<and> pc_free c'' = pc_free c"
proof -
  have cok: "class_ok c" using assms(1) c by (auto simp: pool_ok_def intro: classes_wfD)
  note small = pool_ok_counters(1) [OF assms(1) c]
  show ?thesis
    using c cok small
  proof (cases rule: pfree_result [where os = os and a = a])
    case (2 cells tf)
    let ?k = "unat (pc_used_free c)"
    let ?c' = "c\<lparr>pc_free_chunk := cells[?k := Some a], pc_total_free := tf,
        pc_used_free := pc_used_free c + 1\<rparr>"
    have "pc_used_free c + 1 > 0"
      using unat_Suc_small [OF small] by (simp add: word_less_nat_alt)
    moreover have "idx \<noteq> - 10" using c by (auto simp: pool_class_Some)
    moreover have "mem_get (cells[?k := Some a]) ?k = Some (Some a)"
      using 2(3) by (simp add: mem_get_def)
    ultimately have "rs_palloc os' (set_class p idx ?c') sz idx =
        Some (Some a, set_class (set_class p idx ?c') idx (?c'\<lparr>pc_used_free := pc_used_free c\<rparr>))"
      using c by (simp add: rs_palloc_def palloc_take_def)
    then show ?thesis using 2(1) c by (intro exI conjI) (assumption | simp)+
  qed (use assms(4) in blast)
qed

theorem pfree_palloc_reuses_witness:
  "\<exists>p' p'' c''. rs_pfree (os_grant 7) conf_pool2 13920 1 = Some p' \<and>
    rs_palloc (os_grant 7) p' 300 1 = Some (Some 13920, p'') \<and> pool_class p'' 1 = Some c''"
proof -
  have ok: "pool_ok conf_pool2 [(14224, 1), (13920, 1)]"
    using pool_run_ok [OF conf_pool_run] create_pool_ok [OF grow_half_config conf_pool_created [OF disjI1 [OF refl]]] by blast
  then obtain c where "pool_class conf_pool2 1 = Some c"
    by (auto simp: pool_ok_def live_ok_def pool_class_Some)
  from pfree_palloc_reuses [OF ok _ this, of 13920 "os_grant 7" "os_grant 7" 300] show ?thesis
    by (auto simp: os_grant_def)
qed

text \<open>
  Sixteen slabs, a seventeenth allocation with a refused \<^verbatim>\<open>realloc\<close>, and another one:
  the pools before the refusal and at the end.
\<close>

definition refused_history :: "(rs_pool_t \<times> rs_pool_t) option" where
  "refused_history = do {
     p \<leftarrow> foldl (\<lambda>r i. do { p \<leftarrow> r; (a, p') \<leftarrow> rs_palloc (os_grant (5000 * i)) p 4096 8; Some p' })
           (Some (conf_pool RS_POOL_PAGEALLOC)) [1..<17];
     (a, p1) \<leftarrow> rs_palloc (os_grant 0\<lparr>os_realloc := \<lambda>_. False\<rparr>) p 4096 8;
     (b, p2) \<leftarrow> rs_palloc (os_grant 100000) p1 4096 8;
     Some (p, p2) }"

text \<open>
  Before the refusal the pool can be destroyed; afterwards the slab array is lost while its counter
  is not, and destruction reads pointers that were never written.
\<close>

theorem destroy_after_refused_realloc:
  "map_option (\<lambda>(p, p2). (map_option length (rs_destroy_pool p), rs_destroy_pool p2)) refused_history =
   Some (Some 16, None)"
  by code_simp

end
