(* ===== verification/RS_Shash.thy ===== *)
theory RS_Shash
  imports RS_Palloc "HOL-Library.Multiset"
begin

text \<open>
  \<^verbatim>\<open>src/core/rs_hash.c\<close> and \<^verbatim>\<open>rs_hash.h\<close>: the chained hash table of the
  configuration and of the table handlers. A bucket is the list of its nodes in the order of the
  \<^verbatim>\<open>next\<close> pointers; the \<^verbatim>\<open>prev\<close> pointers are only written. A key is the memory
  behind the caller's pointer, which the table keeps without a copy.

  Keys are compared with \<^verbatim>\<open>strncmp(.., .., strlen(key))\<close>, so a look-up finds any stored
  key of the same bucket that the given key is a prefix of. The interface \<open>lookup_table\<close> states
  what holds in spite of it: what was added is found, from then on.
\<close>

section \<open>State and operations\<close>

record 'v rs_shash_node_t =
  n_key :: "byte list"
  n_val :: 'v
  n_id :: int
  n_addr :: addr

record 'v rs_shash_t =
  sh_ht :: "'v rs_shash_node_t list list"
  sh_num :: u32
  sh_id :: int
  sh_addr :: addr

fun bkd_hash_loop :: "u32 \<Rightarrow> byte list \<Rightarrow> u32 option" where
  "bkd_hash_loop hash [] = None"
| "bkd_hash_loop hash (c # str) =
     (if c = 0 then Some hash else bkd_hash_loop (hash * 131 + scast c) str)"

definition rs_bkd_hash :: "byte list \<Rightarrow> u32 option" where
  "rs_bkd_hash str = map_option (\<lambda>hash. hash AND 0x7FFFFFFF) (bkd_hash_loop 0 str)"

text \<open>The bucket of a key; an empty table is a division by zero.\<close>

definition shash_index :: "'v rs_shash_t \<Rightarrow> byte list \<Rightarrow> nat option" where
  "shash_index h key = do {
     hash \<leftarrow> rs_bkd_hash key;
     if sh_num h = 0 then None else Some (unat (hash mod sh_num h)) }"

definition sizeof_rs_shash_t :: u32 where "sizeof_rs_shash_t = 24"

definition sizeof_rs_shash_head_t :: u32 where "sizeof_rs_shash_head_t = 8"

definition sizeof_rs_shash_node_t :: u32 where "sizeof_rs_shash_node_t = 40"

text \<open>The size is truncated to 32 bits; initialising heads beyond it is out of bounds.\<close>

definition rs_create_shash ::
    "os_mem \<Rightarrow> rs_pool_t \<Rightarrow> u32 \<Rightarrow> ('v rs_shash_t option \<times> rs_pool_t) option" where
  "rs_create_shash os p num =
     (if num = 0 then Some (None, p)
      else do {
        let sz = sizeof_rs_shash_t + sizeof_rs_shash_head_t * num;
        idx \<leftarrow> rs_palloc_id p sz;
        (h, p') \<leftarrow> rs_palloc os p sz idx;
        case h of
          None \<Rightarrow> Some (None, p')
        | Some a \<Rightarrow>
            if unat sizeof_rs_shash_t + unat sizeof_rs_shash_head_t * unat num \<le> unat sz
            then Some (Some \<lparr>sh_ht = replicate (unat num) [], sh_num = num, sh_id = idx, sh_addr = a\<rparr>, p')
            else None })"

fun add_scan :: "byte list \<Rightarrow> 'v rs_shash_node_t list \<Rightarrow> bool option" where
  "add_scan key [] = Some False"
| "add_scan key (n # ns) = do {
     len \<leftarrow> c_strlen key;
     same \<leftarrow> c_strncmp_eq len key (n_key n);
     if same then Some True else add_scan key ns }"

text \<open>\<^verbatim>\<open>rs_shash_after_node\<close> links the new node behind the last one.\<close>

definition rs_shash_after_node ::
    "'v rs_shash_node_t list \<Rightarrow> 'v rs_shash_node_t \<Rightarrow> 'v rs_shash_node_t list" where
  "rs_shash_after_node chain n = chain @ [n]"

definition rs_shash_add ::
    "os_mem \<Rightarrow> rs_pool_t \<Rightarrow> 'v rs_shash_t \<Rightarrow> byte list \<Rightarrow> 'v \<Rightarrow>
     (rs_code \<times> 'v rs_shash_t \<times> rs_pool_t) option" where
  "rs_shash_add os p h key val = do {
     i \<leftarrow> shash_index h key;
     chain \<leftarrow> mem_get (sh_ht h) i;
     found \<leftarrow> add_scan key chain;
     if found then Some (RS_EXISTS, h, p)
     else do {
       idx \<leftarrow> rs_palloc_id p sizeof_rs_shash_node_t;
       (n, p') \<leftarrow> rs_palloc os p sizeof_rs_shash_node_t idx;
       case n of
         None \<Rightarrow> Some (RS_ERR, h, p')
       | Some a \<Rightarrow>
           (let node = \<lparr>n_key = key, n_val = val, n_id = idx, n_addr = a\<rparr>;
                chain' = (if chain \<noteq> [] then rs_shash_after_node chain node else [node])
            in Some (RS_OK, h\<lparr>sh_ht := (sh_ht h)[i := chain']\<rparr>, p')) } }"

fun get_scan :: "byte list \<Rightarrow> 'v rs_shash_node_t list \<Rightarrow> 'v option option" where
  "get_scan key [] = Some None"
| "get_scan key (n # ns) = do {
     len \<leftarrow> c_strlen key;
     same \<leftarrow> c_strncmp_eq len (n_key n) key;
     if same then Some (Some (n_val n)) else get_scan key ns }"

text \<open>The inner option: the value stored through \<^verbatim>\<open>val\<close>, none for RS_NOT_EXISTS.\<close>

definition rs_shash_get :: "'v rs_shash_t \<Rightarrow> byte list \<Rightarrow> 'v option option" where
  "rs_shash_get h key = do {
     i \<leftarrow> shash_index h key;
     chain \<leftarrow> mem_get (sh_ht h) i;
     get_scan key chain }"

fun free_chunks :: "os_mem \<Rightarrow> rs_pool_t \<Rightarrow> (addr \<times> int) list \<Rightarrow> rs_pool_t option" where
  "free_chunks os p [] = Some p"
| "free_chunks os p ((a, idx) # cs) = do { p' \<leftarrow> rs_pfree os p a idx; free_chunks os p' cs }"

definition shash_chunks :: "'v rs_shash_t \<Rightarrow> (addr \<times> int) list" where
  "shash_chunks h = map (\<lambda>n. (n_addr n, n_id n)) (concat (sh_ht h)) @ [(sh_addr h, sh_id h)]"

definition rs_destroy_shash :: "os_mem \<Rightarrow> rs_pool_t \<Rightarrow> 'v rs_shash_t \<Rightarrow> rs_pool_t option" where
  "rs_destroy_shash os p h = free_chunks os p (shash_chunks h)"

section \<open>Well-formed tables\<close>

text \<open>Keys are terminated strings; contents are what stands before the NUL.\<close>

definition key_mem :: "byte list \<Rightarrow> bool" where
  "key_mem key \<longleftrightarrow> 0 \<in> set key"

definition key_str :: "byte list \<Rightarrow> byte list" where
  "key_str key = takeWhile (\<lambda>c. c \<noteq> 0) key"

definition shash_wf :: "'v rs_shash_t \<Rightarrow> bool" where
  "shash_wf h \<longleftrightarrow> sh_num h \<noteq> 0 \<and> length (sh_ht h) = unat (sh_num h) \<and>
     (\<forall>n \<in> set (concat (sh_ht h)). key_mem (n_key n))"

lemma key_memE:
  assumes "key_mem key"
  obtains r where "key = key_str key @ 0 # r" and "0 \<notin> set (key_str key)"
proof -
  let ?P = "\<lambda>c::byte. c \<noteq> 0"
  have "dropWhile ?P key \<noteq> []" using assms by (auto simp: key_mem_def)
  then have "hd (dropWhile ?P key) = 0" using hd_dropWhile [of ?P key] by simp
  with \<open>dropWhile ?P key \<noteq> []\<close> obtain r where "dropWhile ?P key = 0 # r"
    by (cases "dropWhile ?P key") auto
  moreover have "0 \<notin> set (takeWhile ?P key)" by (auto dest: set_takeWhileD)
  ultimately show thesis
    using takeWhile_dropWhile_id [of ?P key] by (intro that [of r]) (simp_all add: key_str_def)
qed

lemma key_str_cstr [simp]: "0 \<notin> set k \<Longrightarrow> key_str (k @ 0 # r) = k"
  by (induction k) (auto simp: key_str_def)

lemma key_mem_cstr [simp]: "key_mem (k @ 0 # r)"
  by (simp add: key_mem_def)

lemma strlen_key: "key_mem key \<Longrightarrow> c_strlen key = Some (length (key_str key))"
  by (erule key_memE) (metis c_strlen_append)

lemma strncmp_keys:
  assumes "key_mem key" and "key_mem key'"
  shows "c_strncmp_eq (length (key_str key)) key key' = Some (prefix (key_str key) (key_str key'))"
    and "c_strncmp_eq (length (key_str key)) key' key = Some (prefix (key_str key) (key_str key'))"
proof -
  obtain r where k: "key = key_str key @ 0 # r" "0 \<notin> set (key_str key)"
    using assms(1) by (rule key_memE)
  obtain r' where k': "key' = key_str key' @ 0 # r'" "0 \<notin> set (key_str key')"
    using assms(2) by (rule key_memE)
  show "c_strncmp_eq (length (key_str key)) key key' = Some (prefix (key_str key) (key_str key'))"
    using c_strncmp_eq_prefix [OF k(2) k'(2), of "0 # r" r'] k(1) k'(1) by simp
  show "c_strncmp_eq (length (key_str key)) key' key = Some (prefix (key_str key) (key_str key'))"
    using c_strncmp_eq_prefix' [OF k(2) k'(2), of r' "0 # r"] k(1) k'(1) by simp
qed

lemma bkd_hash_defined: "key_mem key \<Longrightarrow> \<exists>v. rs_bkd_hash key = Some v"
proof -
  have "0 \<in> set key \<Longrightarrow> \<exists>v. bkd_hash_loop s key = Some v" for s
    by (induction key arbitrary: s) auto
  then show "key_mem key \<Longrightarrow> ?thesis" by (auto simp: rs_bkd_hash_def key_mem_def)
qed

lemma shash_index_defined:
  assumes "shash_wf h" and "key_mem key"
  obtains i where "shash_index h key = Some i" and "i < length (sh_ht h)"
proof -
  obtain v where "rs_bkd_hash key = Some v" using bkd_hash_defined [OF assms(2)] by blast
  moreover have "unat (v mod sh_num h) < unat (sh_num h)"
    using assms(1) by (simp add: unat_mod shash_wf_def unat_gt_0 word_neq_0_conv)
  ultimately show thesis
    using assms(1) by (intro that) (simp_all add: shash_index_def shash_wf_def)
qed

lemma add_scan_prefix:
  "key_mem key \<Longrightarrow> \<forall>n \<in> set ns. key_mem (n_key n) \<Longrightarrow>
   add_scan key ns = Some (\<exists>n \<in> set ns. prefix (key_str key) (key_str (n_key n)))"
  by (induction ns) (auto simp: strlen_key strncmp_keys)

lemma get_scan_find:
  "key_mem key \<Longrightarrow> \<forall>n \<in> set ns. key_mem (n_key n) \<Longrightarrow>
   get_scan key ns =
     Some (map_option n_val (find (\<lambda>n. prefix (key_str key) (key_str (n_key n))) ns))"
  by (induction ns) (auto simp: strlen_key strncmp_keys)

lemma shash_wf_chain:
  "shash_wf h \<Longrightarrow> i < length (sh_ht h) \<Longrightarrow> \<forall>n \<in> set (sh_ht h ! i). key_mem (n_key n)"
  unfolding shash_wf_def by (metis UN_I nth_mem set_concat)

text \<open>The chain a key belongs to, and what the two searches do on it.\<close>

definition shash_chain :: "'v rs_shash_t \<Rightarrow> byte list \<Rightarrow> 'v rs_shash_node_t list" where
  "shash_chain h key = sh_ht h ! the (shash_index h key)"

definition chain_find :: "byte list \<Rightarrow> 'v rs_shash_node_t list \<Rightarrow> 'v rs_shash_node_t option" where
  "chain_find key = find (\<lambda>n. prefix (key_str key) (key_str (n_key n)))"

lemma shash_get_find:
  assumes "shash_wf h" and "key_mem key"
  shows "rs_shash_get h key = Some (map_option n_val (chain_find key (shash_chain h key)))"
proof -
  obtain i where i: "shash_index h key = Some i" "i < length (sh_ht h)"
    using assms by (rule shash_index_defined)
  then show ?thesis
    using get_scan_find [OF assms(2) shash_wf_chain [OF assms(1) i(2)]]
    by (simp add: rs_shash_get_def shash_chain_def chain_find_def mem_get_def)
qed

lemma link_node:
  "(if chain \<noteq> [] then rs_shash_after_node chain n else [n]) = chain @ [n]"
  by (simp add: rs_shash_after_node_def)

lemma shash_add_cases:
  assumes "shash_wf h" and "key_mem key" and "rs_shash_add os p h key v = Some (r, h', p')"
  obtains (exists_already) n where "r = RS_EXISTS" and "h' = h" and "p' = p"
      and "chain_find key (shash_chain h key) = Some n"
  | (refused) "r = RS_ERR" and "h' = h" and "chain_find key (shash_chain h key) = None"
  | (added) i a idx where "r = RS_OK" and "shash_index h key = Some i" and "i < length (sh_ht h)"
      and "chain_find key (shash_chain h key) = None"
      and "rs_palloc_id p sizeof_rs_shash_node_t = Some idx"
      and "rs_palloc os p sizeof_rs_shash_node_t idx = Some (Some a, p')"
      and "h' = h\<lparr>sh_ht := (sh_ht h)[i := sh_ht h ! i @
              [\<lparr>n_key = key, n_val = v, n_id = idx, n_addr = a\<rparr>]]\<rparr>"
proof -
  obtain i where i: "shash_index h key = Some i" "i < length (sh_ht h)"
    using assms(1,2) by (rule shash_index_defined)
  then have chain: "shash_chain h key = sh_ht h ! i" by (simp add: shash_chain_def)
  note scan = add_scan_prefix [OF assms(2) shash_wf_chain [OF assms(1) i(2)]]
  show thesis
  proof (cases "\<exists>n \<in> set (sh_ht h ! i). prefix (key_str key) (key_str (n_key n))")
    case True
    moreover from this have "chain_find key (sh_ht h ! i) \<noteq> None"
      by (auto simp: chain_find_def find_None_iff)
    ultimately show thesis
      using assms(3) i scan chain exists_already by (auto simp: rs_shash_add_def mem_get_def)
  next
    case False
    then have none: "chain_find key (shash_chain h key) = None"
      by (auto simp: chain chain_find_def find_None_iff)
    let ?add = "\<lambda>idx a. h\<lparr>sh_ht := (sh_ht h)[i := sh_ht h ! i @
        [\<lparr>n_key = key, n_val = v, n_id = idx, n_addr = a\<rparr>]]\<rparr>"
    from False scan have "add_scan key (sh_ht h ! i) = Some False" by simp
    with assms(3) i have "do {
        idx \<leftarrow> rs_palloc_id p sizeof_rs_shash_node_t;
        (n, p1) \<leftarrow> rs_palloc os p sizeof_rs_shash_node_t idx;
        case n of None \<Rightarrow> Some (RS_ERR, h, p1) | Some a \<Rightarrow> Some (RS_OK, ?add idx a, p1) } =
      Some (r, h', p')"
      by (simp add: rs_shash_add_def mem_get_def link_node Let_def cong: option.case_cong)
    then obtain idx n where n: "rs_palloc_id p sizeof_rs_shash_node_t = Some idx"
        "rs_palloc os p sizeof_rs_shash_node_t idx = Some (n, p')"
      and "case n of None \<Rightarrow> r = RS_ERR \<and> h' = h | Some a \<Rightarrow> r = RS_OK \<and> h' = ?add idx a"
      by (auto simp: bind_eq_Some_conv split: option.splits)
    then show thesis
      using none i by (cases n) (auto intro: refused added)
  qed
qed


lemma shash_index_update [simp]: "shash_index (h\<lparr>sh_ht := ht\<rparr>) key = shash_index h key"
  by (cases "rs_bkd_hash key") (simp_all add: shash_index_def)

lemma find_append:
  "find P (xs @ ys) = (case find P xs of None \<Rightarrow> find P ys | Some x \<Rightarrow> Some x)"
  by (induction xs) auto

lemma shash_add_wf:
  assumes "shash_wf h" and "key_mem key" and "rs_shash_add os p h key v = Some (r, h', p')"
  shows "shash_wf h'"
  using assms
proof (cases rule: shash_add_cases)
  case (added i a idx)
  have "set (concat ((sh_ht h)[i := c])) \<subseteq> set (concat (sh_ht h)) \<union> set c" for c
    using set_update_subset_insert [of "sh_ht h" i c] by auto
  with added assms(1,2) show ?thesis
    using nth_mem [OF added(3)] unfolding shash_wf_def by fastforce
qed (use assms in simp_all)

lemma shash_index_add:
  assumes "shash_wf h" and "key_mem key" and "rs_shash_add os p h key v = Some (r, h', p')"
  shows "shash_index h' key' = shash_index h key'"
  using assms by (cases rule: shash_add_cases) simp_all

text \<open>An addition only extends chains at their end.\<close>

lemma shash_chain_add:
  assumes "shash_wf h" and "key_mem key" and "rs_shash_add os p h key v = Some (r, h', p')"
  shows "prefix (shash_chain h key') (shash_chain h' key')"
  using assms
proof (cases rule: shash_add_cases)
  case (added i a idx)
  then show ?thesis
    by (cases "the (shash_index h key') = i")
      (simp_all add: shash_chain_def)
qed simp_all

lemma chain_find_prefix:
  "prefix ns ms \<Longrightarrow> chain_find key ns = Some n \<Longrightarrow> chain_find key ms = Some n"
  by (auto simp: chain_find_def prefix_def find_append split: option.split)

section \<open>The look-up interface\<close>

text \<open>
  What the clients of a table rely on: \<open>adds s k v s'\<close> is a successful registration,
  \<open>finds s k v\<close> a successful look-up.
\<close>

fun adds_all :: "('s \<Rightarrow> 'k \<Rightarrow> 'v \<Rightarrow> 's \<Rightarrow> bool) \<Rightarrow> 's \<Rightarrow> ('k \<times> 'v) list \<Rightarrow> 's \<Rightarrow> bool" where
  "adds_all adds s [] s' = (s' = s)"
| "adds_all adds s ((k, v) # kvs) s' = (\<exists>t. adds s k v t \<and> adds_all adds t kvs s')"

locale lookup_table =
  fixes valid :: "'s \<Rightarrow> bool" and key_ok :: "'k \<Rightarrow> bool"
    and adds :: "'s \<Rightarrow> 'k \<Rightarrow> 'v \<Rightarrow> 's \<Rightarrow> bool" and finds :: "'s \<Rightarrow> 'k \<Rightarrow> 'v \<Rightarrow> bool"
  assumes adds_valid: "valid s \<Longrightarrow> key_ok k \<Longrightarrow> adds s k v s' \<Longrightarrow> valid s'"
    and finds_added: "valid s \<Longrightarrow> key_ok k \<Longrightarrow> adds s k v s' \<Longrightarrow> finds s' k v"
    and finds_kept: "valid s \<Longrightarrow> key_ok k' \<Longrightarrow> key_ok k \<Longrightarrow> adds s k' v' s' \<Longrightarrow> finds s k v \<Longrightarrow> finds s' k v"
    and finds_unique: "finds s k v \<Longrightarrow> finds s k w \<Longrightarrow> v = w"
begin

lemma adds_all_kept:
  "valid s \<Longrightarrow> \<forall>kv \<in> set kvs. key_ok (fst kv) \<Longrightarrow> key_ok k \<Longrightarrow> adds_all adds s kvs s' \<Longrightarrow>
   finds s k v \<Longrightarrow> finds s' k v"
proof (induction kvs arbitrary: s)
  case (Cons kv kvs)
  obtain k' v' t where "kv = (k', v')" "adds s k' v' t" "adds_all adds t kvs s'"
    using Cons.prems(4) by (cases kv) auto
  with Cons.prems Cons.IH [of t] adds_valid [of s k' v' t] finds_kept [of s k' k v' t v]
  show ?case by simp
qed simp

lemma adds_all_found:
  "valid s \<Longrightarrow> \<forall>kv \<in> set kvs. key_ok (fst kv) \<Longrightarrow> adds_all adds s kvs s' \<Longrightarrow>
   (k, v) \<in> set kvs \<Longrightarrow> finds s' k v"
proof (induction kvs arbitrary: s)
  case (Cons kv kvs)
  obtain k' v' t where kv: "kv = (k', v')" and t: "adds s k' v' t" "adds_all adds t kvs s'"
    using Cons.prems(3) by (cases kv) auto
  have valid: "valid t" using adds_valid [OF _ _ t(1)] Cons.prems kv by simp
  show ?case
  proof (cases "(k, v) = kv")
    case True
    with kv t(1) Cons.prems have "finds t k v" "key_ok k" by (auto intro: finds_added)
    with adds_all_kept [OF valid _ _ t(2)] Cons.prems show ?thesis by simp
  next
    case False
    with Cons.IH [OF valid _ t(2)] Cons.prems show ?thesis by simp
  qed
qed simp

lemma adds_all_keys_distinct:
  "valid s \<Longrightarrow> \<forall>kv \<in> set kvs. key_ok (fst kv) \<Longrightarrow> adds_all adds s kvs s' \<Longrightarrow>
   (k, v) \<in> set kvs \<Longrightarrow> (k, w) \<in> set kvs \<Longrightarrow> v = w"
  using adds_all_found finds_unique by blast

end

definition shash_adds ::
    "'v rs_shash_t \<times> rs_pool_t \<Rightarrow> byte list \<Rightarrow> 'v \<Rightarrow> 'v rs_shash_t \<times> rs_pool_t \<Rightarrow> bool" where
  "shash_adds s key v s' \<longleftrightarrow>
     (\<exists>os. rs_shash_add os (snd s) (fst s) key v = Some (RS_OK, fst s', snd s'))"

definition shash_finds :: "'v rs_shash_t \<times> rs_pool_t \<Rightarrow> byte list \<Rightarrow> 'v \<Rightarrow> bool" where
  "shash_finds s key v \<longleftrightarrow> rs_shash_get (fst s) key = Some (Some v)"

lemma shash_add_finds:
  assumes "shash_wf h" and "key_mem key" and "rs_shash_add os p h key v = Some (RS_OK, h', p')"
  shows "rs_shash_get h' key = Some (Some v)"
  using assms
proof (cases rule: shash_add_cases)
  case (added i a idx)
  note wf = shash_add_wf [OF assms] and ix = shash_index_add [OF assms, of key]
  have "shash_chain h' key = shash_chain h key @ [\<lparr>n_key = key, n_val = v, n_id = idx, n_addr = a\<rparr>]"
    using added ix by (simp add: shash_chain_def)
  then have "chain_find key (shash_chain h' key) = Some \<lparr>n_key = key, n_val = v, n_id = idx, n_addr = a\<rparr>"
    using added(4) by (simp add: chain_find_def find_append)
  with shash_get_find [OF wf assms(2)] show ?thesis by simp
qed simp_all

lemma shash_get_kept:
  assumes "shash_wf h" and "key_mem key" and "rs_shash_add os p h key v = Some (r, h', p')"
    and "key_mem key'" and "rs_shash_get h key' = Some (Some w)"
  shows "rs_shash_get h' key' = Some (Some w)"
proof -
  from assms(5) obtain n where n: "chain_find key' (shash_chain h key') = Some n" "w = n_val n"
    by (auto simp: shash_get_find [OF assms(1,4)])
  have "chain_find key' (shash_chain h' key') = Some n"
    using chain_find_prefix [OF shash_chain_add [OF assms(1-3)] n(1)] .
  with n(2) show ?thesis by (simp add: shash_get_find [OF shash_add_wf [OF assms(1-3)] assms(4)])
qed

interpretation shash: lookup_table "\<lambda>s. shash_wf (fst s)" key_mem shash_adds shash_finds
proof unfold_locales
  fix s s' :: "'v rs_shash_t \<times> rs_pool_t" and k v
  assume "shash_wf (fst s)" "key_mem k" "shash_adds s k v s'"
  then show "shash_wf (fst s')" and "shash_finds s' k v"
    unfolding shash_adds_def shash_finds_def by (metis shash_add_wf, metis shash_add_finds)
next
  fix s s' :: "'v rs_shash_t \<times> rs_pool_t" and k' k v' v
  assume "shash_wf (fst s)" "key_mem k'" "key_mem k" "shash_adds s k' v' s'" "shash_finds s k v"
  then show "shash_finds s' k v"
    unfolding shash_adds_def shash_finds_def by (metis shash_get_kept)
qed (simp add: shash_finds_def)

section \<open>Ownership of the nodes\<close>

lemma pool_ok_perm:
  assumes "mset live = mset live'" and "pool_ok p live"
  shows "pool_ok p live'"
proof -
  have "set live' = set live" using assms(1) by (metis set_mset_mset)
  moreover have "blocks_weight w (live_blocks p live') = blocks_weight w (live_blocks p live)" for w
    using assms(1) by (simp add: blocks_weight_def live_blocks_def flip: sum_mset_sum_list)
  ultimately show ?thesis
    using assms(2) by (simp add: pool_ok_def live_ok_def pool_bytes_def pool_owned_def)
qed

lemma free_chunks_ok:
  "pool_ok p (cs @ live) \<Longrightarrow>
   \<exists>p'. free_chunks os p cs = Some p' \<and> pool_ok p' live \<and> pool_shape p' = pool_shape p"
proof (induction cs arbitrary: p)
  case (Cons c cs)
  obtain a idx where c: "c = (a, idx)" by (cases c)
  obtain p1 where "rs_pfree os p a idx = Some p1" "pool_ok p1 (cs @ live)" "pool_shape p1 = pool_shape p"
    using pfree_ok [OF Cons.prems, of a idx os] c by auto
  with Cons.IH [of p1] c show ?case by fastforce
qed simp

text \<open>An allocation of a size the class table covers.\<close>

lemma sized_palloc_ok:
  assumes "pool_ok p live" and "classes_ok p" and "sz \<noteq> 0" and "sz \<le> p_chunk_size p"
    and "malloc_fresh os p live"
  obtains idx r p' where "rs_palloc_id p sz = Some idx" and "rs_palloc os p sz idx = Some (r, p')"
    and "pool_shape p' = pool_shape p"
    and "case r of None \<Rightarrow> pool_ok p' live | Some a \<Rightarrow> pool_ok p' ((a, idx) # live)"
proof -
  obtain idx where idx: "rs_palloc_id p sz = Some idx"
      "sz \<noteq> 0 \<Longrightarrow> sz \<le> p_chunk_size p \<Longrightarrow> 0 \<le> idx \<and> nat idx < length (p_slab_class p)"
    by (rule palloc_id_in_range [OF assms(2), of sz]) (rule that)
  with assms palloc_ok [OF assms(1) _ _ assms(5), of idx sz] that show thesis by blast
qed

lemma mset_update_bucket:
  "i < length ht \<Longrightarrow> mset (concat (ht[i := ht ! i @ [x]])) = add_mset x (mset (concat ht))"
  by (simp add: upd_conv_take_nth_drop) (subst (3) id_take_nth_drop [of i ht], simp_all)

section \<open>Properties\<close>

text \<open>
  C15. Whatever was registered successfully is found under its key, whatever was registered before
  or after it.
\<close>

theorem shash_registered_found:
  assumes "shash_wf (fst s)" and "\<forall>kv \<in> set kvs. key_mem (fst kv)"
    and "adds_all shash_adds s kvs s'" and "(key, v) \<in> set kvs"
  shows "rs_shash_get (fst s') key = Some (Some v)"
  using shash.adds_all_found [OF assms] by (simp add: shash_finds_def)

definition two_buckets :: "nat rs_shash_t" where
  "two_buckets = \<lparr>sh_ht = [[], []], sh_num = 2, sh_id = 0, sh_addr = 13920\<rparr>"

definition two_buckets_a :: "nat rs_shash_t \<times> rs_pool_t" where
  "two_buckets_a =
     snd (the (rs_shash_add (os_grant 7) (conf_pool RS_POOL_PREALLOC) two_buckets (cstr ''a'') 1))"

definition two_buckets_ab :: "nat rs_shash_t \<times> rs_pool_t" where
  "two_buckets_ab =
     snd (the (rs_shash_add (os_grant 7) (snd two_buckets_a) (fst two_buckets_a) (cstr ''bb'') 2))"

lemma two_buckets_wf: "shash_wf two_buckets"
  by (simp add: two_buckets_def shash_wf_def)

lemma two_buckets_adds:
  "adds_all shash_adds (two_buckets, conf_pool RS_POOL_PREALLOC) [(cstr ''a'', 1), (cstr ''bb'', 2)]
     two_buckets_ab"
proof -
  have "rs_shash_add (os_grant 7) (conf_pool RS_POOL_PREALLOC) two_buckets (cstr ''a'') 1 =
      Some (RS_OK, two_buckets_a)"
    unfolding two_buckets_a_def by (rule computes_pair) code_simp+
  moreover have "rs_shash_add (os_grant 7) (snd two_buckets_a) (fst two_buckets_a) (cstr ''bb'') 2 =
      Some (RS_OK, two_buckets_ab)"
    unfolding two_buckets_ab_def by (rule computes_pair) code_simp+
  ultimately have "shash_adds (two_buckets, conf_pool RS_POOL_PREALLOC) (cstr ''a'') 1 two_buckets_a"
    "shash_adds two_buckets_a (cstr ''bb'') 2 two_buckets_ab"
    by (auto simp: shash_adds_def simp del: split_paired_Ex)
  then show ?thesis unfolding adds_all.simps by blast
qed

theorem shash_registered_found_witness:
  "rs_shash_get (fst two_buckets_ab) (cstr ''bb'') = Some (Some 2)"
  by (rule shash_registered_found [OF _ _ two_buckets_adds])
    (simp_all add: two_buckets_wf cstr_def)

text \<open>
  When no stored key of the bucket properly extends it, a key is found exactly if it is
  stored, with the value of the first node that has it.
\<close>

theorem shash_get_exact:
  assumes "shash_wf h" and "key_mem key"
    and "\<forall>n \<in> set (shash_chain h key). \<not> strict_prefix (key_str key) (key_str (n_key n))"
  shows "rs_shash_get h key =
    Some (map_option n_val (find (\<lambda>n. key_str (n_key n) = key_str key) (shash_chain h key)))"
proof -
  have "find (\<lambda>n. prefix (key_str key) (key_str (n_key n))) (shash_chain h key) =
      find (\<lambda>n. key_str (n_key n) = key_str key) (shash_chain h key)"
    using assms(3) by (intro find_cong) (auto simp: prefix_order.less_le)
  with shash_get_find [OF assms(1,2)] show ?thesis by (simp add: chain_find_def)
qed

theorem shash_get_exact_witness:
  "rs_shash_get (two_buckets\<lparr>sh_ht := [[\<lparr>n_key = cstr ''bb'', n_val = 2, n_id = 0, n_addr = 14120\<rparr>], []]\<rparr>)
     (cstr ''d'') = Some None"
proof -
  let ?h = "two_buckets\<lparr>sh_ht := [[\<lparr>n_key = cstr ''bb'', n_val = 2, n_id = 0, n_addr = 14120\<rparr>], []]\<rparr>"
  have "shash_wf ?h" by (simp add: two_buckets_def shash_wf_def cstr_def)
  moreover have "shash_index ?h (cstr ''d'') = Some 0" by code_simp
  then have "shash_chain ?h (cstr ''d'') = [\<lparr>n_key = cstr ''bb'', n_val = 2, n_id = 0, n_addr = 14120\<rparr>]"
    by (simp add: shash_chain_def)
  moreover have "key_str (cstr ''bb'') = [98, 98]" "key_str (cstr ''d'') = [100]"
    by (simp_all add: cstr_def ascii_def key_str_def)
  ultimately show ?thesis using shash_get_exact [of ?h "cstr ''d''"]
    by (simp add: cstr_def)
qed

text \<open>
  An addition answers EXISTS, ERR or OK, always returns, and the nodes and the header stay
  exactly the chunks the table holds.
\<close>

theorem shash_add_owns:
  assumes wf: "shash_wf h" "key_mem key"
    and ok: "pool_ok p (shash_chunks h @ rest)" and cls: "classes_ok p"
    and size: "sizeof_rs_shash_node_t \<le> p_chunk_size p"
    and fresh: "malloc_fresh os p (shash_chunks h @ rest)"
  shows "\<exists>r h' p'. rs_shash_add os p h key v = Some (r, h', p') \<and> shash_wf h' \<and>
    pool_ok p' (shash_chunks h' @ rest) \<and> classes_ok p'"
proof -
  obtain i where i: "shash_index h key = Some i" "i < length (sh_ht h)"
    using wf by (rule shash_index_defined)
  note scan = add_scan_prefix [OF wf(2) shash_wf_chain [OF wf(1) i(2)]]
  obtain idx n p1 where n: "rs_palloc_id p sizeof_rs_shash_node_t = Some idx"
      "rs_palloc os p sizeof_rs_shash_node_t idx = Some (n, p1)" "pool_shape p1 = pool_shape p"
      "case n of None \<Rightarrow> pool_ok p1 (shash_chunks h @ rest)
         | Some a \<Rightarrow> pool_ok p1 ((a, idx) # shash_chunks h @ rest)"
    by (rule sized_palloc_ok [OF ok cls _ size fresh]) (auto simp: sizeof_rs_shash_node_t_def)
  have cls1: "classes_ok p1" using classes_ok_shape [OF n(3)] cls by simp
  have "rs_shash_add os p h key v \<noteq> None"
    using i scan n(1,2) by (auto simp: rs_shash_add_def mem_get_def Let_def split: option.split)
  then obtain r h' p' where add: "rs_shash_add os p h key v = Some (r, h', p')" by auto
  have "pool_ok p' (shash_chunks h' @ rest) \<and> classes_ok p'"
    using wf add
  proof (cases rule: shash_add_cases)
    case refused
    with add i n scan show ?thesis
      by (cases n) (use cls1 in \<open>auto simp: rs_shash_add_def mem_get_def Let_def split: if_splits\<close>)
  next
    case (added j a idx')
    have j: "j = i" "idx' = idx" "n = Some a" "p' = p1" using added n i by simp_all
    have "mset (shash_chunks h') = add_mset (a, idx) (mset (shash_chunks h))"
      using added j mset_update_bucket [OF i(2)] by (simp add: shash_chunks_def)
    with n(4) j pool_ok_perm [of "(a, idx) # shash_chunks h @ rest" "shash_chunks h' @ rest" p1]
    show ?thesis by (simp add: cls1)
  qed (use ok cls in simp)
  with add shash_add_wf [OF wf add] show ?thesis by blast
qed

theorem shash_add_owns_witness:
  "\<exists>r h' p'. rs_shash_add (os_grant 7)
     (snd (the (rs_palloc (os_grant 7) (conf_pool RS_POOL_PREALLOC) 40 0))) two_buckets (cstr ''a'') 1 =
     Some (r, h', p') \<and> pool_ok p' (shash_chunks h')"
proof -
  let ?p = "snd (the (rs_palloc (os_grant 7) (conf_pool RS_POOL_PREALLOC) 40 0))"
  have palloc: "rs_palloc (os_grant 7) (conf_pool RS_POOL_PREALLOC) 40 0 = Some (Some 13920, ?p)"
    by (rule computes_pair) code_simp+
  moreover have "0 < length (p_slab_class (conf_pool RS_POOL_PREALLOC))" by code_simp
  ultimately have ok: "pool_ok ?p (shash_chunks two_buckets @ [])" and shape: "pool_shape ?p = pool_shape (conf_pool RS_POOL_PREALLOC)"
    using palloc_ok [OF conf_pool_ok(1), of 0 "os_grant 7" 40] conf_pool_fresh
    by (auto simp: shash_chunks_def two_buckets_def)
  then have "classes_ok ?p" "malloc_fresh (os_grant 7) ?p (shash_chunks two_buckets @ [])"
    "sizeof_rs_shash_node_t \<le> p_chunk_size ?p"
    using conf_pool_ok(2) classes_ok_shape [OF shape]
    by (simp_all add: malloc_fresh_def pool_shape_def conf_pool_def RS_POOL_PAGEALLOC_def
        RS_POOL_PREALLOC_def sizeof_rs_shash_node_t_def)
  from shash_add_owns [OF two_buckets_wf _ ok this(1,3,2), of "cstr ''a''" 1]
  show ?thesis by (auto simp: cstr_def)
qed

text \<open>Creation gives an empty table that owns its header.\<close>

theorem shash_create_owns:
  assumes ok: "pool_ok p live" and cls: "classes_ok p" and "num \<noteq> 0" and small: "unat num < 2 ^ 28"
    and size: "sizeof_rs_shash_t + sizeof_rs_shash_head_t * num \<le> p_chunk_size p"
    and fresh: "malloc_fresh os p live"
  shows "\<exists>(r :: 'v rs_shash_t option) p'. rs_create_shash os p num = Some (r, p') \<and> classes_ok p' \<and>
    (case r of None \<Rightarrow> pool_ok p' live
     | Some h \<Rightarrow> shash_wf h \<and> pool_ok p' (shash_chunks h @ live) \<and>
         (\<forall>key. key_mem key \<longrightarrow> rs_shash_get h key = Some None))"
proof -
  let ?sz = "sizeof_rs_shash_t + sizeof_rs_shash_head_t * num"
  have "unat (8 * num) = 8 * unat num"
    using small by (subst unat_mult_lem [THEN iffD1]) simp_all
  then have sz: "unat ?sz = 24 + 8 * unat num"
    using small unfolding sizeof_rs_shash_t_def sizeof_rs_shash_head_t_def
    by (subst unat_add_lem [THEN iffD1]) simp_all
  then have nz: "?sz \<noteq> 0" by (metis add_eq_0_iff_both_eq_0 unat_0 zero_neq_numeral)
  obtain idx r p' where n: "rs_palloc_id p ?sz = Some idx" "rs_palloc os p ?sz idx = Some (r, p')"
      "pool_shape p' = pool_shape p"
      "case r of None \<Rightarrow> pool_ok p' live | Some a \<Rightarrow> pool_ok p' ((a, idx) # live)"
    by (rule sized_palloc_ok [OF ok cls nz size fresh])
  have cls': "classes_ok p'" by (simp add: classes_ok_shape [OF n(3)] cls)
  show ?thesis
  proof (cases r)
    case None
    with n assms(3) cls' show ?thesis by (simp add: rs_create_shash_def Let_def)
  next
    case (Some a)
    let ?h = "\<lparr>sh_ht = replicate (unat num) [], sh_num = num, sh_id = idx, sh_addr = a\<rparr> :: 'v rs_shash_t"
    have "unat sizeof_rs_shash_t + unat sizeof_rs_shash_head_t * unat num \<le> unat ?sz"
      using sz by (simp add: sizeof_rs_shash_t_def sizeof_rs_shash_head_t_def)
    with n(1,2) Some assms(3) have "rs_create_shash os p num = Some (Some ?h, p')"
      unfolding rs_create_shash_def Let_def by simp
    moreover have wf: "shash_wf ?h" using assms(3) by (auto simp: shash_wf_def)
    moreover have "rs_shash_get ?h key = Some None" if key: "key_mem key" for key
    proof -
      obtain i where "shash_index ?h key = Some i" "i < length (sh_ht ?h)"
        using wf key by (rule shash_index_defined)
      then show ?thesis by (simp add: rs_shash_get_def mem_get_def)
    qed
    ultimately show ?thesis using n(4) Some cls' by (auto simp: shash_chunks_def)
  qed
qed

theorem shash_create_owns_witness:
  "\<exists>(r :: nat rs_shash_t option) p'. rs_create_shash (os_grant 7) (conf_pool RS_POOL_PREALLOC) 16 = Some (r, p')"
  using shash_create_owns [OF conf_pool_ok, of 16 "os_grant 7", where 'v = nat] conf_pool_fresh
  by (auto simp: conf_pool_def sizeof_rs_shash_t_def sizeof_rs_shash_head_t_def)

text \<open>Destruction releases every node and the header, and nothing else.\<close>

theorem shash_destroy_releases:
  assumes "pool_ok p (shash_chunks h @ rest)"
  shows "\<exists>p'. rs_destroy_shash os p h = Some p' \<and> pool_ok p' rest"
  using free_chunks_ok [OF assms, of os] by (auto simp: rs_destroy_shash_def)

theorem shash_destroy_releases_witness:
  "\<exists>p'. rs_destroy_shash (os_grant 7) conf_pool2
     (two_buckets\<lparr>sh_ht := [[\<lparr>n_key = cstr ''a'', n_val = 1, n_id = 1, n_addr = 14224\<rparr>], []],
        sh_id := 1\<rparr>) = Some p' \<and> pool_ok p' []"
  using pool_run_ok [OF conf_pool_run conf_pool_ok(1)]
  by (intro shash_destroy_releases) (simp add: shash_chunks_def two_buckets_def)

section \<open>The registered table handlers\<close>

text \<open>
  \<^verbatim>\<open>src/slave/rs_register_tables.c\<close>: the handler of every replicated table, under its
  \<^verbatim>\<open>db.table\<close> name. The results of the additions are not looked at.
\<close>

datatype rs_dm_handler = Rs_dm_test_test

definition rs_dm_table_funcs :: "(byte list option \<times> rs_dm_handler option) list" where
  "rs_dm_table_funcs = [(Some (cstr ''test.test''), Some Rs_dm_test_test), (None, None)]"

fun count_table_funcs :: "(byte list option \<times> 'v option) list \<Rightarrow> nat option" where
  "count_table_funcs [] = None"
| "count_table_funcs ((k, f) # fs) =
     (if k \<noteq> None \<and> f \<noteq> None then map_option Suc (count_table_funcs fs) else Some 0)"

fun add_table_funcs ::
    "os_mem \<Rightarrow> rs_pool_t \<Rightarrow> 'v rs_shash_t \<Rightarrow> (byte list option \<times> 'v option) list \<Rightarrow>
     ('v rs_shash_t \<times> rs_pool_t) option" where
  "add_table_funcs os p h ((Some k, Some f) # fs) = do {
     (r, h', p') \<leftarrow> rs_shash_add os p h k f;
     add_table_funcs os p' h' fs }"
| "add_table_funcs os p h [] = None"
| "add_table_funcs os p h _ = Some (h, p)"

definition rs_register_tables ::
    "os_mem \<Rightarrow> rs_pool_t \<Rightarrow> (rs_code \<times> rs_dm_handler rs_shash_t option \<times> rs_pool_t) option" where
  "rs_register_tables os p = do {
     i \<leftarrow> count_table_funcs rs_dm_table_funcs;
     (h, p1) \<leftarrow> rs_create_shash os p (of_nat i * 2);
     case h of
       None \<Rightarrow> Some (RS_ERR, None, p1)
     | Some h \<Rightarrow> do {
         (h', p2) \<leftarrow> add_table_funcs os p1 h rs_dm_table_funcs;
         Some (RS_OK, Some h', p2) } }"

definition conf_tables :: "rs_code \<times> rs_dm_handler rs_shash_t option \<times> rs_pool_t" where
  "conf_tables = the (rs_register_tables (os_grant 7) (conf_pool RS_POOL_PREALLOC))"

text \<open>
  The handler registered for test.test is also found for test.t, a different table whose
  name is a prefix and whose hash falls in the same bucket; for test.x nothing is found.
\<close>

theorem register_tables_prefix_lookup:
  "fst conf_tables = RS_OK \<and>
   map_option (\<lambda>h. map (rs_shash_get h) [cstr ''test.test'', cstr ''test.t'', cstr ''test.x''])
     (fst (snd conf_tables)) =
   Some [Some (Some Rs_dm_test_test), Some (Some Rs_dm_test_test), Some None]"
  by code_simp

end
