(* ===== verification/RS_RingBuf.thy ===== *)
theory RS_RingBuf
  imports RS_Palloc
begin

text \<open>
  The ring buffer of \<^verbatim>\<open>src/core/rs_buf.c\<close> between the I/O thread (the only writer) and the
  redis thread (the only reader). Pointers into the ring are byte addresses, a slot is
  \<^verbatim>\<open>sizeof(rs_ringbuf_data_t)\<close> = 24 bytes; the counters are 64-bit and wrap around.

  One at a time the operations are those of a bounded queue (interface \<open>fifo_channel\<close>). With the
  two threads interleaved at every single store (the step relation at the end), the reader still
  gets exactly what was published, in order, and the two never hold the same slot.
\<close>

section \<open>State and operations\<close>

record rs_ringbuf_data_t =
  d_len :: u32
  d_data :: "addr option"
  d_id :: int

definition rs_ringbuf_data_t_init :: rs_ringbuf_data_t where
  "rs_ringbuf_data_t_init = \<lparr>d_len = 0, d_data = None, d_id = 0\<rparr>"

text \<open>\<open>rb_slots\<close> is the memory from \<^verbatim>\<open>start\<close> to \<^verbatim>\<open>end\<close>.\<close>

record rs_ringbuf_t =
  rb_rn :: u64
  rb_wn :: u64
  rb_num :: u32
  rb_rp :: addr
  rb_wp :: addr
  rb_start :: addr
  rb_end :: addr
  rb_id :: int
  rb_slots :: "rs_ringbuf_data_t list"

definition sizeof_rs_ringbuf_t :: u32 where "sizeof_rs_ringbuf_t = 72"

definition sizeof_rs_ringbuf_data_t :: u32 where "sizeof_rs_ringbuf_data_t = 24"

abbreviation slot_size :: nat where "slot_size \<equiv> 24"

definition rs_create_ringbuf ::
    "os_mem \<Rightarrow> rs_pool_t \<Rightarrow> u32 \<Rightarrow> (rs_ringbuf_t option \<times> rs_pool_t) option" where
  "rs_create_ringbuf os p num = do {
     let len = sizeof_rs_ringbuf_data_t * num;
     idx \<leftarrow> rs_palloc_id p (sizeof_rs_ringbuf_t + len);
     (rb, p') \<leftarrow> rs_palloc os p (sizeof_rs_ringbuf_t + len) idx;
     case rb of
       None \<Rightarrow> Some (None, p')
     | Some a \<Rightarrow>
         if unat sizeof_rs_ringbuf_t + slot_size * unat num \<le> unat (sizeof_rs_ringbuf_t + len)
         then (let start = a + unat sizeof_rs_ringbuf_t in
           Some (Some \<lparr>rb_rn = 0, rb_wn = 0, rb_num = num, rb_rp = start, rb_wp = start,
                   rb_start = start, rb_end = start + unat len, rb_id = idx,
                   rb_slots = replicate (unat num) rs_ringbuf_data_t_init\<rparr>, p'))
         else None }"

definition rs_ringbuf_get :: "rs_ringbuf_t \<Rightarrow> rs_code \<times> addr option" where
  "rs_ringbuf_get rb = (if rb_wn rb - rb_rn rb = 0 then (RS_EMPTY, None) else (RS_OK, Some (rb_rp rb)))"

text \<open>The two stores of an advance, on either side of the barrier.\<close>

definition get_move :: "rs_ringbuf_t \<Rightarrow> rs_ringbuf_t" where
  "get_move rb = rb\<lparr>rb_rp := (if rb_rp rb + slot_size = rb_end rb then rb_start rb
                              else rb_rp rb + slot_size)\<rparr>"

definition get_count :: "rs_ringbuf_t \<Rightarrow> rs_ringbuf_t" where
  "get_count rb = rb\<lparr>rb_rn := rb_rn rb + 1\<rparr>"

definition rs_ringbuf_get_advance :: "rs_ringbuf_t \<Rightarrow> rs_ringbuf_t" where
  "rs_ringbuf_get_advance rb = get_count (get_move rb)"

definition rs_ringbuf_set :: "rs_ringbuf_t \<Rightarrow> rs_code \<times> addr option" where
  "rs_ringbuf_set rb =
     (if rb_wn rb - rb_rn rb = ucast (rb_num rb) then (RS_FULL, None) else (RS_OK, Some (rb_wp rb)))"

definition set_move :: "rs_ringbuf_t \<Rightarrow> rs_ringbuf_t" where
  "set_move rb = rb\<lparr>rb_wp := (if rb_wp rb + slot_size = rb_end rb then rb_start rb
                              else rb_wp rb + slot_size)\<rparr>"

definition set_count :: "rs_ringbuf_t \<Rightarrow> rs_ringbuf_t" where
  "set_count rb = rb\<lparr>rb_wn := rb_wn rb + 1\<rparr>"

definition rs_ringbuf_set_advance :: "rs_ringbuf_t \<Rightarrow> rs_ringbuf_t" where
  "rs_ringbuf_set_advance rb = set_count (set_move rb)"

definition rs_destroy_ringbuf :: "os_mem \<Rightarrow> rs_pool_t \<Rightarrow> rs_ringbuf_t \<Rightarrow> rs_pool_t option" where
  "rs_destroy_ringbuf os p rb = rs_pfree os p (rb_start rb - unat sizeof_rs_ringbuf_t) (rb_id rb)"

text \<open>Accesses through a slot pointer.\<close>

definition slot_index :: "rs_ringbuf_t \<Rightarrow> addr \<Rightarrow> nat option" where
  "slot_index rb a =
     (if rb_start rb \<le> a \<and> (a - rb_start rb) mod slot_size = 0 \<and>
         (a - rb_start rb) div slot_size < length (rb_slots rb)
      then Some ((a - rb_start rb) div slot_size) else None)"

definition slot_read :: "rs_ringbuf_t \<Rightarrow> addr \<Rightarrow> rs_ringbuf_data_t option" where
  "slot_read rb a = map_option (\<lambda>i. rb_slots rb ! i) (slot_index rb a)"

definition slot_write :: "rs_ringbuf_t \<Rightarrow> addr \<Rightarrow> rs_ringbuf_data_t \<Rightarrow> rs_ringbuf_t option" where
  "slot_write rb a d = map_option (\<lambda>i. rb\<lparr>rb_slots := (rb_slots rb)[i := d]\<rparr>) (slot_index rb a)"

text \<open>
  \<^verbatim>\<open>rs_ringbuf_spin_wait\<close>: the k-th look comes after \<^verbatim>\<open>n = 1 << k\<close> pauses and
  sees the ring as the other thread has left it by then; \<^verbatim>\<open>RS_RINGBUF_SPIN\<close> is 65536 + 1.
\<close>

function spin_loop :: "(nat \<Rightarrow> rs_ringbuf_t) \<Rightarrow> nat \<Rightarrow> rs_code \<Rightarrow> rs_code \<times> addr option" where
  "spin_loop rbs k err =
     (if (2::nat) ^ k < 65536 + 1
      then (case rs_ringbuf_get (rbs k) of
          (r, d) \<Rightarrow> if r = RS_OK then (RS_OK, d) else spin_loop rbs (Suc k) r)
      else (err, None))"
  by pat_completeness auto
termination by (relation "measure (\<lambda>(rbs, k, err). 65537 - (2::nat) ^ k)")
    (auto intro!: diff_less_mono2)

declare spin_loop.simps [simp del]

definition rs_ringbuf_spin_wait :: "(nat \<Rightarrow> rs_ringbuf_t) \<Rightarrow> rs_code \<times> addr option" where
  "rs_ringbuf_spin_wait rbs = spin_loop rbs 0 RS_OK"

section \<open>Representation\<close>

text \<open>
  \<open>ring_rep rb R W\<close>: R slots have been released and W published since the ring was made. The
  first flag says that the reader has moved \<^verbatim>\<open>rp\<close> but not yet counted, the second the same
  for the writer.
\<close>

definition ring_rep :: "rs_ringbuf_t \<Rightarrow> nat \<Rightarrow> bool \<Rightarrow> nat \<Rightarrow> bool \<Rightarrow> bool" where
  "ring_rep rb R rmoved W wmoved \<longleftrightarrow>
     rb_num rb \<noteq> 0 \<and> length (rb_slots rb) = unat (rb_num rb) \<and>
     rb_end rb = rb_start rb + slot_size * unat (rb_num rb) \<and>
     rb_rn rb = of_nat R \<and> rb_wn rb = of_nat W \<and> R \<le> W \<and> W \<le> R + unat (rb_num rb) \<and>
     rb_rp rb = rb_start rb + slot_size * ((R + of_bool rmoved) mod unat (rb_num rb)) \<and>
     rb_wp rb = rb_start rb + slot_size * ((W + of_bool wmoved) mod unat (rb_num rb))"

text \<open>The slot the k-th element goes through.\<close>

definition ring_slot :: "rs_ringbuf_t \<Rightarrow> nat \<Rightarrow> rs_ringbuf_data_t" where
  "ring_slot rb k = rb_slots rb ! (k mod unat (rb_num rb))"

definition ring_contents :: "rs_ringbuf_t \<Rightarrow> nat \<Rightarrow> nat \<Rightarrow> rs_ringbuf_data_t list" where
  "ring_contents rb R W = map (ring_slot rb) [R ..< W]"

lemma ring_num_pos: "ring_rep rb R rm W wm \<Longrightarrow> 0 < unat (rb_num rb)"
  by (simp add: ring_rep_def unat_gt_0)

lemma ring_difference:
  assumes "ring_rep rb R rm W wm"
  shows "rb_wn rb - rb_rn rb = of_nat (W - R)" and "unat (of_nat (W - R) :: u64) = W - R"
proof -
  show "rb_wn rb - rb_rn rb = of_nat (W - R)" using assms by (simp add: ring_rep_def)
  have "W - R \<le> unat (rb_num rb)" using assms by (auto simp: ring_rep_def)
  also have "\<dots> < 2 ^ 32" using unsigned_less [of "rb_num rb", where ?'a = nat] by simp
  finally show "unat (of_nat (W - R) :: u64) = W - R" by (simp add: unat_of_nat)
qed

lemma ring_empty: "ring_rep rb R rm W wm \<Longrightarrow> rb_wn rb - rb_rn rb = 0 \<longleftrightarrow> W = R"
  using ring_difference [of rb R rm W wm] by (auto simp: word_unat_eq_iff ring_rep_def)

lemma unat_num64: "unat (ucast (n :: u32) :: u64) = unat n"
  using unsigned_less [of n, where ?'a = nat] by (simp add: unsigned_ucast_eq take_bit_eq_mod)

lemma ring_full:
  assumes "ring_rep rb R rm W wm"
  shows "rb_wn rb - rb_rn rb = ucast (rb_num rb) \<longleftrightarrow> W = R + unat (rb_num rb)"
proof -
  have "rb_wn rb - rb_rn rb = ucast (rb_num rb) \<longleftrightarrow> W - R = unat (rb_num rb)"
    using ring_difference [OF assms] by (simp add: word_unat_eq_iff unat_num64)
  moreover have "R \<le> W" using assms by (simp add: ring_rep_def)
  ultimately show ?thesis by auto
qed

text \<open>Stepping a slot pointer.\<close>

lemma next_slot:
  assumes "0 < n" and "a = start + slot_size * (k mod n)"
  shows "(if a + slot_size = start + slot_size * n then start else a + slot_size) =
    start + slot_size * (Suc k mod n)"
proof -
  have "k mod n < n" using assms(1) by simp
  then show ?thesis using assms by (auto simp: mod_Suc)
qed

lemma ring_get_move: "ring_rep rb R False W wm \<Longrightarrow> ring_rep (get_move rb) R True W wm"
  using next_slot [OF ring_num_pos, of rb R False W wm "rb_rp rb" "rb_start rb" R]
  by (simp add: ring_rep_def get_move_def)

lemma ring_get_count: "ring_rep rb R True W wm \<Longrightarrow> R < W \<Longrightarrow> ring_rep (get_count rb) (Suc R) False W wm"
  by (simp add: ring_rep_def get_count_def add.commute)

lemma ring_set_move: "ring_rep rb R rm W False \<Longrightarrow> ring_rep (set_move rb) R rm W True"
  using next_slot [OF ring_num_pos, of rb R rm W False "rb_wp rb" "rb_start rb" W]
  by (simp add: ring_rep_def set_move_def)

lemma ring_set_count:
  "ring_rep rb R rm W True \<Longrightarrow> W < R + unat (rb_num rb) \<Longrightarrow> ring_rep (set_count rb) R rm (Suc W) False"
  by (simp add: ring_rep_def set_count_def add.commute)

lemma ring_slot_index:
  assumes "ring_rep rb R rm W wm"
  shows "slot_index rb (rb_start rb + slot_size * (k mod unat (rb_num rb))) = Some (k mod unat (rb_num rb))"
  using assms ring_num_pos [OF assms] by (simp add: slot_index_def ring_rep_def)

lemma ring_slot_moves [simp]:
  "ring_slot (get_move rb) = ring_slot rb" "ring_slot (get_count rb) = ring_slot rb"
  "ring_slot (set_move rb) = ring_slot rb" "ring_slot (set_count rb) = ring_slot rb"
  by (simp_all add: fun_eq_iff ring_slot_def get_move_def get_count_def set_move_def set_count_def)

lemma ring_num_moves [simp]:
  "rb_num (get_move rb) = rb_num rb" "rb_num (get_count rb) = rb_num rb"
  "rb_num (set_move rb) = rb_num rb" "rb_num (set_count rb) = rb_num rb"
  by (simp_all add: get_move_def get_count_def set_move_def set_count_def)

lemma mod_neq_in_window:
  fixes k w n :: nat
  assumes "k < w" and "w < k + n"
  shows "k mod n \<noteq> w mod n"
proof
  assume "k mod n = w mod n"
  then have "w mod n = k mod n" by simp
  then have "n dvd w - k" using assms by (simp add: mod_eq_dvd_iff_nat less_imp_le)
  moreover have "0 < w - k" "w - k < n" using assms by linarith+
  ultimately show False by (simp add: nat_dvd_not_less)
qed

text \<open>Filling the slot behind the last published element does not touch the others.\<close>

lemma ring_write:
  assumes rep: "ring_rep rb R rm W wm" and room: "W < R + unat (rb_num rb)"
  shows "\<exists>rb'. slot_write rb (rb_start rb + slot_size * (W mod unat (rb_num rb))) d = Some rb' \<and>
    ring_rep rb' R rm W wm \<and> ring_slot rb' W = d \<and> rb_num rb' = rb_num rb \<and>
    (\<forall>k. R \<le> k \<longrightarrow> k < W \<longrightarrow> ring_slot rb' k = ring_slot rb k)"
proof -
  let ?n = "unat (rb_num rb)"
  let ?rb' = "rb\<lparr>rb_slots := (rb_slots rb)[W mod ?n := d]\<rparr>"
  have n: "0 < ?n" "length (rb_slots rb) = ?n" using rep ring_num_pos by (auto simp: ring_rep_def)
  have neq: "k mod ?n \<noteq> W mod ?n" if "R \<le> k" "k < W" for k
    using that room by (intro mod_neq_in_window) linarith+
  have "ring_slot ?rb' k = ring_slot rb k" if "R \<le> k" "k < W" for k
    using neq [OF that, THEN not_sym] by (simp add: ring_slot_def)
  moreover have "ring_slot ?rb' W = d" using n by (simp add: ring_slot_def)
  moreover have "ring_rep ?rb' R rm W wm" using rep by (simp add: ring_rep_def)
  ultimately show ?thesis
    using ring_slot_index [OF rep, of W] by (simp add: slot_write_def)
qed

lemma ring_read:
  "ring_rep rb R rm W wm \<Longrightarrow>
   slot_read rb (rb_start rb + slot_size * (k mod unat (rb_num rb))) = Some (ring_slot rb k)"
  by (simp add: slot_read_def ring_slot_index ring_slot_def)

lemma ring_pointers:
  "ring_rep rb R False W wm \<Longrightarrow> rb_rp rb = rb_start rb + slot_size * (R mod unat (rb_num rb))"
  "ring_rep rb R rm W False \<Longrightarrow> rb_wp rb = rb_start rb + slot_size * (W mod unat (rb_num rb))"
  by (simp_all add: ring_rep_def)


text \<open>A new ring is empty.\<close>

lemma create_ringbuf_rep:
  assumes "rs_create_ringbuf os p num = Some (Some rb, p')" and "num \<noteq> 0"
  shows "ring_rep rb 0 False 0 False" and "rb_num rb = num"
proof -
  obtain a idx where rb: "rb = \<lparr>rb_rn = 0, rb_wn = 0, rb_num = num, rb_rp = a, rb_wp = a,
       rb_start = a, rb_end = a + unat (sizeof_rs_ringbuf_data_t * num), rb_id = idx,
       rb_slots = replicate (unat num) rs_ringbuf_data_t_init\<rparr>"
    and fits: "unat sizeof_rs_ringbuf_t + slot_size * unat num \<le>
       unat (sizeof_rs_ringbuf_t + sizeof_rs_ringbuf_data_t * num)"
    using assms(1) by (auto simp: rs_create_ringbuf_def Let_def bind_eq_Some_conv
        split: option.splits if_splits)
  from fits have "unat sizeof_rs_ringbuf_t + slot_size * unat num < 2 ^ 32"
    using unsigned_less [of "sizeof_rs_ringbuf_t + sizeof_rs_ringbuf_data_t * num", where ?'a = nat]
    by simp
  then have "unat (sizeof_rs_ringbuf_data_t * num) = slot_size * unat num"
    unfolding sizeof_rs_ringbuf_data_t_def by (subst unat_mult_lem [THEN iffD1]) simp_all
  with assms(2) show "ring_rep rb 0 False 0 False" and "rb_num rb = num"
    by (simp_all add: rb ring_rep_def)
qed

section \<open>The bounded queue\<close>

locale fifo_channel =
  fixes inv :: "'s \<Rightarrow> bool" and contents :: "'s \<Rightarrow> 'a list" and cap :: "'s \<Rightarrow> nat"
    and enq :: "'s \<Rightarrow> 'a \<Rightarrow> 's option option" and deq :: "'s \<Rightarrow> ('a \<times> 's) option option"
  assumes enq_full: "inv s \<Longrightarrow> length (contents s) = cap s \<Longrightarrow> enq s x = Some None"
    and enq_room: "inv s \<Longrightarrow> length (contents s) \<noteq> cap s \<Longrightarrow>
      \<exists>s'. enq s x = Some (Some s') \<and> inv s' \<and> contents s' = contents s @ [x] \<and> cap s' = cap s"
    and deq_empty: "inv s \<Longrightarrow> contents s = [] \<Longrightarrow> deq s = Some None"
    and deq_some: "inv s \<Longrightarrow> contents s = y # ys \<Longrightarrow>
      \<exists>s'. deq s = Some (Some (y, s')) \<and> inv s' \<and> contents s' = ys \<and> cap s' = cap s"
    and bounded: "inv s \<Longrightarrow> length (contents s) \<le> cap s"

text \<open>A client runs a list of requests: an element to enqueue, or none to dequeue.\<close>

fun fifo_run ::
    "('s \<Rightarrow> 'a \<Rightarrow> 's option option) \<Rightarrow> ('s \<Rightarrow> ('a \<times> 's) option option) \<Rightarrow> 's \<Rightarrow> 'a option list \<Rightarrow>
     ('a list \<times> 'a list \<times> 's) option" where
  "fifo_run enq deq s [] = Some ([], [], s)"
| "fifo_run enq deq s (Some x # rs) = do {
     r \<leftarrow> enq s x;
     case r of
       None \<Rightarrow> fifo_run enq deq s rs
     | Some s' \<Rightarrow> do { (ins, outs, t) \<leftarrow> fifo_run enq deq s' rs; Some (x # ins, outs, t) } }"
| "fifo_run enq deq s (None # rs) = do {
     r \<leftarrow> deq s;
     case r of
       None \<Rightarrow> fifo_run enq deq s rs
     | Some (y, s') \<Rightarrow> do { (ins, outs, t) \<leftarrow> fifo_run enq deq s' rs; Some (ins, y # outs, t) } }"

context fifo_channel
begin

lemma run_fifo:
  "inv s \<Longrightarrow> \<exists>ins outs t. fifo_run enq deq s rs = Some (ins, outs, t) \<and> inv t \<and>
     contents s @ ins = outs @ contents t \<and> length (contents t) \<le> cap s"
proof (induction rs arbitrary: s)
  case Nil
  then show ?case by (simp add: bounded)
next
  case (Cons r rs)
  show ?case
  proof (cases r)
    case (Some x)
    show ?thesis
    proof (cases "length (contents s) = cap s")
      case True
      with Some Cons enq_full [OF Cons.prems True] show ?thesis by simp
    next
      case False
      obtain s' where "enq s x = Some (Some s')" "inv s'" "contents s' = contents s @ [x]" "cap s' = cap s"
        using enq_room [OF Cons.prems False] by blast
      with Some Cons.IH [of s'] show ?thesis by fastforce
    qed
  next
    case None
    show ?thesis
    proof (cases "contents s")
      case Nil
      with None Cons.IH [OF Cons.prems] deq_empty [OF Cons.prems Nil] show ?thesis by fastforce
    next
      case (Cons y ys)
      obtain s' where "deq s = Some (Some (y, s'))" "inv s'" "contents s' = ys" "cap s' = cap s"
        using deq_some [OF Cons.prems Cons] by blast
      with None Cons Cons.IH [of s'] show ?thesis by fastforce
    qed
  qed
qed

end

text \<open>What one thread does per element: look, access the slot, advance.\<close>

definition ring_put :: "rs_ringbuf_t \<Rightarrow> rs_ringbuf_data_t \<Rightarrow> rs_ringbuf_t option option" where
  "ring_put rb d =
     (case rs_ringbuf_set rb of
        (RS_OK, Some a) \<Rightarrow> do { rb' \<leftarrow> slot_write rb a d; Some (Some (rs_ringbuf_set_advance rb')) }
      | _ \<Rightarrow> Some None)"

definition ring_take :: "rs_ringbuf_t \<Rightarrow> (rs_ringbuf_data_t \<times> rs_ringbuf_t) option option" where
  "ring_take rb =
     (case rs_ringbuf_get rb of
        (RS_OK, Some a) \<Rightarrow> do { d \<leftarrow> slot_read rb a; Some (Some (d, rs_ringbuf_get_advance rb)) }
      | _ \<Rightarrow> Some None)"

definition ring_inv :: "rs_ringbuf_t \<Rightarrow> bool" where
  "ring_inv rb \<longleftrightarrow> (\<exists>R W. ring_rep rb R False W False)"

definition ring_queue :: "rs_ringbuf_t \<Rightarrow> rs_ringbuf_data_t list" where
  "ring_queue rb =
     map (\<lambda>k. rb_slots rb ! (((rb_rp rb - rb_start rb) div slot_size + k) mod unat (rb_num rb)))
       [0 ..< unat (rb_wn rb - rb_rn rb)]"

lemma ring_queue_contents:
  assumes "ring_rep rb R False W False"
  shows "ring_queue rb = ring_contents rb R W"
proof -
  have "[R ..< W] = map (\<lambda>k. R + k) [0 ..< W - R]"
    using assms by (intro nth_equalityI) (simp_all add: ring_rep_def)
  moreover have "(rb_rp rb - rb_start rb) div slot_size = R mod unat (rb_num rb)"
    using ring_pointers(1) [OF assms] by simp
  ultimately show ?thesis
    using ring_difference [OF assms]
    by (simp add: ring_queue_def ring_contents_def ring_slot_def mod_add_left_eq)
qed

lemma ring_put_full:
  assumes "ring_inv rb" and "length (ring_queue rb) = unat (rb_num rb)"
  shows "ring_put rb d = Some None"
proof -
  obtain R W where rep: "ring_rep rb R False W False" using assms(1) by (auto simp: ring_inv_def)
  have "0 < unat (rb_num rb)" using ring_num_pos [OF rep] .
  then have "W = R + unat (rb_num rb)"
    using assms(2) ring_queue_contents [OF rep] by (auto simp: ring_contents_def)
  then show ?thesis using ring_full [OF rep] by (simp add: ring_put_def rs_ringbuf_set_def)
qed

lemma ring_put_room:
  assumes "ring_inv rb" and "length (ring_queue rb) \<noteq> unat (rb_num rb)"
  shows "\<exists>rb'. ring_put rb d = Some (Some rb') \<and> ring_inv rb' \<and> ring_queue rb' = ring_queue rb @ [d] \<and>
    unat (rb_num rb') = unat (rb_num rb)"
proof -
  obtain R W where rep: "ring_rep rb R False W False" using assms(1) by (auto simp: ring_inv_def)
  then have "R \<le> W" "W \<le> R + unat (rb_num rb)" by (simp_all add: ring_rep_def)
  with assms(2) ring_queue_contents [OF rep] have room: "W < R + unat (rb_num rb)"
    by (auto simp: ring_contents_def)
  obtain rb1 where w: "slot_write rb (rb_wp rb) d = Some rb1" "ring_rep rb1 R False W False"
      "ring_slot rb1 W = d" "rb_num rb1 = rb_num rb"
      "\<forall>k. R \<le> k \<longrightarrow> k < W \<longrightarrow> ring_slot rb1 k = ring_slot rb k"
    using ring_write [OF rep room, of d] ring_pointers(2) [OF rep] by auto
  let ?rb' = "rs_ringbuf_set_advance rb1"
  have rep': "ring_rep ?rb' R False (Suc W) False"
    unfolding rs_ringbuf_set_advance_def
    using ring_set_count [OF ring_set_move [OF w(2)]] room w(4) by simp
  have "ring_put rb d = Some (Some ?rb')"
    using ring_full [OF rep] room w(1) by (simp add: ring_put_def rs_ringbuf_set_def)
  moreover have "ring_queue ?rb' = ring_queue rb @ [d]"
    using w(3,5) \<open>R \<le> W\<close> unfolding ring_queue_contents [OF rep] ring_queue_contents [OF rep']
    by (simp add: ring_contents_def rs_ringbuf_set_advance_def)
  ultimately show ?thesis
    using rep' w(4) by (auto simp: ring_inv_def rs_ringbuf_set_advance_def)
qed

lemma ring_take_empty: "ring_inv rb \<Longrightarrow> ring_queue rb = [] \<Longrightarrow> ring_take rb = Some None"
  by (auto simp: ring_take_def rs_ringbuf_get_def ring_queue_def unat_eq_zero)

lemma ring_take_some:
  assumes "ring_inv rb" and "ring_queue rb = y # ys"
  shows "\<exists>rb'. ring_take rb = Some (Some (y, rb')) \<and> ring_inv rb' \<and> ring_queue rb' = ys \<and>
    unat (rb_num rb') = unat (rb_num rb)"
proof -
  obtain R W where rep: "ring_rep rb R False W False" using assms(1) by (auto simp: ring_inv_def)
  with assms(2) have RW: "R < W" and y: "y = ring_slot rb R" and ys: "ys = map (ring_slot rb) [Suc R ..< W]"
    by (auto simp: ring_queue_contents ring_contents_def map_eq_Cons_conv upt_eq_Cons_conv)
  let ?rb' = "rs_ringbuf_get_advance rb"
  have rep': "ring_rep ?rb' (Suc R) False W False"
    unfolding rs_ringbuf_get_advance_def
    using ring_get_count [OF ring_get_move [OF rep] RW] .
  have "ring_take rb = Some (Some (y, ?rb'))"
    using ring_empty [OF rep] RW ring_read [OF rep, of R] ring_pointers(1) [OF rep] y
    by (simp add: ring_take_def rs_ringbuf_get_def)
  moreover have "ring_queue ?rb' = ys"
    unfolding ring_queue_contents [OF rep']
    by (simp add: ring_contents_def ys rs_ringbuf_get_advance_def)
  ultimately show ?thesis using rep' by (auto simp: ring_inv_def rs_ringbuf_get_advance_def)
qed

interpretation ring: fifo_channel ring_inv ring_queue "\<lambda>rb. unat (rb_num rb)" ring_put ring_take
proof unfold_locales
  fix rb assume "ring_inv rb"
  then show "length (ring_queue rb) \<le> unat (rb_num rb)"
    by (auto simp: ring_inv_def ring_queue_contents ring_contents_def ring_rep_def)
qed (rule ring_put_full ring_put_room ring_take_empty ring_take_some; assumption)+

section \<open>Two threads\<close>

text \<open>
  Where each thread is between its stores. The writer: before \<^verbatim>\<open>rs_ringbuf_set\<close>, holding a
  slot, having filled it, having moved \<^verbatim>\<open>wp\<close>; the reader likewise. The histories
  \<open>s_pub\<close> and \<open>s_got\<close> record what the writer has counted into \<^verbatim>\<open>wn\<close> and what
  the reader has read.
\<close>

datatype writer_pc = W_idle | W_slot addr | W_filled rs_ringbuf_data_t | W_moved rs_ringbuf_data_t

datatype reader_pc = R_idle | R_slot addr | R_read | R_moved

record spsc =
  s_rb :: rs_ringbuf_t
  s_w :: writer_pc
  s_r :: reader_pc
  s_pub :: "rs_ringbuf_data_t list"
  s_got :: "rs_ringbuf_data_t list"

inductive spsc_step :: "spsc \<Rightarrow> spsc \<Rightarrow> bool" where
  w_set: "s_w s = W_idle \<Longrightarrow> rs_ringbuf_set (s_rb s) = (RS_OK, Some a) \<Longrightarrow>
    spsc_step s (s\<lparr>s_w := W_slot a\<rparr>)"
| w_full: "s_w s = W_idle \<Longrightarrow> rs_ringbuf_set (s_rb s) = (RS_FULL, None) \<Longrightarrow> spsc_step s s"
| w_fill: "s_w s = W_slot a \<Longrightarrow> slot_write (s_rb s) a d = Some rb \<Longrightarrow>
    spsc_step s (s\<lparr>s_rb := rb, s_w := W_filled d\<rparr>)"
| w_move: "s_w s = W_filled d \<Longrightarrow> spsc_step s (s\<lparr>s_rb := set_move (s_rb s), s_w := W_moved d\<rparr>)"
| w_count: "s_w s = W_moved d \<Longrightarrow>
    spsc_step s (s\<lparr>s_rb := set_count (s_rb s), s_w := W_idle, s_pub := s_pub s @ [d]\<rparr>)"
| r_get: "s_r s = R_idle \<Longrightarrow> rs_ringbuf_get (s_rb s) = (RS_OK, Some a) \<Longrightarrow>
    spsc_step s (s\<lparr>s_r := R_slot a\<rparr>)"
| r_empty: "s_r s = R_idle \<Longrightarrow> rs_ringbuf_get (s_rb s) = (RS_EMPTY, None) \<Longrightarrow> spsc_step s s"
| r_read: "s_r s = R_slot a \<Longrightarrow> slot_read (s_rb s) a = Some d \<Longrightarrow>
    spsc_step s (s\<lparr>s_r := R_read, s_got := s_got s @ [d]\<rparr>)"
| r_move: "s_r s = R_read \<Longrightarrow> spsc_step s (s\<lparr>s_rb := get_move (s_rb s), s_r := R_moved\<rparr>)"
| r_count: "s_r s = R_moved \<Longrightarrow> spsc_step s (s\<lparr>s_rb := get_count (s_rb s), s_r := R_idle\<rparr>)"

definition spsc_init :: "rs_ringbuf_t \<Rightarrow> spsc" where
  "spsc_init rb = \<lparr>s_rb = rb, s_w = W_idle, s_r = R_idle, s_pub = [], s_got = []\<rparr>"

definition released :: "spsc \<Rightarrow> nat" where
  "released s = length (s_got s) - (if s_r s = R_read \<or> s_r s = R_moved then 1 else 0)"

definition w_moved_flag :: "spsc \<Rightarrow> bool" where
  "w_moved_flag s = (case s_w s of W_moved d \<Rightarrow> True | _ \<Rightarrow> False)"

definition reader_inv :: "spsc \<Rightarrow> nat \<Rightarrow> bool" where
  "reader_inv s R \<longleftrightarrow>
     (case s_r s of
        R_idle \<Rightarrow> length (s_got s) = R
      | R_slot a \<Rightarrow> length (s_got s) = R \<and> R < length (s_pub s) \<and>
          a = rb_start (s_rb s) + slot_size * (R mod unat (rb_num (s_rb s)))
      | _ \<Rightarrow> length (s_got s) = Suc R)"

definition writer_inv :: "spsc \<Rightarrow> nat \<Rightarrow> nat \<Rightarrow> bool" where
  "writer_inv s R W \<longleftrightarrow>
     (case s_w s of
        W_idle \<Rightarrow> True
      | W_slot a \<Rightarrow> W < R + unat (rb_num (s_rb s)) \<and>
          a = rb_start (s_rb s) + slot_size * (W mod unat (rb_num (s_rb s)))
      | W_filled d \<Rightarrow> W < R + unat (rb_num (s_rb s)) \<and> ring_slot (s_rb s) W = d
      | W_moved d \<Rightarrow> W < R + unat (rb_num (s_rb s)) \<and> ring_slot (s_rb s) W = d)"

definition spsc_inv :: "spsc \<Rightarrow> nat \<Rightarrow> bool" where
  "spsc_inv s R \<longleftrightarrow>
     ring_rep (s_rb s) R (s_r s = R_moved) (length (s_pub s)) (w_moved_flag s) \<and>
     (\<forall>k. R \<le> k \<longrightarrow> k < length (s_pub s) \<longrightarrow> ring_slot (s_rb s) k = s_pub s ! k) \<and>
     prefix (s_got s) (s_pub s) \<and>
     reader_inv s R \<and> writer_inv s R (length (s_pub s))"

lemma ring_start_moves [simp]:
  "rb_start (get_move rb) = rb_start rb" "rb_start (get_count rb) = rb_start rb"
  "rb_start (set_move rb) = rb_start rb" "rb_start (set_count rb) = rb_start rb"
  by (simp_all add: get_move_def get_count_def set_move_def set_count_def)

lemma slot_write_fields:
  "slot_write rb a d = Some rb' \<Longrightarrow> rb_start rb' = rb_start rb \<and> rb_num rb' = rb_num rb"
  by (auto simp: slot_write_def)

lemmas spsc_defs = spsc_inv_def reader_inv_def writer_inv_def w_moved_flag_def

lemma spsc_step_inv:
  assumes "spsc_step s t" and "spsc_inv s R"
  shows "\<exists>R'. spsc_inv t R'"
  using assms
proof (cases rule: spsc_step.cases)
  case (w_set a)
  let ?W = "length (s_pub s)"
  have rep: "ring_rep (s_rb s) R (s_r s = R_moved) ?W False"
    using assms(2) w_set by (simp add: spsc_defs)
  have "?W < R + unat (rb_num (s_rb s))" "a = rb_wp (s_rb s)"
    using w_set(3) ring_full [OF rep] rep by (auto simp: rs_ringbuf_set_def ring_rep_def split: if_splits)
  with assms(2) w_set ring_pointers(2) [OF rep] have "spsc_inv t R"
    by (simp add: spsc_defs split: reader_pc.splits)
  then show ?thesis by blast
next
  case (w_fill a d rb)
  let ?W = "length (s_pub s)"
  have rep: "ring_rep (s_rb s) R (s_r s = R_moved) ?W False"
    and room: "?W < R + unat (rb_num (s_rb s))"
    and a: "a = rb_start (s_rb s) + slot_size * (?W mod unat (rb_num (s_rb s)))"
    using assms(2) w_fill by (simp_all add: spsc_defs)
  have "spsc_inv t R"
    using assms(2) w_fill ring_write [OF rep room, of d] slot_write_fields [OF w_fill(3)] a
    by (auto simp: spsc_defs split: reader_pc.splits)
  then show ?thesis by blast
next
  case (w_move d)
  with assms(2) have "spsc_inv t R"
    by (auto simp: spsc_defs intro: ring_set_move split: reader_pc.splits)
  then show ?thesis by blast
next
  case (w_count d)
  then have "spsc_inv t R"
    using assms(2) by (auto simp: spsc_defs nth_append less_Suc_eq prefix_append intro: ring_set_count
        split: reader_pc.splits)
  then show ?thesis by blast
next
  case (r_get a)
  let ?W = "length (s_pub s)"
  have rep: "ring_rep (s_rb s) R False ?W (w_moved_flag s)"
    using assms(2) r_get by (simp add: spsc_inv_def)
  have "R < ?W" "a = rb_rp (s_rb s)"
    using r_get(3) ring_empty [OF rep] rep by (auto simp: rs_ringbuf_get_def ring_rep_def split: if_splits)
  with assms(2) r_get ring_pointers(1) [OF rep] have "spsc_inv t R"
    by (simp add: spsc_defs split: writer_pc.splits)
  then show ?thesis by blast
next
  case (r_read a d)
  let ?W = "length (s_pub s)"
  have rep: "ring_rep (s_rb s) R False ?W (w_moved_flag s)" and R: "length (s_got s) = R" "R < ?W"
    and a: "a = rb_start (s_rb s) + slot_size * (R mod unat (rb_num (s_rb s)))"
    using assms(2) r_read by (simp_all add: spsc_defs)
  have "d = s_pub s ! R"
    using ring_read [OF rep, of R] r_read(3) a R assms(2) by (simp add: spsc_inv_def)
  moreover from this R assms(2) have "prefix (s_got s @ [d]) (s_pub s)"
    using append_one_prefix [of "s_got s" "s_pub s"] by (simp add: spsc_inv_def)
  ultimately have "spsc_inv t R"
    using R assms(2) r_read by (auto simp: spsc_defs split: writer_pc.splits)
  then show ?thesis by blast
next
  case r_move
  with assms(2) have "spsc_inv t R"
    by (auto simp: spsc_defs intro: ring_get_move split: writer_pc.splits)
  then show ?thesis by blast
next
  case r_count
  with assms(2) have "length (s_got s) = Suc R" "length (s_got s) \<le> length (s_pub s)"
    by (auto simp: spsc_defs dest: prefix_length_le)
  with assms(2) r_count have "spsc_inv t (Suc R)"
    by (auto simp: spsc_defs intro: ring_get_count split: writer_pc.splits)
  then show ?thesis by blast
qed blast+


inductive spsc_reach :: "rs_ringbuf_t \<Rightarrow> spsc \<Rightarrow> bool" for rb where
  init: "spsc_reach rb (spsc_init rb)"
| step: "spsc_reach rb s \<Longrightarrow> spsc_step s t \<Longrightarrow> spsc_reach rb t"

lemma spsc_reach_inv:
  "spsc_reach rb s \<Longrightarrow> ring_rep rb 0 False 0 False \<Longrightarrow> \<exists>R. spsc_inv s R"
proof (induction rule: spsc_reach.induct)
  case init
  then have "spsc_inv (spsc_init rb) 0" by (simp add: spsc_defs spsc_init_def)
  then show ?case by blast
next
  case (step s t)
  then show ?case using spsc_step_inv by blast
qed

lemma ringbuf_get_cases:
  "rs_ringbuf_get rb = (RS_EMPTY, None) \<or> (\<exists>a. rs_ringbuf_get rb = (RS_OK, Some a))"
  by (simp add: rs_ringbuf_get_def)

lemma ringbuf_set_cases:
  "rs_ringbuf_set rb = (RS_FULL, None) \<or> (\<exists>a. rs_ringbuf_set rb = (RS_OK, Some a))"
  by (simp add: rs_ringbuf_set_def)

lemma spin_loop_result:
  "k \<le> 17 \<Longrightarrow> spin_loop rbs k err =
    (case List.find (\<lambda>j. fst (rs_ringbuf_get (rbs j)) = RS_OK) [k ..< 17] of
       Some j \<Rightarrow> rs_ringbuf_get (rbs j)
     | None \<Rightarrow> (if k < 17 then RS_EMPTY else err, None))"
proof (induction "17 - k" arbitrary: k err)
  case 0
  then show ?case by (subst spin_loop.simps) simp
next
  case (Suc n)
  then have k: "k < 17" by simp
  then have "(2 :: nat) ^ k \<le> 2 ^ 16" by (intro power_increasing) simp_all
  then have "(2 :: nat) ^ k < 65536 + 1" by simp
  moreover have "[k ..< 17] = k # [Suc k ..< 17]" using k by (simp add: upt_conv_Cons)
  moreover have "fst (rs_ringbuf_get (rbs k)) \<noteq> RS_OK \<Longrightarrow> rs_ringbuf_get (rbs k) = (RS_EMPTY, None)"
    using ringbuf_get_cases [of "rbs k"] by auto
  ultimately show ?case
    using Suc.hyps(1) [of "Suc k" RS_EMPTY] Suc.hyps(2) k
    by (subst spin_loop.simps) (auto split: prod.splits option.splits)
qed

section \<open>Properties\<close>

definition made_ring :: "rs_ringbuf_t option \<times> rs_pool_t" where
  "made_ring = the (rs_create_ringbuf (os_grant 7) (conf_pool RS_POOL_PREALLOC) 2)"

lemma made_ring_created:
  "rs_create_ringbuf (os_grant 7) (conf_pool RS_POOL_PREALLOC) 2 =
     Some (Some (the (fst made_ring)), snd made_ring)" "(2 :: u32) \<noteq> 0"
proof -
  have "\<not> Option.is_none (rs_create_ringbuf (os_grant 7) (conf_pool RS_POOL_PREALLOC) 2)"
    "\<not> Option.is_none (fst made_ring)" by code_simp+
  then show "rs_create_ringbuf (os_grant 7) (conf_pool RS_POOL_PREALLOC) 2 =
     Some (Some (the (fst made_ring)), snd made_ring)"
    by (metis computes_Some made_ring_def prod.collapse)
qed simp

definition data_of :: "u32 \<Rightarrow> rs_ringbuf_data_t" where
  "data_of k = \<lparr>d_len = k, d_data = Some (unat k), d_id = 0\<rparr>"



text \<open>
  C2. With the writer and the reader interleaved at every store, the reader has read a prefix of
  what the writer has published, at most as many elements as there are slots are in flight, and
  the slot the writer fills is never the slot the reader reads.
\<close>

theorem ringbuf_threads_safe:
  assumes "rs_create_ringbuf os p num = Some (Some rb, p')" and "num \<noteq> 0"
    and "spsc_reach rb s"
  shows "prefix (s_got s) (s_pub s) \<and> length (s_pub s) \<le> length (s_got s) + unat (rb_num (s_rb s)) \<and>
    \<not> (\<exists>a. s_w s = W_slot a \<and> s_r s = R_slot a)"
proof -
  obtain R where inv: "spsc_inv s R"
    using spsc_reach_inv [OF assms(3)] create_ringbuf_rep [OF assms(1,2)] by blast
  then have R: "R \<le> length (s_got s)" by (auto simp: spsc_defs split: reader_pc.splits)
  have "length (s_pub s) \<le> R + unat (rb_num (s_rb s))" using inv by (simp add: spsc_inv_def ring_rep_def)
  moreover have "\<not> (\<exists>a. s_w s = W_slot a \<and> s_r s = R_slot a)"
    using inv mod_neq_in_window [of R "length (s_pub s)" "unat (rb_num (s_rb s))"]
    by (auto simp: spsc_defs)
  ultimately show ?thesis using inv R by (simp add: spsc_inv_def)
qed

theorem ringbuf_threads_safe_witness:
  "prefix (s_got (spsc_init (the (fst made_ring))\<lparr>s_w := W_slot 13992\<rparr>)) []"
proof -
  let ?s = "spsc_init (the (fst made_ring))"
  have "rs_ringbuf_set (the (fst made_ring)) = (RS_OK, Some 13992)" by code_simp
  then have "spsc_reach (the (fst made_ring)) (?s\<lparr>s_w := W_slot 13992\<rparr>)"
    by (intro spsc_reach.step [OF spsc_reach.init] spsc_step.w_set) (simp_all add: spsc_init_def)
  from ringbuf_threads_safe [OF made_ring_created this] show ?thesis by (simp add: spsc_init_def)
qed



text \<open>
  Waiting looks 17 times: it answers with the first look that finds an element, and EMPTY when
  none of them does.
\<close>

theorem ringbuf_spin_wait_looks:
  "rs_ringbuf_spin_wait rbs =
    (case List.find (\<lambda>j. fst (rs_ringbuf_get (rbs j)) = RS_OK) [0 ..< 17] of
       Some j \<Rightarrow> rs_ringbuf_get (rbs j)
     | None \<Rightarrow> (RS_EMPTY, None))"
  unfolding rs_ringbuf_spin_wait_def
  by (subst spin_loop_result) (simp_all split: option.split)

end
