(* ===== verification/RS_TmpBuf.thy ===== *)
theory RS_TmpBuf
  imports RS_Prelude
begin

text \<open>
  Blocking I/O and the byte buffer of a connection: \<^verbatim>\<open>rs_read\<close>,
  \<^verbatim>\<open>rs_write\<close>, \<^verbatim>\<open>rs_size_read\<close> and \<^verbatim>\<open>rs_timed_select\<close> of
  \<^verbatim>\<open>src/core/rs_io.c\<close>, and the \<^verbatim>\<open>tmpbuf\<close> of \<^verbatim>\<open>src/core/rs_buf.c\<close>.
  The peer is the list of the results its system calls will give. Positions in the buffer are
  offsets from \<^verbatim>\<open>start\<close>.
\<close>

section \<open>System calls\<close>

text \<open>
  What the next calls of \<^verbatim>\<open>read\<close> find: some bytes (none: end of file), an interrupt, an
  error. A call that asks for fewer bytes leaves the others for the next one.
\<close>

datatype read_ev = Rd_data "byte list" | Rd_eintr | Rd_err

datatype write_ev = Wr_acc nat | Wr_eintr | Wr_err

text \<open>None: the call returned -1; no bytes: it returned 0.\<close>

fun rs_read :: "read_ev list \<Rightarrow> nat \<Rightarrow> byte list option \<times> read_ev list" where
  "rs_read [] count = (Some [], [])"
| "rs_read (Rd_eintr # fd) count = rs_read fd count"
| "rs_read (Rd_err # fd) count = (None, fd)"
| "rs_read (Rd_data bs # fd) count =
     (if length bs \<le> count then (Some bs, fd)
      else (Some (take count bs), Rd_data (drop count bs) # fd))"

fun rs_write :: "write_ev list \<Rightarrow> nat \<Rightarrow> nat option \<times> write_ev list" where
  "rs_write [] count = (None, [])"
| "rs_write (Wr_eintr # fd) count = rs_write fd count"
| "rs_write (Wr_err # fd) count = (None, fd)"
| "rs_write (Wr_acc n # fd) count = (Some (min n count), fd)"

text \<open>The bytes still to come before the stream ends or fails.\<close>

fun stream :: "read_ev list \<Rightarrow> byte list" where
  "stream [] = []"
| "stream (Rd_eintr # fd) = stream fd"
| "stream (Rd_err # fd) = []"
| "stream (Rd_data bs # fd) = (if bs = [] then [] else bs @ stream fd)"

lemma rs_read_stream:
  assumes "rs_read fd count = (Some bs, fd')" and "bs \<noteq> []"
  shows "stream fd = bs @ stream fd'" and "length bs \<le> count"
  using assms by (induction fd count rule: rs_read.induct) (auto split: if_splits)

lemma rs_read_chunks:
  assumes "rs_read fd count = (res, fd')" and "\<forall>bs. Rd_data bs \<in> set fd \<longrightarrow> length bs \<le> m"
  shows "\<forall>bs. Rd_data bs \<in> set fd' \<longrightarrow> length bs \<le> m" and "\<forall>bs. res = Some bs \<longrightarrow> length bs \<le> m"
proof -
  have "(\<forall>bs. Rd_data bs \<in> set fd' \<longrightarrow> length bs \<le> m) \<and> (\<forall>bs. res = Some bs \<longrightarrow> length bs \<le> m)"
    using assms
  proof (induction fd count rule: rs_read.induct)
    case (4 bs fd count)
    then have "length bs \<le> m" by simp
    then have "length (take count bs) \<le> m" "length (drop count bs) \<le> m" by auto
    with 4 show ?case by (auto split: if_splits)
  qed auto
  then show "\<forall>bs. Rd_data bs \<in> set fd' \<longrightarrow> length bs \<le> m" and "\<forall>bs. res = Some bs \<longrightarrow> length bs \<le> m"
    by blast+
qed

text \<open>
  The loop of \<^verbatim>\<open>rs_size_read\<close>: \<open>got\<close> is what has been stored so far.
\<close>

function size_read_loop :: "read_ev list \<Rightarrow> byte list \<Rightarrow> nat \<Rightarrow> rs_code \<times> byte list \<times> read_ev list" where
  "size_read_loop fd got sz =
     (if length got < sz then
        (case rs_read fd (sz - length got) of
           (Some (b # bs), fd') \<Rightarrow> size_read_loop fd' (got @ b # bs) sz
         | (_, fd') \<Rightarrow> (RS_ERR, got, fd'))
      else (RS_OK, got, fd))"
  by pat_completeness auto
termination
  by (relation "measure (\<lambda>(fd, got, sz). sz - length got)") auto

declare size_read_loop.simps [simp del]

definition rs_size_read :: "read_ev list \<Rightarrow> nat \<Rightarrow> rs_code \<times> byte list \<times> read_ev list" where
  "rs_size_read fd sz = size_read_loop fd [] sz"

text \<open>
  \<^verbatim>\<open>rs_timed_select\<close> calls \<^verbatim>\<open>select\<close> once, before its loop: after an interrupt
  the loop looks at the same result again. The result is one of these; the loop is given fuel.
\<close>

datatype select_ev = Sel_timeout | Sel_eintr | Sel_err | Sel_ready | Sel_other

fun timed_select_loop :: "nat \<Rightarrow> select_ev \<Rightarrow> rs_code option" where
  "timed_select_loop 0 ready = None"
| "timed_select_loop (Suc fuel) ready =
     (case ready of
        Sel_timeout \<Rightarrow> Some RS_TIMEDOUT
      | Sel_eintr \<Rightarrow> timed_select_loop fuel ready
      | Sel_err \<Rightarrow> Some RS_ERR
      | Sel_other \<Rightarrow> Some RS_ERR
      | Sel_ready \<Rightarrow> Some RS_OK)"

section \<open>The connection buffer\<close>

record rs_buf_t =
  b_mem :: "byte list" \<comment> \<open>from \<^verbatim>\<open>start\<close> to \<^verbatim>\<open>end\<close>\<close>
  b_pos :: nat
  b_last :: nat
  b_size :: u32

text \<open>The argument is the fresh memory behind the header, none if \<^verbatim>\<open>malloc\<close> fails.\<close>

definition rs_create_tmpbuf :: "byte list option \<Rightarrow> u32 \<Rightarrow> rs_buf_t option" where
  "rs_create_tmpbuf fresh sz =
     map_option (\<lambda>mem. \<lparr>b_mem = mem, b_pos = 0, b_last = 0, b_size = sz\<rparr>) fresh"

text \<open>What the loop sends is returned with the code.\<close>

function send_loop :: "write_ev list \<Rightarrow> rs_buf_t \<Rightarrow> byte list \<Rightarrow>
    (rs_code \<times> byte list \<times> rs_buf_t \<times> write_ev list) option" where
  "send_loop fd b sent =
     (if b_last b - b_pos b = 0
      then Some (RS_OK, sent, b\<lparr>b_pos := 0, b_last := 0\<rparr>, fd)
      else case rs_write fd (b_last b - b_pos b) of
          (None, fd') \<Rightarrow> Some (RS_ERR, sent, b, fd')
        | (Some n, fd') \<Rightarrow>
            if n = 0 then Some (RS_ERR, sent, b, fd')
            else do {
              bs \<leftarrow> mem_read (b_mem b) (b_pos b) n;
              send_loop fd' (b\<lparr>b_pos := b_pos b + n\<rparr>) (sent @ bs) })"
  by pat_completeness auto
termination
  by (relation "measure (\<lambda>(fd, b, sent). b_last b - b_pos b)") auto


declare send_loop.simps [simp del]

definition rs_send_tmpbuf :: "write_ev list \<Rightarrow> rs_buf_t \<Rightarrow>
    (rs_code \<times> byte list \<times> rs_buf_t \<times> write_ev list) option" where
  "rs_send_tmpbuf fd b =
     (if b_last b - b_pos b = 0 then Some (RS_OK, [], b, fd) else send_loop fd b [])"

text \<open>
  The refill of \<^verbatim>\<open>rs_recv_tmpbuf\<close>: every \<^verbatim>\<open>read\<close> asks for
  \<^verbatim>\<open>b->size\<close> bytes at \<^verbatim>\<open>b->last\<close>; bytes that do not fit behind
  \<^verbatim>\<open>last\<close> are a write out of bounds. s bytes are needed from \<^verbatim>\<open>pos\<close> on.
\<close>

fun recv_loop :: "nat \<Rightarrow> read_ev list \<Rightarrow> rs_buf_t \<Rightarrow> nat \<Rightarrow> (rs_code \<times> rs_buf_t \<times> read_ev list) option" where
  "recv_loop 0 fd b s = None"
| "recv_loop (Suc fuel) fd b s =
     (case rs_read fd (unat (b_size b)) of
        (Some (c # cs), fd') \<Rightarrow> do {
          mem \<leftarrow> mem_write (b_mem b) (b_last b) (c # cs);
          let b' = b\<lparr>b_mem := mem, b_last := b_last b + length (c # cs)\<rparr>;
          if b_last b' - b_pos b' < s then recv_loop fuel fd' b' s else Some (RS_OK, b', fd') }
      | (_, fd') \<Rightarrow> Some (RS_ERR, b, fd'))"

text \<open>The bytes stored through \<^verbatim>\<open>data\<close> are returned with the code; s rounds are enough.\<close>

definition rs_recv_tmpbuf :: "read_ev list \<Rightarrow> rs_buf_t \<Rightarrow> u32 \<Rightarrow>
    (rs_code \<times> byte list \<times> rs_buf_t \<times> read_ev list) option" where
  "rs_recv_tmpbuf fd b sz =
     (if sz > b_size b then Some (RS_ERR, [], b, fd)
      else let l = b_last b - b_pos b in
        if unat sz \<le> l then do {
          data \<leftarrow> mem_read (b_mem b) (b_pos b) (unat sz);
          Some (RS_OK, data, b\<lparr>b_pos := b_pos b + unat sz\<rparr>, fd) }
        else do {
          let s = unat sz - l;
          have \<leftarrow> mem_read (b_mem b) (b_pos b) l;
          (r, b', fd') \<leftarrow> recv_loop s fd (b\<lparr>b_pos := 0, b_last := 0\<rparr>) s;
          if r \<noteq> RS_OK then Some (RS_ERR, have, b', fd')
          else do {
            rest \<leftarrow> mem_read (b_mem b') (b_pos b') s;
            Some (RS_OK, have @ rest, b'\<lparr>b_pos := b_pos b' + s\<rparr>, fd') } })"

text \<open>Positions stay ordered and inside the object.\<close>

definition buf_ok :: "rs_buf_t \<Rightarrow> bool" where
  "buf_ok b \<longleftrightarrow> b_pos b \<le> b_last b \<and> b_last b \<le> length (b_mem b) \<and> length (b_mem b) = unat (b_size b)"

definition unread :: "rs_buf_t \<Rightarrow> byte list" where
  "unread b = drop (b_pos b) (take (b_last b) (b_mem b))"

lemma length_unread [simp]: "buf_ok b \<Longrightarrow> length (unread b) = b_last b - b_pos b"
  by (auto simp: buf_ok_def unread_def)

lemma unread_append:
  assumes "buf_ok b" and "mem_write (b_mem b) (b_last b) bs = Some mem"
  shows "buf_ok (b\<lparr>b_mem := mem, b_last := b_last b + length bs\<rparr>)"
    and "unread (b\<lparr>b_mem := mem, b_last := b_last b + length bs\<rparr>) = unread b @ bs"
  using assms by (auto simp: buf_ok_def unread_def mem_write_def split: if_splits)

lemma unread_advance:
  assumes "buf_ok b" and "n \<le> b_last b - b_pos b"
  shows "mem_read (b_mem b) (b_pos b) n = Some (take n (unread b))"
    and "buf_ok (b\<lparr>b_pos := b_pos b + n\<rparr>)"
    and "unread (b\<lparr>b_pos := b_pos b + n\<rparr>) = drop n (unread b)"
  using assms by (auto simp: buf_ok_def unread_def mem_read_def take_drop add.commute)

section \<open>Loops\<close>

lemma size_read_loop_result:
  "length got \<le> sz \<Longrightarrow> size_read_loop fd got sz = (r, got', fd') \<Longrightarrow>
   (r = RS_OK \<or> r = RS_ERR) \<and> (r = RS_OK \<longrightarrow> length got' = sz \<and> got @ stream fd = got' @ stream fd')"
proof (induction fd got sz rule: size_read_loop.induct)
  case (1 fd got sz)
  show ?case
  proof (cases "length got < sz")
    case True
    obtain res fd1 where rd: "rs_read fd (sz - length got) = (res, fd1)" by fastforce
    show ?thesis
    proof (cases "res = None \<or> res = Some []")
      case True
      with "1.prems" rd \<open>length got < sz\<close> show ?thesis
        by (subst (asm) size_read_loop.simps) auto
    next
      case False
      then obtain b bs where res: "res = Some (b # bs)" by (cases res) (auto simp: neq_Nil_conv)
      with rd rs_read_stream [of fd "sz - length got" "b # bs" fd1]
      have st: "stream fd = (b # bs) @ stream fd1" and len: "length (got @ b # bs) \<le> sz"
        using "1.prems"(1) by auto
      have "size_read_loop fd1 (got @ b # bs) sz = (r, got', fd')"
        using "1.prems"(2) True rd res by (subst (asm) size_read_loop.simps) simp
      from "1.IH" [OF True rd [symmetric] res refl len this] st show ?thesis by simp
    qed
  next
    case False
    with "1.prems" show ?thesis by (subst (asm) size_read_loop.simps) auto
  qed
qed

lemma recv_loop_result:
  "buf_ok b \<Longrightarrow> recv_loop fuel fd b s = Some (r, b', fd') \<Longrightarrow>
   buf_ok b' \<and> (r = RS_OK \<or> r = RS_ERR) \<and> b_pos b' = b_pos b \<and> b_size b' = b_size b \<and>
   (r = RS_OK \<longrightarrow> s \<le> b_last b' - b_pos b' \<and> unread b @ stream fd = unread b' @ stream fd')"
proof (induction fuel arbitrary: fd b)
  case (Suc fuel)
  obtain res fd1 where rd: "rs_read fd (unat (b_size b)) = (res, fd1)" by fastforce
  show ?case
  proof (cases "res = None \<or> res = Some []")
    case True
    with Suc.prems rd show ?thesis by (auto split: option.splits list.splits)
  next
    case False
    then obtain c cs where res: "res = Some (c # cs)" by (cases res) (auto simp: neq_Nil_conv)
    with Suc.prems(2) rd obtain mem where mem: "mem_write (b_mem b) (b_last b) (c # cs) = Some mem"
      by (auto simp: bind_eq_Some_conv)
    let ?b = "b\<lparr>b_mem := mem, b_last := b_last b + length (c # cs)\<rparr>"
    have st: "stream fd = (c # cs) @ stream fd1" using rs_read_stream [of fd _ "c # cs" fd1] rd res by simp
    note app = unread_append [OF Suc.prems(1) mem]
    show ?thesis
    proof (cases "b_last ?b - b_pos ?b < s")
      case True
      with Suc.prems(2) rd res mem have "recv_loop fuel fd1 ?b s = Some (r, b', fd')"
        by (simp add: Let_def)
      from Suc.IH [OF app(1) this] app(2) st Suc.prems(1) show ?thesis by (auto simp: buf_ok_def)
    next
      case False
      with Suc.prems(2) rd res mem have "b' = ?b" "r = RS_OK" "fd' = fd1" by (auto simp: Let_def)
      with app st False Suc.prems(1) show ?thesis by (auto simp: buf_ok_def)
    qed
  qed
qed simp

text \<open>As many rounds as bytes are wanted are enough: only an overflow stops the loop.\<close>

lemma recv_loop_fuel:
  "buf_ok b \<Longrightarrow> s \<le> fuel + (b_last b - b_pos b) \<Longrightarrow> 0 < fuel \<Longrightarrow>
   recv_loop fuel fd b s = recv_loop (fuel + k) fd b s"
proof (induction fuel arbitrary: fd b)
  case (Suc fuel)
  obtain res fd1 where rd: "rs_read fd (unat (b_size b)) = (res, fd1)" by fastforce
  show ?case
  proof (cases "res = None \<or> res = Some []")
    case True
    with rd show ?thesis by auto
  next
    case False
    then obtain c cs where res: "res = Some (c # cs)" by (cases res) (auto simp: neq_Nil_conv)
    show ?thesis
    proof (cases "mem_write (b_mem b) (b_last b) (c # cs)")
      case None
      with rd res show ?thesis by simp
    next
      case (Some mem)
      let ?b = "b\<lparr>b_mem := mem, b_last := b_last b + length (c # cs)\<rparr>"
      note app = unread_append [OF Suc.prems(1) Some]
      have more: "b_last ?b - b_pos ?b > b_last b - b_pos b"
        using Suc.prems(1) by (auto simp: buf_ok_def)
      show ?thesis
      proof (cases "b_last ?b - b_pos ?b < s")
        case True
        with more Suc.prems have "s \<le> fuel + (b_last ?b - b_pos ?b)" "0 < fuel" by linarith+
        from Suc.IH [OF app(1) this] rd res Some show ?thesis by (simp add: Let_def)
      next
        case False
        with rd res Some show ?thesis by (simp add: Let_def)
      qed
    qed
  qed
qed simp

lemma send_loop_result:
  "buf_ok b \<Longrightarrow> \<exists>r out b' fd'. send_loop fd b sent = Some (r, sent @ out, b', fd') \<and> buf_ok b' \<and>
     (r = RS_OK \<longrightarrow> out = unread b \<and> b_pos b' = 0 \<and> b_last b' = 0) \<and>
     (r \<noteq> RS_OK \<longrightarrow> r = RS_ERR \<and> unread b = out @ unread b')"
proof (induction fd b sent rule: send_loop.induct)
  case (1 fd b sent)
  note unf = send_loop.simps [of fd b sent]
  show ?case
  proof (cases "b_last b - b_pos b = 0")
    case True
    with "1.prems" show ?thesis by (subst unf) (simp add: unread_def buf_ok_def)
  next
    case False
    obtain res fd1 where wr: "rs_write fd (b_last b - b_pos b) = (res, fd1)" by fastforce
    show ?thesis
    proof (cases "res = None \<or> res = Some 0")
      case True
      with False wr "1.prems" show ?thesis by (subst unf) auto
    next
      case nz: False
      then obtain n where res: "res = Some n" "n \<noteq> 0" by auto
      have "n \<le> b_last b - b_pos b"
        using wr res(1) by (induction fd "b_last b - b_pos b" rule: rs_write.induct) auto
      note adv = unread_advance [OF "1.prems" this]
      let ?b = "b\<lparr>b_pos := b_pos b + n\<rparr>"
      obtain r out b' fd' where loop: "send_loop fd1 ?b (sent @ take n (unread b)) =
          Some (r, (sent @ take n (unread b)) @ out, b', fd')" "buf_ok b'"
        "r = RS_OK \<Longrightarrow> out = drop n (unread b) \<and> b_pos b' = 0 \<and> b_last b' = 0"
        "r \<noteq> RS_OK \<Longrightarrow> r = RS_ERR \<and> drop n (unread b) = out @ unread b'"
        using "1.IH" [OF False wr [symmetric] res(1) res(2) adv(1) adv(2)] adv(3) by auto
      have "send_loop fd b sent = Some (r, sent @ (take n (unread b) @ out), b', fd')"
        using wr res False adv(1) loop(1) by (subst unf) simp
      moreover have "r \<noteq> RS_OK \<Longrightarrow> unread b = (take n (unread b) @ out) @ unread b'"
        using loop(4) append_take_drop_id [of n "unread b"] by (metis append.assoc)
      moreover have "r = RS_OK \<Longrightarrow> take n (unread b) @ out = unread b"
        using loop(3) by simp
      ultimately show ?thesis using loop by blast
    qed
  qed
qed

lemma recv_loop_defined:
  assumes "\<forall>bs. Rd_data bs \<in> set fd \<longrightarrow> length bs \<le> m" and "buf_ok b"
    and "b_last b - b_pos b < s" and "b_pos b + s + m \<le> Suc (unat (b_size b))"
    and "s \<le> fuel + (b_last b - b_pos b)"
  shows "recv_loop fuel fd b s \<noteq> None"
  using assms
proof (induction fuel arbitrary: fd b)
  case (Suc fuel)
  obtain res fd1 where rd: "rs_read fd (unat (b_size b)) = (res, fd1)" by fastforce
  note sub = rs_read_chunks [OF rd Suc.prems(1)]
  show ?case
  proof (cases "res = None \<or> res = Some []")
    case True
    with rd show ?thesis by auto
  next
    case False
    then obtain c cs where res: "res = Some (c # cs)" by (cases res) (auto simp: neq_Nil_conv)
    let ?n = "length (c # cs)"
    have "?n \<le> m" using sub(2) res by auto
    with Suc.prems(2-4) have "b_last b + ?n \<le> length (b_mem b)" by (auto simp: buf_ok_def)
    then obtain mem where mem: "mem_write (b_mem b) (b_last b) (c # cs) = Some mem"
      by (simp add: mem_write_def)
    let ?b = "b\<lparr>b_mem := mem, b_last := b_last b + ?n\<rparr>"
    note app = unread_append [OF Suc.prems(2) mem]
    show ?thesis
    proof (cases "b_last ?b - b_pos ?b < s")
      case True
      have "s \<le> fuel + (b_last ?b - b_pos ?b)"
        using Suc.prems(2,5) by (auto simp: buf_ok_def)
      with Suc.IH [OF sub(1) app(1) True] Suc.prems(4) True rd res mem show ?thesis
        by (simp add: Let_def)
    qed (use rd res mem in \<open>simp add: Let_def\<close>)
  qed
qed simp

section \<open>Properties\<close>

definition buf8 :: "byte list \<Rightarrow> rs_buf_t" where
  "buf8 mem = \<lparr>b_mem = mem, b_pos = 0, b_last = 0, b_size = 8\<rparr>"

lemma recv_tmpbuf_ok:
  assumes "buf_ok b" and "rs_recv_tmpbuf fd b sz = Some (r, data, b', fd')"
  shows "buf_ok b' \<and> (r = RS_OK \<or> r = RS_ERR) \<and>
    (r = RS_OK \<longrightarrow> length data = unat sz \<and> unread b @ stream fd = data @ unread b' @ stream fd')"
proof (cases "unat sz \<le> b_last b - b_pos b")
  case True
  note adv = unread_advance [OF assms(1) True]
  show ?thesis
  proof (cases "sz > b_size b")
    case False
    with True assms(2) adv(1) have "r = RS_OK" "data = take (unat sz) (unread b)"
      "b' = b\<lparr>b_pos := b_pos b + unat sz\<rparr>" "fd' = fd"
      by (auto simp: rs_recv_tmpbuf_def Let_def)
    with adv True assms(1) show ?thesis by simp
  qed (use assms in \<open>simp add: rs_recv_tmpbuf_def\<close>)
next
  case False
  let ?l = "b_last b - b_pos b" and ?b0 = "b\<lparr>b_pos := 0, b_last := 0\<rparr>"
  let ?s = "unat sz - ?l"
  have l: "mem_read (b_mem b) (b_pos b) ?l = Some (unread b)"
    using unread_advance(1) [OF assms(1), of ?l] assms(1) by simp
  have b0: "buf_ok ?b0" "unread ?b0 = []" using assms(1) by (simp_all add: buf_ok_def unread_def)
  show ?thesis
  proof (cases "sz > b_size b")
    case nlarge: False
    obtain r1 b1 fd1 where loop: "recv_loop ?s fd ?b0 ?s = Some (r1, b1, fd1)"
      using assms(2) False nlarge l by (auto simp: rs_recv_tmpbuf_def Let_def bind_eq_Some_conv)
    note res = recv_loop_result [OF b0(1) loop]
    show ?thesis
    proof (cases "r1 = RS_OK")
      case True
      with res have enough: "?s \<le> b_last b1 - b_pos b1" and ok: "buf_ok b1" by auto
      note adv = unread_advance [OF ok enough]
      have "r = RS_OK" "data = unread b @ take ?s (unread b1)"
        "b' = b1\<lparr>b_pos := b_pos b1 + ?s\<rparr>" "fd' = fd1"
        using assms(2) False nlarge l loop True adv(1) by (auto simp: rs_recv_tmpbuf_def Let_def)
      with adv res True b0 enough ok False show ?thesis
        by (auto simp: assms(1))
    next
      case err: False
      with assms(2) False nlarge l loop res show ?thesis
        by (auto simp: rs_recv_tmpbuf_def Let_def)
    qed
  qed (use assms in \<open>simp add: rs_recv_tmpbuf_def\<close>)
qed



text \<open>
  A receive stays inside the buffer as long as no read brings more bytes than the buffer has
  room for beyond the wanted size.
\<close>

theorem recv_tmpbuf_in_bounds:
  assumes "buf_ok b" and "\<forall>bs. Rd_data bs \<in> set fd \<longrightarrow> length bs \<le> m"
    and "unat sz + m \<le> Suc (unat (b_size b))"
  shows "rs_recv_tmpbuf fd b sz \<noteq> None"
proof (cases "unat sz \<le> b_last b - b_pos b")
  case True
  with unread_advance(1) [OF assms(1) True] show ?thesis by (simp add: rs_recv_tmpbuf_def Let_def)
next
  case False
  let ?l = "b_last b - b_pos b" and ?b0 = "b\<lparr>b_pos := 0, b_last := 0\<rparr>"
  let ?s = "unat sz - ?l"
  have l: "mem_read (b_mem b) (b_pos b) ?l = Some (unread b)"
    using unread_advance(1) [OF assms(1), of ?l] assms(1) by simp
  have b0: "buf_ok ?b0" using assms(1) by (simp add: buf_ok_def)
  have "recv_loop ?s fd ?b0 ?s \<noteq> None"
    using assms False by (intro recv_loop_defined [OF assms(2) b0]) simp_all
  then obtain r b1 fd1 where loop: "recv_loop ?s fd ?b0 ?s = Some (r, b1, fd1)" by auto
  have "r = RS_OK \<Longrightarrow> mem_read (b_mem b1) (b_pos b1) ?s \<noteq> None"
    using recv_loop_result [OF b0 loop] unread_advance(1) [of b1 ?s] by auto
  with loop l False show ?thesis by (auto simp: rs_recv_tmpbuf_def Let_def)
qed

theorem recv_tmpbuf_in_bounds_witness:
  "rs_recv_tmpbuf [Rd_data [1, 2, 3], Rd_data [4, 5, 6]] (buf8 (replicate 8 0)) 6 \<noteq> None"
  by (rule recv_tmpbuf_in_bounds [where m = 3]) (auto simp: buf_ok_def buf8_def)

text \<open>
  A second read may overrun the buffer: it asks for the whole size again although the first
  bytes are taken.
\<close>

theorem recv_tmpbuf_overrun:
  "rs_recv_tmpbuf [Rd_data [1], Rd_data [2, 3, 4, 5, 6, 7, 8, 9]] (buf8 (replicate 8 0)) 4 = None"
  by code_simp

text \<open>
  C28. A send always returns; on success the peer has accepted exactly the unread bytes and the
  buffer is empty, on failure a prefix of them and the rest is still there.
\<close>

theorem send_tmpbuf_result:
  assumes "buf_ok b"
  shows "\<exists>r out b' fd'. rs_send_tmpbuf fd b = Some (r, out, b', fd') \<and> buf_ok b' \<and>
    unread b = out @ unread b' \<and> (r = RS_OK \<longrightarrow> unread b' = [])"
proof (cases "b_last b - b_pos b = 0")
  case True
  with assms show ?thesis by (simp add: rs_send_tmpbuf_def unread_def)
next
  case False
  with send_loop_result [OF assms, of fd "[]"] show ?thesis
    by (auto simp: rs_send_tmpbuf_def unread_def)
qed

theorem send_tmpbuf_result_witness:
  "\<exists>r out b' fd'. rs_send_tmpbuf [Wr_acc 1, Wr_eintr, Wr_acc 5]
     ((buf8 [1, 2, 3, 0, 0, 0, 0, 0])\<lparr>b_last := 3\<rparr>) = Some (r, out, b', fd') \<and> [1, 2, 3] = out @ unread b'"
proof -
  let ?b = "(buf8 [1, 2, 3, 0, 0, 0, 0, 0])\<lparr>b_last := 3\<rparr>"
  have "buf_ok ?b" "unread ?b = [1, 2, 3]" by (simp_all add: buf_ok_def buf8_def unread_def)
  with send_tmpbuf_result [of ?b "[Wr_acc 1, Wr_eintr, Wr_acc 5]"] show ?thesis by metis
qed

text \<open>A fixed-size read returns with exactly that many bytes of the stream, or fails.\<close>

theorem size_read_stream:
  assumes "rs_size_read fd sz = (r, got, fd')"
  shows "(r = RS_OK \<or> r = RS_ERR) \<and> (r = RS_OK \<longrightarrow> length got = sz \<and> stream fd = got @ stream fd')"
  using size_read_loop_result [of "[]" sz fd r got fd'] assms by (simp add: rs_size_read_def)

theorem size_read_stream_witness:
  "stream [Rd_data [1], Rd_eintr, Rd_data [2, 3]] = [1, 2] @ stream [Rd_data [3]]"
proof -
  have "rs_size_read [Rd_data [1], Rd_eintr, Rd_data [2, 3]] 2 = (RS_OK, [1, 2], [Rd_data [3]])"
    by code_simp
  from size_read_stream [OF this] show ?thesis by simp
qed

text \<open>
  Waiting for a descriptor returns at once with any result of \<^verbatim>\<open>select\<close> but an
  interrupt; after an interrupt it never returns.
\<close>

theorem timed_select_interrupt_hangs:
  "timed_select_loop fuel Sel_eintr = None \<and>
   (ready = Sel_eintr \<or> (\<exists>r. timed_select_loop (Suc fuel) ready = Some r))"
  by (induction fuel) (cases ready; simp)+

theorem timed_select_interrupt_hangs_witness:
  "timed_select_loop 1000 Sel_eintr = None \<and> (\<exists>r. timed_select_loop 1 Sel_timeout = Some r)"
  using timed_select_interrupt_hangs [of 1000 Sel_ready] timed_select_interrupt_hangs [of 0 Sel_timeout]
  by simp

end
