(* ===== verification/RS_Conf.thy ===== *)
theory RS_Conf
  imports RS_String RS_Shash RS_TmpBuf
begin

text \<open>
  \<^verbatim>\<open>src/core/rs_conf.c\<close>: the table of configuration variables and the parser of the
  configuration file. The parser is a state machine over single characters; a step writes through
  the pointer \<^verbatim>\<open>p\<close> into one of the local arrays k, v and m, which are 13, 4097 and 7 bytes
  long. Variables live at addresses; a string variable holds the address of a copy in the pool.
\<close>

section \<open>Variables\<close>

definition RS_CONF_NULL :: int where "RS_CONF_NULL = 0"
definition RS_CONF_INT32 :: int where "RS_CONF_INT32 = 1"
definition RS_CONF_UINT32 :: int where "RS_CONF_UINT32 = 2"
definition RS_CONF_STR :: int where "RS_CONF_STR = 3"
definition RS_CONF_DOUBLE :: int where "RS_CONF_DOUBLE = 4"

text \<open>A double is kept as the text it is computed from.\<close>

datatype conf_val = CV_int32 int | CV_uint32 u32 | CV_str addr | CV_double "byte list"

record rs_conf_data_t =
  cd_id :: int
  cd_data :: addr \<comment> \<open>where the variable is\<close>
  cd_data_id :: int
  cd_type :: int
  cd_found :: bool

record conf_env =
  ce_table :: "addr rs_shash_t" \<comment> \<open>key to the address of its \<^verbatim>\<open>rs_conf_data_t\<close>\<close>
  ce_pool :: rs_pool_t
  ce_data :: "addr \<Rightarrow> rs_conf_data_t option"
  ce_vars :: "addr \<Rightarrow> conf_val option"
  ce_strs :: "addr \<Rightarrow> byte list option"

definition sizeof_rs_conf_data_t :: u32 where "sizeof_rs_conf_data_t = 32"

definition rs_create_conf :: "os_mem \<Rightarrow> rs_pool_t \<Rightarrow> u32 \<Rightarrow> (addr rs_shash_t option \<times> rs_pool_t) option" where
  "rs_create_conf os p num = rs_create_shash os p num"

definition rs_conf_register ::
    "os_mem \<Rightarrow> conf_env \<Rightarrow> byte list \<Rightarrow> addr \<Rightarrow> int \<Rightarrow> (rs_code \<times> conf_env) option" where
  "rs_conf_register os e key var ty = do {
     idx \<leftarrow> rs_palloc_id (ce_pool e) sizeof_rs_conf_data_t;
     (d, p) \<leftarrow> rs_palloc os (ce_pool e) sizeof_rs_conf_data_t idx;
     case d of
       None \<Rightarrow> Some (RS_ERR, e\<lparr>ce_pool := p\<rparr>)
     | Some a \<Rightarrow> do {
         let data = (ce_data e)(a \<mapsto> \<lparr>cd_id = idx, cd_data = var, cd_data_id = 0, cd_type = ty,
                                      cd_found = False\<rparr>);
         (err, h, p') \<leftarrow> rs_shash_add os p (ce_table e) key a;
         Some (if err = RS_OK then RS_OK else RS_ERR,
               e\<lparr>ce_table := h, ce_pool := p', ce_data := data\<rparr>) } }"

definition rs_conf_apply ::
    "os_mem \<Rightarrow> conf_env \<Rightarrow> byte list \<Rightarrow> byte list \<Rightarrow> (rs_code \<times> conf_env) option" where
  "rs_conf_apply os e key val = do {
     found \<leftarrow> rs_shash_get (ce_table e) key;
     case found of
       None \<Rightarrow> Some (RS_ERR, e)
     | Some a \<Rightarrow> do {
         d \<leftarrow> ce_data e a;
         if cd_type d = RS_CONF_INT32 then do {
           x \<leftarrow> rs_str_to_int32 val;
           Some (RS_OK, e\<lparr>ce_vars := (ce_vars e)(cd_data d \<mapsto> CV_int32 x),
                          ce_data := (ce_data e)(a \<mapsto> d\<lparr>cd_found := True\<rparr>)\<rparr>) }
         else if cd_type d = RS_CONF_UINT32 then do {
           x \<leftarrow> rs_str_to_uint32 val;
           Some (RS_OK, e\<lparr>ce_vars := (ce_vars e)(cd_data d \<mapsto> CV_uint32 x),
                          ce_data := (ce_data e)(a \<mapsto> d\<lparr>cd_found := True\<rparr>)\<rparr>) }
         else if cd_type d = RS_CONF_DOUBLE then do {
           x \<leftarrow> c_contents val;
           Some (RS_OK, e\<lparr>ce_vars := (ce_vars e)(cd_data d \<mapsto> CV_double x),
                          ce_data := (ce_data e)(a \<mapsto> d\<lparr>cd_found := True\<rparr>)\<rparr>) }
         else if cd_type d = RS_CONF_STR then do {
           len \<leftarrow> map_option Suc (c_strlen val);
           idx \<leftarrow> rs_palloc_id (ce_pool e) (of_nat len);
           (t, p) \<leftarrow> rs_palloc os (ce_pool e) (of_nat len) idx;
           case t of
             None \<Rightarrow> Some (RS_ERR, e\<lparr>ce_pool := p,
                       ce_data := (ce_data e)(a \<mapsto> d\<lparr>cd_data_id := idx\<rparr>)\<rparr>)
           | Some s \<Rightarrow> Some (RS_OK, e\<lparr>ce_pool := p,
                       ce_strs := (ce_strs e)(s \<mapsto> take len val),
                       ce_vars := (ce_vars e)(cd_data d \<mapsto> CV_str s),
                       ce_data := (ce_data e)(a \<mapsto> d\<lparr>cd_data_id := idx, cd_found := True\<rparr>)\<rparr>) }
         else Some (RS_ERR, e) } }"

text \<open>For every node the copy of a string is released, through \<^verbatim>\<open>d->data\<close>, then the record.\<close>

fun destroy_conf_nodes ::
    "os_mem \<Rightarrow> conf_env \<Rightarrow> addr rs_shash_node_t list \<Rightarrow> rs_pool_t \<Rightarrow> rs_pool_t option" where
  "destroy_conf_nodes os e [] p = Some p"
| "destroy_conf_nodes os e (n # ns) p = do {
     d \<leftarrow> ce_data e (n_val n);
     p1 \<leftarrow> (if cd_type d = RS_CONF_STR \<and> cd_found d then rs_pfree os p (cd_data d) (cd_data_id d)
            else Some p);
     p2 \<leftarrow> rs_pfree os p1 (n_val n) (cd_id d);
     destroy_conf_nodes os e ns p2 }"

definition rs_destroy_conf :: "os_mem \<Rightarrow> conf_env \<Rightarrow> rs_pool_t option" where
  "rs_destroy_conf os e = do {
     p \<leftarrow> destroy_conf_nodes os e (concat (sh_ht (ce_table e))) (ce_pool e);
     rs_destroy_shash os p (ce_table e) }"

section \<open>The parser\<close>

datatype conf_ptr = P_null | P_m nat | P_k nat | P_v nat

record conf_st =
  st_comment :: bool
  st_key :: bool
  st_value :: bool
  st_module :: bool
  st_i :: u32
  st_p :: conf_ptr
  st_k :: "byte list"
  st_v :: "byte list"
  st_m :: "byte list"

definition conf_init :: conf_st where
  "conf_init =
     \<lparr>st_comment = False, st_key = False, st_value = False, st_module = False, st_i = 0,
      st_p = P_null, st_k = replicate 13 0, st_v = replicate 4097 0, st_m = replicate 7 0\<rparr>"

text \<open>\<^verbatim>\<open>*p = c\<close>, and \<^verbatim>\<open>*p++ = c; i++\<close>.\<close>

definition conf_store :: "conf_st \<Rightarrow> byte \<Rightarrow> conf_st option" where
  "conf_store st c =
     (case st_p st of
        P_null \<Rightarrow> None
      | P_m n \<Rightarrow> map_option (\<lambda>b. st\<lparr>st_m := b\<rparr>) (mem_write (st_m st) n [c])
      | P_k n \<Rightarrow> map_option (\<lambda>b. st\<lparr>st_k := b\<rparr>) (mem_write (st_k st) n [c])
      | P_v n \<Rightarrow> map_option (\<lambda>b. st\<lparr>st_v := b\<rparr>) (mem_write (st_v st) n [c]))"

fun ptr_next :: "conf_ptr \<Rightarrow> conf_ptr" where
  "ptr_next P_null = P_null"
| "ptr_next (P_m n) = P_m (Suc n)"
| "ptr_next (P_k n) = P_k (Suc n)"
| "ptr_next (P_v n) = P_v (Suc n)"

definition conf_push :: "conf_st \<Rightarrow> byte \<Rightarrow> conf_st option" where
  "conf_push st c =
     map_option (\<lambda>s. s\<lparr>st_p := ptr_next (st_p s), st_i := st_i s + 1\<rparr>) (conf_store st c)"

text \<open>
  One character: the next state, or none for \<^verbatim>\<open>goto free\<close> with RS_ERR. 35 is the comment
  sign, 91 and 93 the brackets, 10 newline, 9 tab, 32 space.
\<close>

definition conf_module_char :: "byte list \<Rightarrow> bool \<Rightarrow> conf_st \<Rightarrow> byte \<Rightarrow> conf_st option option" where
  "conf_module_char name eof st c =
     (if st_i st > 20 then Some None
      else if c = 10 \<or> eof then Some None
      else if c \<noteq> 93 then map_option Some (conf_push st c)
      else do {
        st1 \<leftarrow> conf_store st 0;
        m_len \<leftarrow> c_strlen name;
        same \<leftarrow> c_strncmp_eq m_len (st_m st1) name;
        Some (Some (if same then st1\<lparr>st_module := False, st_key := True, st_p := P_k 0, st_i := 0\<rparr>
                    else st1\<lparr>st_module := False\<rparr>)) })"

definition conf_key_char :: "bool \<Rightarrow> conf_st \<Rightarrow> byte \<Rightarrow> conf_st option option" where
  "conf_key_char eof st c =
     (if st_p st = P_k 0 \<and> (c = 10 \<or> c = 32 \<or> c = 9) then Some (Some st)
      else if st_i st > 20 then Some None
      else if (c = 10 \<or> eof) \<and> st_p st \<noteq> P_k 0 then Some None
      else if c \<noteq> 32 then map_option Some (conf_push st c)
      else map_option (\<lambda>s. Some (s\<lparr>st_value := True, st_key := False, st_p := P_v 0\<rparr>))
             (conf_store st 0))"

definition conf_value_char ::
    "os_mem \<Rightarrow> bool \<Rightarrow> conf_env \<Rightarrow> conf_st \<Rightarrow> byte \<Rightarrow> (conf_st option \<times> conf_env) option" where
  "conf_value_char os eof e st c =
     (if st_p st = P_v 0 \<and> (c = 10 \<or> c = 32 \<or> c = 9) then Some (Some st, e)
      else if st_i st > 200 then Some (None, e)
      else if c \<noteq> 10 \<and> \<not> eof then map_option (\<lambda>s. (Some s, e)) (conf_push st c)
      else do {
        st1 \<leftarrow> conf_store st 0;
        (r, e') \<leftarrow> rs_conf_apply os e (st_k st1) (st_v st1);
        if r \<noteq> RS_OK then Some (None, e')
        else Some (Some (st1\<lparr>st_value := False, st_key := True, st_p := P_k 0, st_i := 0\<rparr>), e') })"

definition conf_char ::
    "os_mem \<Rightarrow> byte list \<Rightarrow> bool \<Rightarrow> conf_env \<Rightarrow> conf_st \<Rightarrow> byte \<Rightarrow> (conf_st option \<times> conf_env) option" where
  "conf_char os name eof e st c =
     (if c = 35 \<and> \<not> st_comment st then Some (Some (st\<lparr>st_comment := True\<rparr>), e)
      else if st_comment st \<and> (c = 10 \<or> eof) then Some (Some (st\<lparr>st_comment := False\<rparr>), e)
      else if st_comment st then Some (Some st, e)
      else if c = 91 then
        Some (Some (st\<lparr>st_module := True, st_i := 0, st_value := False, st_key := False, st_p := P_m 0\<rparr>), e)
      else if st_module st then map_option (\<lambda>s. (s, e)) (conf_module_char name eof st c)
      else if st_key st then map_option (\<lambda>s. (s, e)) (conf_key_char eof st c)
      else if st_value st then conf_value_char os eof e st c
      else Some (Some st, e))"

text \<open>The characters of one buffer.\<close>

fun conf_chars ::
    "os_mem \<Rightarrow> byte list \<Rightarrow> bool \<Rightarrow> conf_env \<Rightarrow> conf_st \<Rightarrow> byte list \<Rightarrow> (conf_st option \<times> conf_env) option" where
  "conf_chars os name eof e st [] = Some (Some st, e)"
| "conf_chars os name eof e st (c # cs) = do {
     (r, e') \<leftarrow> conf_char os name eof e st c;
     case r of None \<Rightarrow> Some (None, e') | Some st' \<Rightarrow> conf_chars os name eof e' st' cs }"

text \<open>
  The outer loop reads 1024 bytes at a time; the flag \<^verbatim>\<open>eof\<close> is set only when there is no
  character left to see it.
\<close>

fun read_size :: "read_ev list \<Rightarrow> nat" where
  "read_size [] = 0"
| "read_size (Rd_data bs # fd) = Suc (length bs + read_size fd)"
| "read_size (Rd_eintr # fd) = Suc (read_size fd)"
| "read_size (Rd_err # fd) = Suc (read_size fd)"

lemma rs_read_smaller: "rs_read fd n = (Some (b # bs), fd') \<Longrightarrow> read_size fd' < read_size fd"
proof (induction fd n rule: rs_read.induct)
  case (4 cs fd n)
  then show ?case by (cases n) (auto split: if_splits)
qed auto

function conf_loop ::
    "os_mem \<Rightarrow> byte list \<Rightarrow> conf_env \<Rightarrow> conf_st \<Rightarrow> read_ev list \<Rightarrow> (rs_code \<times> conf_env) option" where
  "conf_loop os name e st fd =
     (case rs_read fd 1024 of
        (None, fd') \<Rightarrow> Some (RS_ERR, e)
      | (Some [], fd') \<Rightarrow> do {
          (r, e') \<leftarrow> conf_chars os name True e st [];
          case r of None \<Rightarrow> Some (RS_ERR, e') | Some st' \<Rightarrow> Some (RS_OK, e') }
      | (Some (b # bs), fd') \<Rightarrow> do {
          (r, e') \<leftarrow> conf_chars os name False e st (b # bs);
          case r of None \<Rightarrow> Some (RS_ERR, e') | Some st' \<Rightarrow> conf_loop os name e' st' fd' })"
  by pat_completeness auto
termination
  by (relation "measure (\<lambda>(os, name, e, st, fd). read_size fd)") (auto intro: rs_read_smaller [OF sym])

declare conf_loop.simps [simp del]

text \<open>The file is none when \<^verbatim>\<open>open\<close> fails.\<close>

definition rs_init_conf ::
    "os_mem \<Rightarrow> byte list \<Rightarrow> conf_env \<Rightarrow> read_ev list option \<Rightarrow> (rs_code \<times> conf_env) option" where
  "rs_init_conf os name e file =
     (case file of None \<Rightarrow> Some (RS_ERR, e) | Some fd \<Rightarrow> conf_loop os name e conf_init fd)"

section \<open>Buffers do not matter\<close>

lemma conf_chars_append:
  "conf_chars os name eof e st (xs @ ys) = do {
     (r, e') \<leftarrow> conf_chars os name eof e st xs;
     case r of None \<Rightarrow> Some (None, e') | Some st' \<Rightarrow> conf_chars os name eof e' st' ys }"
proof (induction xs arbitrary: e st)
  case (Cons x xs)
  then show ?case
    by (cases "conf_char os name eof e st x") (auto split: option.splits prod.splits)
qed simp

text \<open>The code that follows from where the characters end up.\<close>

definition conf_result :: "(conf_st option \<times> conf_env) option \<Rightarrow> (rs_code \<times> conf_env) option" where
  "conf_result = map_option (\<lambda>(r, e). (if r = None then RS_ERR else RS_OK, e))"

lemma rs_read_no_err:
  "Rd_err \<notin> set fd \<Longrightarrow> rs_read fd n = (r, fd') \<Longrightarrow>
   r \<noteq> None \<and> Rd_err \<notin> set fd' \<and> (0 < n \<longrightarrow> r = Some [] \<longrightarrow> stream fd = [])"
  by (induction fd n rule: rs_read.induct) (auto split: if_splits)

lemma conf_loop_stream:
  "Rd_err \<notin> set fd \<Longrightarrow>
   conf_loop os name e st fd = conf_result (conf_chars os name False e st (stream fd))"
proof (induction os name e st fd rule: conf_loop.induct)
  case (1 os name e st fd)
  obtain r fd' where rd: "rs_read fd 1024 = (r, fd')" by fastforce
  note ne = rs_read_no_err [OF "1.prems" rd]
  note unf = conf_loop.simps [of os name e st fd]
  show ?case
  proof (cases "r = Some []")
    case True
    with rd ne show ?thesis by (subst unf) (simp add: conf_result_def)
  next
    case False
    with ne obtain b bs where r: "r = Some (b # bs)" by (cases r) (auto simp: neq_Nil_conv)
    then have st: "stream fd = (b # bs) @ stream fd'" using rs_read_stream [of fd 1024 "b # bs" fd'] rd by simp
    obtain res where res: "conf_chars os name False e st (b # bs) = res" by blast
    show ?thesis
    proof (cases res)
      case None
      with rd r st res show ?thesis
        by (subst unf) (simp add: conf_chars_append conf_result_def del: conf_chars.simps append_Cons)
    next
      case (Some re)
      obtain q e' where re: "re = (q, e')" by fastforce
      show ?thesis
      proof (cases q)
        case None
        with rd r st res Some re show ?thesis
          by (subst unf) (simp add: conf_chars_append conf_result_def del: conf_chars.simps append_Cons)
      next
        case (Some st')
        have "conf_loop os name e' st' fd' = conf_result (conf_chars os name False e' st' (stream fd'))"
          using "1.IH" [OF rd [symmetric] r refl] res \<open>res = Some re\<close> re Some ne by fastforce
        with rd r st res \<open>res = Some re\<close> re Some show ?thesis
          by (subst unf) (simp add: conf_chars_append del: conf_chars.simps append_Cons)
      qed
    qed
  qed
qed

section \<open>Reading what was printed\<close>

text \<open>Applying a setting only depends on the strings, not on what stands behind them.\<close>

lemma c_strncmp_eq_cut:
  "n \<le> length k \<Longrightarrow> c_strncmp_eq n s (k @ r) = c_strncmp_eq n s (k @ r')"
proof (induction n arbitrary: s k)
  case (Suc n)
  then obtain c k' where "k = c # k'" by (cases k) auto
  with Suc show ?case by (cases s) auto
qed simp

lemma bkd_hash_loop_cut: "bkd_hash_loop h (k @ 0 # r) = bkd_hash_loop h (k @ [0])"
  by (induction k arbitrary: h) auto

lemma get_scan_cut:
  "0 \<notin> set k \<Longrightarrow> get_scan (k @ 0 # r) ns = get_scan (k @ [0]) ns"
proof (induction ns)
  case (Cons n ns)
  then show ?case
    using c_strncmp_eq_cut [of "length k" k "n_key n" "0 # r" "[0]"]
    by (simp add: cstr_simps cong: if_cong)
qed simp

lemma shash_get_cut:
  assumes "0 \<notin> set k"
  shows "rs_shash_get h (k @ 0 # r) = rs_shash_get h (k @ [0])"
proof -
  have "get_scan (k @ 0 # r) = get_scan (k @ [0])"
    using get_scan_cut [OF assms, of r] by (rule ext)
  then show ?thesis
    unfolding rs_shash_get_def shash_index_def rs_bkd_hash_def bkd_hash_loop_cut [of 0 k r]
    by (rule arg_cong)
qed

lemma str_to_word_cut: "str_to_word i (v @ 0 # r) = str_to_word i (v @ [0])"
  by (induction v arbitrary: i) auto

lemma str_to_int32_loop_cut: "str_to_int32_loop i (v @ 0 # r) = str_to_int32_loop i (v @ [0])"
  by (induction v arbitrary: i) (auto cong: Option.bind_cong)

lemma conf_apply_cut:
  assumes "0 \<notin> set k" and "0 \<notin> set v"
  shows "rs_conf_apply os e (k @ 0 # r) (v @ 0 # r') = rs_conf_apply os e (k @ [0]) (v @ [0])"
proof -
  have "c_contents (v @ 0 # r') = c_contents (v @ [0])" "c_strlen (v @ 0 # r') = c_strlen (v @ [0])"
    "take (Suc (length v)) (v @ 0 # r') = take (Suc (length v)) (v @ [0])"
    "c_strlen (v @ [0]) = Some (length v)"
    using assms(2) by (simp_all add: cstr_simps)
  note cut = this shash_get_cut [OF assms(1), of "ce_table e" r] str_to_word_cut [of 0 v r']
    str_to_int32_loop_cut [of 0 v r']
  show ?thesis
    unfolding rs_conf_apply_def rs_str_to_int32_def rs_str_to_uint32_def cut option.map bind.bind_lunit
    by (rule refl)
qed

text \<open>What a step does while a module name, a key or a value is being collected.\<close>

definition plain :: "byte \<Rightarrow> bool" where
  "plain c \<longleftrightarrow> c \<noteq> 0 \<and> c \<noteq> 9 \<and> c \<noteq> 10 \<and> c \<noteq> 32 \<and> c \<noteq> 35 \<and> c \<noteq> 91 \<and> c \<noteq> 93"

lemma of_nat_less_u32: "n < 2 ^ 32 \<Longrightarrow> m < 2 ^ 32 \<Longrightarrow> (of_nat m :: u32) < of_nat n \<longleftrightarrow> m < n"
  by (simp add: word_less_nat_alt unat_of_nat)

lemma limit_20: "n \<le> 20 \<Longrightarrow> \<not> (20 :: u32) < of_nat n"
  using of_nat_less_u32 [of n 20] by simp

lemma limit_200: "n \<le> 200 \<Longrightarrow> \<not> (200 :: u32) < of_nat n"
  using of_nat_less_u32 [of n 200] by simp

lemma take_update_last: "n < length xs \<Longrightarrow> take (Suc n) (xs[n := x]) = take n xs @ [x]"
  by (simp add: take_Suc_conv_app_nth)

lemma module_chars:
  assumes "\<forall>c \<in> set cs. plain c" and "n + length cs < length (st_m st)" and "n + length cs \<le> 20"
    and "\<not> st_comment st" "st_module st" "st_p st = P_m n" "st_i st = of_nat n"
  shows "conf_chars os name False e st cs = Some (Some (st\<lparr>st_p := P_m (n + length cs),
    st_i := of_nat (n + length cs), st_m := take n (st_m st) @ cs @ drop (n + length cs) (st_m st)\<rparr>), e)"
  using assms
proof (induction cs arbitrary: st n)
  case (Cons c cs)
  let ?st = "st\<lparr>st_m := (st_m st)[n := c], st_p := P_m (Suc n), st_i := of_nat (Suc n)\<rparr>"
  have "conf_char os name False e st c = Some (Some ?st, e)"
    using Cons.prems limit_20 [of n]
    by (auto simp: conf_char_def conf_module_char_def conf_push_def conf_store_def plain_def
        mem_simps add.commute)
  moreover have "conf_chars os name False e ?st cs = Some (Some (?st\<lparr>st_p := P_m (Suc n + length cs),
      st_i := of_nat (Suc n + length cs),
      st_m := take (Suc n) ((st_m st)[n := c]) @ cs @ drop (Suc n + length cs) ((st_m st)[n := c])\<rparr>), e)"
    using Cons.prems Cons.IH [where st = ?st and n = "Suc n"] by simp
  ultimately show ?case using Cons.prems by (simp add: take_update_last)
qed simp

lemma key_chars:
  assumes "\<forall>c \<in> set cs. plain c" and "n + length cs \<le> length (st_k st)" and "n + length cs \<le> 20"
    and "\<not> st_comment st" "\<not> st_module st" "st_key st" "st_p st = P_k n" "st_i st = of_nat n"
  shows "conf_chars os name False e st cs = Some (Some (st\<lparr>st_p := P_k (n + length cs),
    st_i := of_nat (n + length cs), st_k := take n (st_k st) @ cs @ drop (n + length cs) (st_k st)\<rparr>), e)"
  using assms
proof (induction cs arbitrary: st n)
  case (Cons c cs)
  let ?st = "st\<lparr>st_k := (st_k st)[n := c], st_p := P_k (Suc n), st_i := of_nat (Suc n)\<rparr>"
  have "conf_char os name False e st c = Some (Some ?st, e)"
    using Cons.prems limit_20 [of n]
    by (auto simp: conf_char_def conf_key_char_def conf_push_def conf_store_def plain_def
        mem_simps add.commute)
  moreover have "conf_chars os name False e ?st cs = Some (Some (?st\<lparr>st_p := P_k (Suc n + length cs),
      st_i := of_nat (Suc n + length cs),
      st_k := take (Suc n) ((st_k st)[n := c]) @ cs @ drop (Suc n + length cs) ((st_k st)[n := c])\<rparr>), e)"
    using Cons.prems Cons.IH [where st = ?st and n = "Suc n"] by simp
  ultimately show ?case using Cons.prems by (simp add: take_update_last)
qed simp

lemma value_chars:
  assumes "\<forall>c \<in> set cs. plain c" and "n + length cs < length (st_v st)" and "i + length cs \<le> 200"
    and "\<not> st_comment st" "\<not> st_module st" "\<not> st_key st" "st_value st"
    and "st_p st = P_v n" "st_i st = of_nat i"
  shows "conf_chars os name False e st cs = Some (Some (st\<lparr>st_p := P_v (n + length cs),
    st_i := of_nat (i + length cs), st_v := take n (st_v st) @ cs @ drop (n + length cs) (st_v st)\<rparr>), e)"
  using assms
proof (induction cs arbitrary: st n i)
  case (Cons c cs)
  let ?st = "st\<lparr>st_v := (st_v st)[n := c], st_p := P_v (Suc n), st_i := of_nat (Suc i)\<rparr>"
  have "conf_char os name False e st c = Some (Some ?st, e)"
    using Cons.prems limit_200 [of i]
    by (auto simp: conf_char_def conf_value_char_def conf_push_def conf_store_def plain_def
        mem_simps add.commute)
  moreover have "conf_chars os name False e ?st cs = Some (Some (?st\<lparr>st_p := P_v (Suc n + length cs),
      st_i := of_nat (Suc i + length cs),
      st_v := take (Suc n) ((st_v st)[n := c]) @ cs @ drop (Suc n + length cs) ((st_v st)[n := c])\<rparr>), e)"
    using Cons.prems Cons.IH [where st = ?st and n = "Suc n" and i = "Suc i"] by simp
  ultimately show ?case using Cons.prems by (simp add: take_update_last)
qed simp

text \<open>A line, and a file with one section.\<close>

definition conf_line :: "byte list \<times> byte list \<Rightarrow> byte list" where
  "conf_line = (\<lambda>(k, v). k @ [32] @ v @ [10])"

definition conf_file :: "byte list \<Rightarrow> (byte list \<times> byte list) list \<Rightarrow> byte list" where
  "conf_file name kvs = [91] @ name @ [93, 10] @ concat (map conf_line kvs)"

definition setting_ok :: "byte list \<times> byte list \<Rightarrow> bool" where
  "setting_ok = (\<lambda>(k, v). k \<noteq> [] \<and> v \<noteq> [] \<and> (\<forall>c \<in> set (k @ v). plain c) \<and>
     length k \<le> 12 \<and> length k + length v \<le> 200)"

fun conf_apply_all ::
    "os_mem \<Rightarrow> conf_env \<Rightarrow> (byte list \<times> byte list) list \<Rightarrow> (rs_code \<times> conf_env) option" where
  "conf_apply_all os e [] = Some (RS_OK, e)"
| "conf_apply_all os e ((k, v) # kvs) = do {
     (r, e') \<leftarrow> rs_conf_apply os e (k @ [0]) (v @ [0]);
     if r \<noteq> RS_OK then Some (RS_ERR, e') else conf_apply_all os e' kvs }"

definition line_start :: "conf_st \<Rightarrow> bool" where
  "line_start st \<longleftrightarrow> \<not> st_comment st \<and> \<not> st_module st \<and> st_key st \<and> \<not> st_value st \<and>
     st_p st = P_k 0 \<and> st_i st = 0 \<and> length (st_k st) = 13 \<and> length (st_v st) = 4097"

definition line_state :: "conf_st \<Rightarrow> byte list \<Rightarrow> byte list \<Rightarrow> conf_st" where
  "line_state st k v =
     st\<lparr>st_k := k @ 0 # drop (Suc (length k)) (st_k st), st_value := True, st_key := False,
        st_p := P_v (length v), st_i := of_nat (length k + length v),
        st_v := v @ drop (length v) (st_v st)\<rparr>"

lemma write_end:
  "length xs < length ys \<Longrightarrow> (xs @ drop (length xs) ys)[length xs := c] = xs @ c # drop (Suc (length xs)) ys"
  by (simp add: list_update_append Cons_nth_drop_Suc [symmetric])

text \<open>A line without its newline leaves no trace but in the parser state.\<close>

lemma conf_line_pending:
  assumes "line_start st" and "setting_ok (k, v)"
  shows "conf_chars os name False e st (k @ [32] @ v) = Some (Some (line_state st k v), e)"
proof -
  let ?st1 = "st\<lparr>st_p := P_k (length k), st_i := of_nat (length k), st_k := k @ drop (length k) (st_k st)\<rparr>"
  let ?st2 = "?st1\<lparr>st_k := k @ 0 # drop (Suc (length k)) (st_k st), st_value := True, st_key := False,
      st_p := P_v 0\<rparr>"
  have k: "k \<noteq> []" "\<forall>c \<in> set k. plain c" "length k \<le> 12" and v: "\<forall>c \<in> set v. plain c"
    and len: "length k + length v \<le> 200"
    using assms(2) by (auto simp: setting_ok_def)
  have s1: "conf_chars os name False e st k = Some (Some ?st1, e)"
    using key_chars [of k 0 st] k assms(1) by (simp add: line_start_def)
  have s2: "conf_char os name False e ?st1 32 = Some (Some ?st2, e)"
    using k assms(1) limit_20 [of "length k"] write_end [of k "st_k st" 0]
    by (simp add: conf_char_def conf_key_char_def conf_store_def mem_simps line_start_def)
  have "conf_chars os name False e ?st2 v = Some (Some (line_state st k v), e)"
    using value_chars [of v 0 ?st2 "length k"] v assms(1) len by (simp add: line_start_def line_state_def)
  with s1 s2 show ?thesis by (simp add: conf_chars_append)
qed

lemma conf_line_applies:
  assumes "line_start st" and "setting_ok (k, v)"
  shows "\<exists>st'. line_start st' \<and> (\<forall>os e. conf_chars os name False e st (conf_line (k, v)) =
    map_option (\<lambda>(r, e'). (if r = RS_OK then Some st' else None, e')) (rs_conf_apply os e (k @ [0]) (v @ [0])))"
proof -
  let ?st3 = "line_state st k v"
  let ?st4 = "?st3\<lparr>st_v := v @ 0 # drop (Suc (length v)) (st_v st), st_value := False, st_key := True,
      st_p := P_k 0, st_i := 0\<rparr>"
  have k: "length k \<le> 12" and v: "v \<noteq> []" "\<forall>c \<in> set k. plain c" "\<forall>c \<in> set v. plain c"
    and len: "length k + length v \<le> 200"
    using assms(2) by (auto simp: setting_ok_def)
  then have nz: "0 \<notin> set k" "0 \<notin> set v" by (auto simp: plain_def)
  have "conf_char os name False e ?st3 10 =
      map_option (\<lambda>(r, e'). (if r = RS_OK then Some ?st4 else None, e')) (rs_conf_apply os e (k @ [0]) (v @ [0]))" for os e
    using v assms(1) len limit_200 [OF len] write_end [of v "st_v st" 0]
      conf_apply_cut [OF nz, of os e "drop (Suc (length k)) (st_k st)" "drop (Suc (length v)) (st_v st)"]
    by (cases "rs_conf_apply os e (k @ [0]) (v @ [0])")
      (auto simp: conf_char_def conf_value_char_def conf_store_def mem_simps line_start_def line_state_def
        simp del: of_nat_add)
  then have s4: "conf_chars os name False e ?st3 [10] =
      map_option (\<lambda>(r, e'). (if r = RS_OK then Some ?st4 else None, e')) (rs_conf_apply os e (k @ [0]) (v @ [0]))" for os e
    by (cases "rs_conf_apply os e (k @ [0]) (v @ [0])") auto
  have "conf_line (k, v) = (k @ [32] @ v) @ [10]" by (simp add: conf_line_def)
  then have "conf_chars os name False e st (conf_line (k, v)) =
      map_option (\<lambda>(r, e'). (if r = RS_OK then Some ?st4 else None, e')) (rs_conf_apply os e (k @ [0]) (v @ [0]))" for os e
    using conf_line_pending [OF assms, of os name e] s4 by (simp only: conf_chars_append) simp
  moreover have "line_start ?st4" using assms(1) k len by (simp add: line_start_def line_state_def)
  ultimately show ?thesis by blast
qed

text \<open>Where the parser stands after a list of lines does not depend on the variables.\<close>

lemma conf_lines_then:
  "line_start st \<Longrightarrow> \<forall>kv \<in> set kvs. setting_ok kv \<Longrightarrow>
   \<exists>st'. line_start st' \<and>
     (\<forall>os e. conf_chars os name False e st (concat (map conf_line kvs) @ rest) = do {
        (r, e') \<leftarrow> conf_apply_all os e kvs;
        if r \<noteq> RS_OK then Some (None, e') else conf_chars os name False e' st' rest })"
proof (induction kvs arbitrary: st)
  case (Cons kv kvs)
  obtain k v where kv: "kv = (k, v)" by fastforce
  obtain st1 where st1: "line_start st1" "\<And>os e. conf_chars os name False e st (conf_line (k, v)) =
    map_option (\<lambda>(r, e'). (if r = RS_OK then Some st1 else None, e')) (rs_conf_apply os e (k @ [0]) (v @ [0]))"
    using conf_line_applies [OF Cons.prems(1), of k v name] Cons.prems(2) kv by auto
  obtain st' where st': "line_start st'"
    "\<And>os e. conf_chars os name False e st1 (concat (map conf_line kvs) @ rest) = do {
        (r, e') \<leftarrow> conf_apply_all os e kvs;
        if r \<noteq> RS_OK then Some (None, e') else conf_chars os name False e' st' rest }"
    using Cons.IH [OF st1(1)] Cons.prems(2) by auto
  have "conf_chars os name False e st (concat (map conf_line (kv # kvs)) @ rest) = do {
        (r, e') \<leftarrow> conf_apply_all os e (kv # kvs);
        if r \<noteq> RS_OK then Some (None, e') else conf_chars os name False e' st' rest }" for os e
    using st1(2) st'(2) kv
    by (cases "rs_conf_apply os e (k @ [0]) (v @ [0])") (auto simp: conf_chars_append)
  with st'(1) show ?case by blast
qed auto

lemma conf_apply_all_code: "conf_apply_all os e kvs = Some (q, e') \<Longrightarrow> q = RS_OK \<or> q = RS_ERR"
  by (induction os e kvs rule: conf_apply_all.induct) (auto simp: bind_eq_Some_conv split: if_splits)

lemma conf_result_apply:
  "conf_result (do { (q, e') \<leftarrow> conf_apply_all os e kvs;
     if q \<noteq> RS_OK then Some (None, e') else Some (Some st, e') }) = conf_apply_all os e kvs"
proof (cases "conf_apply_all os e kvs")
  case (Some qe)
  obtain q e' where "qe = (q, e')" by fastforce
  with Some conf_apply_all_code [of os e kvs q e'] show ?thesis by (auto simp: conf_result_def)
qed (simp add: conf_result_def)

lemma conf_section_start:
  assumes "\<forall>c \<in> set name. plain c" and "length name \<le> 6"
  shows "\<exists>st. line_start st \<and> (\<forall>os e rest. conf_chars os (name @ 0 # r) False e conf_init
    ([91] @ name @ [93, 10] @ rest) = conf_chars os (name @ 0 # r) False e st rest)"
proof -
  have nz: "0 \<notin> set name" using assms(1) by (auto simp: plain_def)
  let ?m = "replicate 7 (0::byte)"
  let ?st1 = "conf_init\<lparr>st_module := True, st_p := P_m 0\<rparr>"
  let ?st2 = "?st1\<lparr>st_p := P_m (length name), st_i := of_nat (length name), st_m := name @ drop (length name) ?m\<rparr>"
  let ?st3 = "?st2\<lparr>st_m := name @ 0 # drop (Suc (length name)) ?m, st_module := False, st_key := True,
     st_p := P_k 0, st_i := 0\<rparr>"
  have s1: "conf_char os (name @ 0 # r) False e conf_init 91 = Some (Some ?st1, e)" for os e
    by (simp add: conf_char_def conf_init_def)
  have s2: "conf_chars os (name @ 0 # r) False e ?st1 name = Some (Some ?st2, e)" for os e
    using module_chars [where cs = name and n = 0 and st = ?st1] assms by (simp add: conf_init_def)
  have "(name @ drop (length name) ?m)[length name := 0] = name @ 0 # drop (Suc (length name)) ?m"
    using assms(2) by (intro write_end) simp
  then have s3: "conf_char os (name @ 0 # r) False e ?st2 93 = Some (Some ?st3, e)" for os e
    using assms(2) limit_20 [of "length name"] nz
    by (simp add: conf_char_def conf_module_char_def conf_store_def mem_simps cstr_simps conf_init_def)
  have s4: "conf_char os (name @ 0 # r) False e ?st3 10 = Some (Some ?st3, e)" for os e
    by (simp add: conf_char_def conf_key_char_def conf_init_def)
  have "conf_chars os (name @ 0 # r) False e conf_init ([91] @ name @ [93, 10] @ rest) =
      conf_chars os (name @ 0 # r) False e ?st3 rest" for os e rest
    using s1 s2 s3 s4 by (simp add: conf_chars_append)
  moreover have "line_start ?st3" by (simp add: line_start_def conf_init_def)
  ultimately show ?thesis by blast
qed

text \<open>Only the comment sign starts a comment.\<close>

lemma conf_char_comment:
  assumes "\<not> st_comment st" and "x \<noteq> 35" and "conf_char os name eof e st x = Some (Some st', e')"
  shows "\<not> st_comment st'"
  using assms
  by (auto simp: conf_char_def conf_module_char_def conf_key_char_def conf_value_char_def conf_push_def
      conf_store_def bind_eq_Some_conv split: if_splits conf_ptr.splits)

section \<open>Properties\<close>

definition demo_data :: "addr \<Rightarrow> int \<Rightarrow> rs_conf_data_t" where
  "demo_data var ty = \<lparr>cd_id = 0, cd_data = var, cd_data_id = 0, cd_type = ty, cd_found = False\<rparr>"

definition empty_env :: conf_env where
  "empty_env =
     \<lparr>ce_table = \<lparr>sh_ht = [[]], sh_num = 1, sh_id = 0, sh_addr = 100\<rparr>,
      ce_pool = conf_pool RS_POOL_PREALLOC, ce_data = (\<lambda>_. None), ce_vars = (\<lambda>_. None),
      ce_strs = (\<lambda>_. None)\<rparr>"

definition demo_env :: conf_env where
  "demo_env = empty_env
     \<lparr>ce_table := \<lparr>sh_ht = [[\<lparr>n_key = cstr ''port'', n_val = 300, n_id = 0, n_addr = 400\<rparr>,
                          \<lparr>n_key = cstr ''path'', n_val = 600, n_id = 0, n_addr = 700\<rparr>]],
                  sh_num = 1, sh_id = 0, sh_addr = 100\<rparr>,
      ce_data := [300 \<mapsto> demo_data 500 RS_CONF_UINT32, 600 \<mapsto> demo_data 501 RS_CONF_STR]\<rparr>"

text \<open>
  C29. Parsing does not depend on how the reads cut the file into buffers: only the bytes before
  the end of the file matter.
\<close>

theorem conf_buffers_irrelevant:
  assumes "Rd_err \<notin> set fd" and "Rd_err \<notin> set fd'" and "stream fd = stream fd'"
  shows "rs_init_conf os name e (Some fd) = rs_init_conf os name e (Some fd')"
  using assms by (simp add: rs_init_conf_def conf_loop_stream)

theorem conf_buffers_irrelevant_witness:
  "rs_init_conf (os_grant 7) (cstr ''slave'') demo_env (Some [Rd_data (ascii ''[sl''), Rd_eintr, Rd_data (ascii ''ave]'')]) =
   rs_init_conf (os_grant 7) (cstr ''slave'') demo_env (Some [Rd_data (ascii ''[slave]'')])"
  by (rule conf_buffers_irrelevant) (simp_all add: ascii_def)

lemma conf_file_run:
  assumes "Rd_err \<notin> set fd" and "stream fd = conf_file name kvs"
    and "\<forall>c \<in> set name. plain c" and "length name \<le> 6" and "\<forall>kv \<in> set kvs. setting_ok kv"
  shows "rs_init_conf os (name @ 0 # r) e (Some fd) = conf_apply_all os e kvs"
proof -
  obtain st where st: "line_start st" "\<And>os e rest. conf_chars os (name @ 0 # r) False e conf_init
      ([91] @ name @ [93, 10] @ rest) = conf_chars os (name @ 0 # r) False e st rest"
    using conf_section_start [OF assms(3,4), of r] by blast
  obtain st' where "conf_chars os (name @ 0 # r) False e st (concat (map conf_line kvs) @ []) = do {
        (q, e') \<leftarrow> conf_apply_all os e kvs;
        if q \<noteq> RS_OK then Some (None, e') else conf_chars os (name @ 0 # r) False e' st' [] }"
    using conf_lines_then [OF st(1) assms(5), of "name @ 0 # r" "[]"] by blast
  then have "rs_init_conf os (name @ 0 # r) e (Some fd) = conf_result (do {
        (q, e') \<leftarrow> conf_apply_all os e kvs;
        if q \<noteq> RS_OK then Some (None, e') else Some (Some st', e') })"
    using assms(1,2) st(2) [of os e "concat (map conf_line kvs)"]
    by (simp add: rs_init_conf_def conf_loop_stream conf_file_def del: conf_chars.simps(2) cong: if_cong)
  then show ?thesis by (simp only: conf_result_apply)
qed



text \<open>
  A last line without a newline is dropped, and reading still succeeds: the tests for the end
  of the file inside the loop are never reached.
\<close>

theorem conf_unterminated_line_dropped:
  assumes "Rd_err \<notin> set fd" and "stream fd = conf_file name kvs @ k @ [32] @ v"
    and "\<forall>c \<in> set name. plain c" and "length name \<le> 6" and "\<forall>kv \<in> set ((k, v) # kvs). setting_ok kv"
  shows "rs_init_conf os (name @ 0 # r) e (Some fd) = conf_apply_all os e kvs"
proof -
  obtain st where st: "line_start st" "\<And>os e rest. conf_chars os (name @ 0 # r) False e conf_init
      ([91] @ name @ [93, 10] @ rest) = conf_chars os (name @ 0 # r) False e st rest"
    using conf_section_start [OF assms(3,4), of r] by blast
  have ok: "\<forall>kv \<in> set kvs. setting_ok kv" "setting_ok (k, v)" using assms(5) by simp_all
  obtain st' where st': "line_start st'"
    "conf_chars os (name @ 0 # r) False e st (concat (map conf_line kvs) @ k @ [32] @ v) = do {
        (q, e') \<leftarrow> conf_apply_all os e kvs;
        if q \<noteq> RS_OK then Some (None, e') else conf_chars os (name @ 0 # r) False e' st' (k @ [32] @ v) }"
    using conf_lines_then [OF st(1) ok(1), of "name @ 0 # r" "k @ [32] @ v"] by blast
  have "rs_init_conf os (name @ 0 # r) e (Some fd) = conf_result (do {
        (q, e') \<leftarrow> conf_apply_all os e kvs;
        if q \<noteq> RS_OK then Some (None, e') else Some (Some (line_state st' k v), e') })"
    using assms(1,2) st(2) [of os e "concat (map conf_line kvs) @ k @ [32] @ v"] st'(2)
      conf_line_pending [OF st'(1) ok(2)]
    by (simp add: rs_init_conf_def conf_loop_stream conf_file_def del: conf_chars.simps(2) cong: if_cong)
  then show ?thesis by (simp only: conf_result_apply)
qed

theorem conf_unterminated_line_dropped_witness:
  "rs_init_conf (os_grant 7) (ascii ''slave'' @ 0 # []) demo_env
     (Some [Rd_data (ascii ''[slave]'' @ [10]), Rd_data (ascii ''port'' @ [32] @ ascii ''3306'')]) =
   Some (RS_OK, demo_env)"
proof -
  have "rs_init_conf (os_grant 7) (ascii ''slave'' @ 0 # []) demo_env
     (Some [Rd_data (ascii ''[slave]'' @ [10]), Rd_data (ascii ''port'' @ [32] @ ascii ''3306'')]) =
     conf_apply_all (os_grant 7) demo_env []"
    by (rule conf_unterminated_line_dropped [where k = "ascii ''port''" and v = "ascii ''3306''"])
      (simp_all add: conf_file_def conf_line_def ascii_def plain_def setting_ok_def)
  then show ?thesis by simp
qed

text \<open>
  A variable that was registered under a key receives the number of its setting.
\<close>

theorem conf_registered_uint32_set:
  assumes "shash_wf (ce_table e)" and "key_mem key"
    and "rs_conf_register os e key var RS_CONF_UINT32 = Some (RS_OK, e')"
    and "\<forall>c \<in> set ds. is_digit c"
  shows "\<exists>e''. rs_conf_apply os' e' key (ds @ [0]) = Some (RS_OK, e'') \<and>
    ce_vars e'' = (ce_vars e')(var \<mapsto> CV_uint32 (of_nat (dec_val ds)))"
proof -
  obtain idx a p h p' where add: "rs_shash_add os p (ce_table e) key a = Some (RS_OK, h, p')"
    and e': "e' = e\<lparr>ce_table := h, ce_pool := p', ce_data := (ce_data e)(a \<mapsto>
        \<lparr>cd_id = idx, cd_data = var, cd_data_id = 0, cd_type = RS_CONF_UINT32, cd_found = False\<rparr>)\<rparr>"
    using assms(3) by (auto simp: rs_conf_register_def Let_def bind_eq_Some_conv split: option.splits if_splits)
  have "rs_shash_get (ce_table e') key = Some (Some a)"
    using shash_add_finds [OF assms(1,2) add] by (simp add: e')
  moreover have "rs_str_to_uint32 (ds @ [0]) = Some (of_nat (dec_val ds))"
    using str_to_word_dec_val [OF assms(4), of 0 "[]", where 'a = 32] by (simp add: rs_str_to_uint32_def)
  ultimately show ?thesis
    by (simp add: rs_conf_apply_def e' RS_CONF_INT32_def RS_CONF_UINT32_def)
qed

theorem conf_registered_uint32_set_witness:
  "\<exists>e''. rs_conf_apply (os_grant 7)
     (snd (the (rs_conf_register (os_grant 7) empty_env (cstr ''port'') 500 RS_CONF_UINT32)))
     (cstr ''port'') (ascii ''33'' @ [0]) = Some (RS_OK, e'')"
proof -
  let ?r = "rs_conf_register (os_grant 7) empty_env (cstr ''port'') 500 RS_CONF_UINT32"
  have "?r = Some (RS_OK, snd (the ?r))" by (rule computes_pair) code_simp+
  moreover have "shash_wf (ce_table empty_env)" by (simp add: empty_env_def shash_wf_def)
  ultimately show ?thesis
    using conf_registered_uint32_set [of empty_env "cstr ''port''" "os_grant 7" 500 "snd (the ?r)" "ascii ''33''"]
    by (auto simp: cstr_def ascii_def is_digit_uint key_mem_def)
qed

text \<open>
  The array for keys holds 13 bytes while the parser allows 21: a longer key in a section that
  is read, as svr.ringbuf.esusec, is stored beyond the array.
\<close>

theorem conf_long_key_overflows:
  assumes "Rd_err \<notin> set fd" and "stream fd = conf_file name [] @ key @ rest"
    and "\<forall>c \<in> set name. plain c" and "length name \<le> 6"
    and "\<forall>c \<in> set key. plain c" and "13 < length key"
  shows "rs_init_conf os (name @ 0 # r) e (Some fd) = None"
proof -
  obtain st where st: "line_start st" "\<And>os e rest. conf_chars os (name @ 0 # r) False e conf_init
      ([91] @ name @ [93, 10] @ rest) = conf_chars os (name @ 0 # r) False e st rest"
    using conf_section_start [OF assms(3,4), of r] by blast
  let ?k = "take 13 key" and ?c = "key ! 13"
  have key: "key = ?k @ ?c # drop 14 key" using id_take_nth_drop [of 13 key] assms(6) by simp
  have plain: "\<forall>c \<in> set ?k. plain c" "plain ?c"
    using assms(5,6) by (auto dest: in_set_takeD)
  let ?st = "st\<lparr>st_p := P_k 13, st_i := 13, st_k := ?k\<rparr>"
  have "conf_chars os (name @ 0 # r) False e st ?k = Some (Some ?st, e)"
    using key_chars [OF plain(1), of 0 st] st(1) assms(6) by (simp add: line_start_def)
  moreover have "conf_char os (name @ 0 # r) False e ?st ?c = None"
    using st(1) plain(2) assms(6)
    by (simp add: line_start_def conf_char_def conf_key_char_def conf_push_def conf_store_def
        plain_def mem_simps)
  ultimately have "conf_chars os (name @ 0 # r) False e st (?k @ ?c # drop 14 key @ rest) = None"
    by (simp only: conf_chars_append) simp
  then have "conf_chars os (name @ 0 # r) False e st (key @ rest) = None"
    using key by (metis append.assoc append_Cons)
  then show ?thesis
    using assms(1,2) st(2) [of os e "key @ rest"]
    by (simp add: rs_init_conf_def conf_loop_stream conf_file_def conf_result_def del: conf_chars.simps(2))
qed

theorem conf_long_key_overflows_witness:
  "rs_init_conf (os_grant 7) (ascii ''slave'' @ 0 # []) demo_env
     (Some [Rd_data (ascii ''[slave]'' @ [10] @ ascii ''svr.ringbuf.esusec'' @ [32])]) = None"
  by (rule conf_long_key_overflows [where key = "ascii ''svr.ringbuf.esusec''" and rest = "[32]"])
    (simp_all add: conf_file_def ascii_def plain_def)

text \<open>
  The newline that ends a comment is swallowed with it: the file is read as if the comment and
  its newline were not there, so that a setting in front of it goes on with the next line.
\<close>

theorem conf_comment_swallows_newline:
  assumes "Rd_err \<notin> set fd" and "Rd_err \<notin> set fd'"
    and "stream fd = xs @ [35] @ cmt @ [10] @ ys" and "stream fd' = xs @ ys"
    and "35 \<notin> set xs" and "10 \<notin> set cmt"
  shows "rs_init_conf os name e (Some fd) = rs_init_conf os name e (Some fd')"
proof -
  have skip: "conf_chars os name False e (st\<lparr>st_comment := True\<rparr>) (cmt @ 10 # ys) =
      conf_chars os name False e (st\<lparr>st_comment := False\<rparr>) ys" for e st
    using assms(6) by (induction cmt) (auto simp: conf_char_def)
  have "conf_chars os name False e st (xs @ [35] @ cmt @ [10] @ ys) = conf_chars os name False e st (xs @ ys)"
    if "\<not> st_comment st" for st e
    using assms(5) that
  proof (induction xs arbitrary: st e)
    case Nil
    then have "st\<lparr>st_comment := False\<rparr> = st" by simp
    with Nil skip [of e st] show ?case by (simp add: conf_char_def)
  next
    case (Cons x xs)
    obtain res where res: "conf_char os name False e st x = res" by blast
    have "\<not> st_comment st'" if "res = Some (Some st', e')" for st' e'
      using conf_char_comment [of st x os name False e st' e'] Cons.prems that res by auto
    with Cons res show ?case by (cases res) (auto split: option.split)
  qed
  from this [of conf_init e] show ?thesis
    using assms(1-4) by (simp add: rs_init_conf_def conf_loop_stream conf_init_def)
qed

theorem conf_comment_swallows_newline_witness:
  "rs_init_conf os (cstr ''slave'') e (Some [Rd_data (ascii ''[slave]'' @ [10] @ ascii ''path /a#c'' @ [10] @ ascii ''port 1'' @ [10])]) =
   rs_init_conf os (cstr ''slave'') e (Some [Rd_data (ascii ''[slave]'' @ [10] @ ascii ''path /aport 1'' @ [10])])"
  by (rule conf_comment_swallows_newline [where xs = "ascii ''[slave]'' @ [10] @ ascii ''path /a''" and
        cmt = "ascii ''c''" and ys = "ascii ''port 1'' @ [10]"]) (simp_all add: ascii_def)

text \<open>
  Destroying a configuration releases the address of a string variable instead of the string:
  the storage of the variable itself is on the free list afterwards.
\<close>

theorem destroy_conf_frees_variable:
  "(do { (r, e) \<leftarrow> rs_conf_apply (os_grant 7) demo_env (cstr ''path'') (cstr ''/a'');
         p \<leftarrow> rs_destroy_conf (os_grant 7) e;
         c \<leftarrow> pool_class p 0;
         Some (take (unat (pc_used_free c)) (pc_free_chunk c)) }) =
   Some [Some 300, Some 501, Some 600, Some 400, Some 700, Some 100]"
  by code_simp

end
