(* ===== verification/RS_Array.thy ===== *)
theory RS_Array
  imports RS_Prelude
begin

text \<open>
  The fixed \<^verbatim>\<open>char\<close> arrays of the structs. They are cleared with
  \<^verbatim>\<open>rs_memzero\<close> before use, so an array of \<open>cap\<close> bytes is given by its contents up
  to a run of zeros at the end, which is not stored (\<open>arr_full\<close> puts it back). The operations are
  those of the memory that the array stands for.
\<close>

named_theorems arr_simps

definition arr_full :: "nat \<Rightarrow> byte list \<Rightarrow> byte list" where
  "arr_full cap a = a @ replicate (cap - length a) 0"

definition arr_write :: "nat \<Rightarrow> byte list \<Rightarrow> nat \<Rightarrow> byte list \<Rightarrow> byte list option" where
  "arr_write cap a off bs =
     (if off + length bs \<le> cap
      then Some (take off (a @ replicate (off - length a) 0) @ bs @ drop (off + length bs) a)
      else None)"

definition arr_read :: "nat \<Rightarrow> byte list \<Rightarrow> nat \<Rightarrow> byte list option" where
  "arr_read cap a n = (if n \<le> cap then Some (take n a @ replicate (n - length a) 0) else None)"

text \<open>The array as the argument of a string function.\<close>

definition arr_str :: "nat \<Rightarrow> byte list \<Rightarrow> byte list" where
  "arr_str cap a = (if length a < cap then a @ [0] else a)"

lemma length_arr_full [simp]: "length a \<le> cap \<Longrightarrow> length (arr_full cap a) = cap"
  by (simp add: arr_full_def)

lemma arr_write_full:
  assumes "length a \<le> cap"
  shows "map_option (arr_full cap) (arr_write cap a off bs) = mem_write (arr_full cap a) off bs"
proof (cases "off + length bs \<le> cap")
  case True
  let ?z = "replicate (cap - length a) (0 :: byte)"
  have head: "take off (a @ ?z) = take off (a @ replicate (off - length a) 0)"
    using True by (simp add: min_def)
  have tail: "drop (off + length bs) (a @ ?z) =
      drop (off + length bs) a @ replicate (cap - off - length bs - (length a - (off + length bs))) 0"
    using True assms by (cases "off + length bs \<le> length a") (auto simp: algebra_simps)
  have len: "length (take off (a @ replicate (off - length a) (0 :: byte))) = off" by simp
  show ?thesis
    using True assms head tail
    by (simp add: arr_write_def mem_write_def arr_full_def len algebra_simps del: length_take take_append)
qed (use assms in \<open>simp add: arr_write_def mem_write_def\<close>)

lemma arr_write_length: "arr_write cap a off bs = Some a' \<Longrightarrow> length a \<le> cap \<Longrightarrow> length a' \<le> cap"
  by (auto simp: arr_write_def split: if_splits)

lemma arr_write_start [arr_simps]:
  "arr_write cap a 0 bs = (if length bs \<le> cap then Some (bs @ drop (length bs) a) else None)"
  by (simp add: arr_write_def)

lemma arr_read_full: "length a \<le> cap \<Longrightarrow> arr_read cap a n = mem_read (arr_full cap a) 0 n"
  by (auto simp: arr_read_def mem_read_def arr_full_def min_def)

lemma arr_read_written [arr_simps]: "length bs = n \<Longrightarrow> n \<le> cap \<Longrightarrow> arr_read cap (bs @ r) n = Some bs"
  by (simp add: arr_read_def)

lemma c_strlen_zeros: "c_strlen (a @ 0 # r) = c_strlen (a @ [0])"
  by (induction a) auto

lemma c_contents_zeros: "c_contents (a @ 0 # r) = c_contents (a @ [0])"
proof (cases "c_strlen (a @ [0])")
  case (Some n)
  then have "n \<le> length a"
  proof (induction a arbitrary: n)
    case (Cons x a)
    then show ?case by (auto split: if_splits)
  qed simp
  with Some show ?thesis by (simp add: c_contents_def c_strlen_zeros [of a r])
qed (simp add: c_contents_def c_strlen_zeros [of a r])

lemma arr_str_full:
  assumes "length a \<le> cap"
  shows "c_contents (arr_str cap a) = c_contents (arr_full cap a)"
    and "c_strlen (arr_str cap a) = c_strlen (arr_full cap a)"
proof -
  have "arr_full cap a = (if length a < cap then a @ 0 # replicate (cap - length a - 1) 0 else a)"
    using assms by (cases "cap - length a") (auto simp: arr_full_def)
  then show "c_contents (arr_str cap a) = c_contents (arr_full cap a)"
    and "c_strlen (arr_str cap a) = c_strlen (arr_full cap a)"
    using c_contents_zeros [of a "replicate (cap - length a - 1) 0"]
      c_strlen_zeros [of a "replicate (cap - length a - 1) 0"] by (simp_all add: arr_str_def)
qed

lemma arr_str_contents [arr_simps]:
  "0 \<notin> set s \<Longrightarrow> length s < cap \<Longrightarrow> c_contents (arr_str cap s) = Some s"
  "0 \<notin> set s \<Longrightarrow> c_contents (arr_str cap (s @ 0 # r)) = Some s"
  using c_contents_append [of s "[]"] c_contents_append [of s r] c_contents_append [of s "r @ [0]"]
  by (simp_all add: arr_str_def)

end
