(* ===== verification/RS_ReqDump.thy ===== *)
theory RS_ReqDump
  imports RS_Array RS_Palloc RS_RingBuf RS_TmpBuf
begin

text \<open>
  The state of a dump connection on the master and the table of connections:
  \<^verbatim>\<open>src/master/rs_request_dump.h\<close>, the struct of
  \<^verbatim>\<open>src/master/rs_read_binlog.h\<close>, and the slot management of
  \<^verbatim>\<open>src/master/rs_request_dump.c\<close>. A pointer to a slot is its index.
\<close>

section \<open>Data\<close>

text \<open>
  A \<^verbatim>\<open>FILE\<close>: contents, position, the end-of-file indicator and whether reading fails.
  \<open>f_sticky\<close> tells which C library is used: one that keeps a stream at its end until
  \<^verbatim>\<open>clearerr\<close> (C11 7.21.7.1, glibc since 2.28) or one that tries again.
\<close>

record rs_file =
  f_bytes :: "byte list"
  f_pos :: nat
  f_eof :: bool
  f_err :: bool
  f_sticky :: bool

abbreviation RS_SQL_MAX_LEN :: nat where "RS_SQL_MAX_LEN \<equiv> 1024"
abbreviation sql_cap :: nat where "sql_cap \<equiv> 1025"
abbreviation name_cap :: nat where "name_cap \<equiv> 65"
abbreviation ct_cap :: nat where "ct_cap \<equiv> 4096"
abbreviation cm_cap :: nat where "cm_cap \<equiv> 8192"
abbreviation path_cap :: nat where "path_cap \<equiv> 4097"

record rs_binlog_info_t =
  bi_np :: u32 bi_el :: u32 bi_sbl :: u32 bi_tbl :: u32 bi_sl :: u32 bi_dbl :: u32
  bi_ai :: u64
  bi_cn :: u32 bi_ml :: u32 bi_dl :: u32 bi_svrid :: u32
  bi_tranid :: u64
  bi_skip_n :: u32
  bi_sql :: "byte list"
  bi_db :: "byte list"
  bi_tb :: "byte list"
  bi_ct :: "byte list"
  bi_cm :: "byte list"
  bi_data :: "byte list option"
  bi_t :: byte
  bi_intvar_t :: byte
  bi_mev :: byte
  bi_flush :: bool
  bi_sent :: bool
  bi_tran :: bool
  bi_auto_incr :: bool
  bi_log_format :: bool
  bi_filter :: bool
  bi_skip :: bool

text \<open>The initialisation macro leaves \<^verbatim>\<open>log_format\<close> as it was.\<close>

definition rs_binlog_info_t_init :: "rs_binlog_info_t \<Rightarrow> rs_binlog_info_t" where
  "rs_binlog_info_t_init bi =
     \<lparr>bi_np = 0, bi_el = 0, bi_sbl = 0, bi_tbl = 0, bi_sl = 0, bi_dbl = 0, bi_ai = 0,
      bi_cn = 0, bi_ml = 0, bi_dl = 0, bi_svrid = 0, bi_tranid = 0, bi_skip_n = 0,
      bi_sql = [], bi_db = [], bi_tb = [], bi_ct = [], bi_cm = [], bi_data = None,
      bi_t = 0, bi_intvar_t = 0, bi_mev = 0, bi_flush = False, bi_sent = False, bi_tran = False,
      bi_auto_incr = False, bi_log_format = bi_log_format bi, bi_filter = True, bi_skip = False\<rparr>"

record rs_reqdump_data_t =
  rd_cli_fd :: int
  rd_notify_fd :: int
  rd_dump_pos :: u32
  rd_dump_num :: u32
  rd_dump_file :: "byte list"
  rd_binlog_idx_file :: "byte list option"
  rd_cbuf :: "byte list option"
  rd_rb_esusec :: u32
  rd_filter_tables :: "byte list option"
  rd_server_id :: u32
  rd_binlog_fp :: "rs_file option"
  rd_binlog_idx_fp :: "rs_file option"
  rd_ringbuf :: "rs_ringbuf_t option"
  rd_binlog_info :: rs_binlog_info_t
  rd_pool :: "rs_pool_t option"
  rd_io_thread :: nat
  rd_dump_thread :: nat
  rd_send_buf :: "rs_buf_t option"
  rd_io_buf :: "rs_buf_t option"
  rd_data :: "nat option" \<comment> \<open>the next free slot\<close>
  rd_req_dump :: bool \<comment> \<open>whether the pointer to the table is set\<close>
  rd_open :: bool
  rd_io_thread_exit :: bool
  rd_dump_thread_exit :: bool

definition rs_reqdump_data_t_init :: "rs_reqdump_data_t \<Rightarrow> rs_reqdump_data_t" where
  "rs_reqdump_data_t_init d =
     \<lparr>rd_cli_fd = -1, rd_notify_fd = -1, rd_dump_pos = 0, rd_dump_num = 0, rd_dump_file = [],
      rd_binlog_idx_file = None, rd_cbuf = None, rd_rb_esusec = 1000 * 10, rd_filter_tables = None,
      rd_server_id = 0, rd_binlog_fp = None, rd_binlog_idx_fp = None, rd_ringbuf = None,
      rd_binlog_info = rs_binlog_info_t_init (rd_binlog_info d), rd_pool = None,
      rd_io_thread = 0, rd_dump_thread = 0, rd_send_buf = None, rd_io_buf = None,
      rd_data = rd_data d, rd_req_dump = False, rd_open = False, rd_io_thread_exit = False,
      rd_dump_thread_exit = False\<rparr>"

record rs_reqdump_t =
  rq_num :: u32
  rq_free_num :: u32
  rq_data :: "rs_reqdump_data_t list"
  rq_free :: "nat option"
  rq_id :: int

text \<open>Whether the calls of the thread library succeed.\<close>

record thr_ops =
  th_mutex_init :: bool
  th_attr_init :: bool
  th_setdetach :: bool
  th_lock :: bool
  th_unlock :: bool

section \<open>The table\<close>

text \<open>Sizes of the two structs on a 64-bit machine, in bytes.\<close>

definition sizeof_rs_reqdump_data_t :: u32 where "sizeof_rs_reqdump_data_t = 17768"

definition sizeof_rs_reqdump_t :: u32 where "sizeof_rs_reqdump_t = 136"

text \<open>The do-while loop that links the slots, last one first.\<close>

fun link_slots ::
    "nat \<Rightarrow> rs_reqdump_data_t list \<Rightarrow> nat option \<Rightarrow> (rs_reqdump_data_t list \<times> nat option) option" where
  "link_slots 0 data next = None"
| "link_slots (Suc i) data next =
     (if i < length data then
        (let data' = data[i := rs_reqdump_data_t_init ((data ! i)\<lparr>rd_data := next\<rparr>)] in
         if i = 0 then Some (data', Some i) else link_slots i data' (Some i))
      else None)"

text \<open>The last argument is the fresh memory behind the header.\<close>

definition rs_create_reqdump ::
    "os_mem \<Rightarrow> thr_ops \<Rightarrow> rs_pool_t \<Rightarrow> u32 \<Rightarrow> rs_reqdump_data_t list \<Rightarrow>
     (rs_reqdump_t option \<times> rs_pool_t) option" where
  "rs_create_reqdump os th p num fresh = do {
     let len = sizeof_rs_reqdump_data_t * num;
     idx \<leftarrow> rs_palloc_id p (sizeof_rs_reqdump_t + len);
     (rd, p') \<leftarrow> rs_palloc os p (sizeof_rs_reqdump_t + len) idx;
     case rd of
       None \<Rightarrow> Some (None, p')
     | Some a \<Rightarrow>
         if th_mutex_init th \<and> th_attr_init th \<and> th_setdetach th then do {
           (data, free) \<leftarrow> link_slots (unat num) fresh None;
           Some (Some \<lparr>rq_num = num, rq_free_num = num, rq_data = data, rq_free = free, rq_id = idx\<rparr>, p') }
         else Some (None, p') }"

text \<open>
  The code tests \<^verbatim>\<open>rd == NULL\<close> where \<^verbatim>\<open>d\<close> is meant: with no free slot the
  read of \<^verbatim>\<open>d->data\<close> is undefined.
\<close>

definition rs_get_reqdump_data :: "thr_ops \<Rightarrow> rs_reqdump_t \<Rightarrow> (nat option \<times> rs_reqdump_t) option" where
  "rs_get_reqdump_data th rd =
     (if \<not> th_lock th then Some (None, rd)
      else do {
        d \<leftarrow> rq_free rd;
        slot \<leftarrow> mem_get (rq_data rd) d;
        let rd' = rd\<lparr>rq_free := rd_data slot, rq_free_num := rq_free_num rd - 1,
                     rq_data := (rq_data rd)[d := slot\<lparr>rd_open := True\<rparr>]\<rparr>;
        Some (if th_unlock th then Some d else None, rd') })"

text \<open>What releasing a slot does outside the table, in order.\<close>

datatype rs_release =
    Cancel nat | Close int | Free_ring | Free_buf "rs_buf_t option" | Fclose | Free_pool "addr list"

definition slot_releases :: "rs_reqdump_data_t \<Rightarrow> addr list \<Rightarrow> rs_release list" where
  "slot_releases d slabs =
     (if rd_io_thread d \<noteq> 0 \<and> \<not> rd_io_thread_exit d then [Cancel (rd_io_thread d)] else []) @
     (if rd_dump_thread d \<noteq> 0 \<and> \<not> rd_dump_thread_exit d then [Cancel (rd_dump_thread d)] else []) @
     (if rd_cli_fd d \<noteq> -1 then [Close (rd_cli_fd d)] else []) @
     (if rd_notify_fd d \<noteq> -1 then [Close (rd_notify_fd d)] else []) @
     [Free_ring, Free_buf (rd_send_buf d), Free_buf (rd_io_buf d)] @
     (if rd_binlog_fp d \<noteq> None then [Fclose] else []) @
     (if rd_binlog_idx_fp d \<noteq> None then [Fclose] else []) @
     [Free_pool slabs]"

definition rs_free_reqdump_data ::
    "os_mem \<Rightarrow> thr_ops \<Rightarrow> rs_reqdump_t \<Rightarrow> nat \<Rightarrow> (rs_release list \<times> rs_reqdump_t) option" where
  "rs_free_reqdump_data os th rd i = do {
     d \<leftarrow> mem_get (rq_data rd) i;
     if \<not> rd_open d \<or> \<not> th_lock th then Some ([], rd)
     else do {
       ring \<leftarrow> rd_ringbuf d;
       pool \<leftarrow> rd_pool d;
       pool' \<leftarrow> rs_destroy_ringbuf os pool ring;
       slabs \<leftarrow> rs_destroy_pool pool';
       let d' = rs_reqdump_data_t_init (d\<lparr>rd_open := False, rd_data := rq_free rd\<rparr>);
       Some (slot_releases d slabs,
             rd\<lparr>rq_data := (rq_data rd)[i := d'], rq_free := Some i,
                rq_free_num := rq_free_num rd + 1\<rparr>) } }"

text \<open>The loop over the slots, from slot i on with n of them left.\<close>

fun freeall_loop ::
    "os_mem \<Rightarrow> thr_ops \<Rightarrow> nat \<Rightarrow> nat \<Rightarrow> rs_reqdump_t \<Rightarrow> (rs_release list \<times> rs_reqdump_t) option" where
  "freeall_loop os th 0 i rd = Some ([], rd)"
| "freeall_loop os th (Suc n) i rd = do {
     d \<leftarrow> mem_get (rq_data rd) i;
     (rel, rd') \<leftarrow> (if rd_open d then rs_free_reqdump_data os th rd i else Some ([], rd));
     (rels, rd'') \<leftarrow> freeall_loop os th n (Suc i) rd';
     Some (rel @ rels, rd'') }"

definition rs_freeall_reqdump_data ::
    "os_mem \<Rightarrow> thr_ops \<Rightarrow> rs_reqdump_t \<Rightarrow> (rs_release list \<times> rs_reqdump_t) option" where
  "rs_freeall_reqdump_data os th rd = freeall_loop os th (unat (rq_num rd)) 0 rd"

text \<open>The table at address a goes back to the pool it came from.\<close>

definition rs_destroy_reqdump ::
    "os_mem \<Rightarrow> thr_ops \<Rightarrow> rs_pool_t \<Rightarrow> addr \<Rightarrow> rs_reqdump_t \<Rightarrow> (rs_release list \<times> rs_pool_t) option" where
  "rs_destroy_reqdump os th p a rd = do {
     (rels, rd') \<leftarrow> rs_freeall_reqdump_data os th rd;
     p' \<leftarrow> rs_pfree os p a (rq_id rd');
     Some (rels, p') }"

text \<open>
  The cleanup handlers of the two threads of a connection. When the other thread has released the
  slot its pointer to the table is NULL; it is not followed for a closed slot.
\<close>

definition release_slot ::
    "os_mem \<Rightarrow> thr_ops \<Rightarrow> rs_reqdump_t \<Rightarrow> nat \<Rightarrow> rs_reqdump_data_t \<Rightarrow>
     (rs_release list \<times> rs_reqdump_t) option" where
  "release_slot os th rd i d =
     (let rd' = rd\<lparr>rq_data := (rq_data rd)[i := d]\<rparr> in
      if rd_req_dump d then rs_free_reqdump_data os th rd' i
      else if rd_open d then None else Some ([], rd'))"

definition rs_free_io_thread ::
    "os_mem \<Rightarrow> thr_ops \<Rightarrow> rs_reqdump_t \<Rightarrow> nat \<Rightarrow> (rs_release list \<times> rs_reqdump_t) option" where
  "rs_free_io_thread os th rd i = do {
     d \<leftarrow> mem_get (rq_data rd) i;
     release_slot os th rd i (d\<lparr>rd_io_thread_exit := True\<rparr>) }"

definition rs_free_dump_thread ::
    "os_mem \<Rightarrow> thr_ops \<Rightarrow> rs_reqdump_t \<Rightarrow> nat \<Rightarrow> (rs_release list \<times> rs_reqdump_t) option" where
  "rs_free_dump_thread os th rd i = do {
     d \<leftarrow> mem_get (rq_data rd) i;
     release_slot os th rd i (d\<lparr>rd_dump_thread_exit := True\<rparr>) }"

section \<open>The free list\<close>

fun free_chain :: "rs_reqdump_data_t list \<Rightarrow> nat option \<Rightarrow> nat list \<Rightarrow> bool" where
  "free_chain data p [] \<longleftrightarrow> p = None"
| "free_chain data p (i # fs) \<longleftrightarrow> p = Some i \<and> i < length data \<and> free_chain data (rd_data (data ! i)) fs"

definition open_slots :: "rs_reqdump_t \<Rightarrow> nat set" where
  "open_slots rd = {i. i < length (rq_data rd) \<and> rd_open (rq_data rd ! i)}"

text \<open>The free list runs through the closed slots, each once, and is as long as the counter says.\<close>

definition rq_ok :: "rs_reqdump_t \<Rightarrow> bool" where
  "rq_ok rd \<longleftrightarrow> length (rq_data rd) = unat (rq_num rd) \<and>
     (\<exists>fs. free_chain (rq_data rd) (rq_free rd) fs \<and> distinct fs \<and>
        set fs = {..<length (rq_data rd)} - open_slots rd \<and> unat (rq_free_num rd) = length fs)"

lemma free_chain_cong:
  assumes "length data' = length data" and "\<And>i. i \<in> set fs \<Longrightarrow> rd_data (data' ! i) = rd_data (data ! i)"
  shows "free_chain data' p fs = free_chain data p fs"
  using assms by (induction fs arbitrary: p) auto

lemma free_chain_update:
  assumes "rd_data d = rd_data (data ! i)"
  shows "free_chain (data[i := d]) p fs = free_chain data p fs"
proof (cases "i < length data")
  case True
  with assms show ?thesis by (intro free_chain_cong) (auto simp: nth_list_update)
qed (simp add: list_update_beyond)

lemma free_chain_notin:
  "i \<notin> set fs \<Longrightarrow> free_chain (data[i := d]) p fs = free_chain data p fs"
  by (rule free_chain_cong) (metis length_list_update, metis nth_list_update_neq)

lemma init_fields [simp]:
  "rd_data (rs_reqdump_data_t_init d) = rd_data d" "rd_open (rs_reqdump_data_t_init d) = False"
  by (simp_all add: rs_reqdump_data_t_init_def)

lemma link_slots_ok:
  assumes "link_slots n data next = Some (data', free)"
    and "free_chain data next fs" and "set fs = {n..<length data}" and "distinct fs"
    and "\<forall>i \<in> set fs. \<not> rd_open (data ! i)"
  shows "length data' = length data \<and> (\<forall>i < length data'. \<not> rd_open (data' ! i)) \<and>
    (\<exists>fs. free_chain data' free fs \<and> distinct fs \<and> set fs = {..<length data} \<and>
      length fs = length data)"
  using assms
proof (induction n data "next" arbitrary: fs rule: link_slots.induct)
  case (2 i data "next")
  let ?d = "rs_reqdump_data_t_init ((data ! i)\<lparr>rd_data := next\<rparr>)"
  let ?data = "data[i := ?d]"
  have i: "i < length data" using "2.prems"(1) by (simp split: if_splits)
  have "i \<notin> set fs" using "2.prems"(3) by simp
  then have chain: "free_chain ?data (Some i) (i # fs)"
    using "2.prems"(2) i by (simp add: free_chain_notin)
  have set: "set (i # fs) = {i..<length ?data}"
    using "2.prems"(3) i by auto
  have dist: "distinct (i # fs)" using \<open>i \<notin> set fs\<close> "2.prems"(4) by simp
  have closed: "\<forall>j \<in> set (i # fs). \<not> rd_open (?data ! j)"
    using "2.prems"(5) i by (auto simp: nth_list_update)
  show ?case
  proof (cases "i = 0")
    case True
    have "length (i # fs) = length data"
      using distinct_card [OF dist] set True by simp
    with True "2.prems"(1) i chain set dist closed show ?thesis
      by (auto simp: Let_def intro!: exI [of _ "i # fs"])
  next
    case False
    with "2.IH" [OF i refl False _ chain set dist closed] "2.prems"(1) i show ?thesis
      by (simp add: Let_def)
  qed
qed simp

lemma create_reqdump_ok:
  assumes "rs_create_reqdump os th p num fresh = Some (Some rq, p')" and "length fresh = unat num"
  shows "rq_ok rq" and "open_slots rq = {}" and "rq_num rq = num"
proof -
  obtain data free where link: "link_slots (unat num) fresh None = Some (data, free)"
    and rq: "rq_num rq = num" "rq_free_num rq = num" "rq_data rq = data" "rq_free rq = free"
    using assms(1)
    by (auto simp: rs_create_reqdump_def Let_def bind_eq_Some_conv split: option.splits if_splits)
  from link_slots_ok [OF link, of "[]"] assms(2) obtain fs where
    "length data = unat num" "\<forall>i < length data. \<not> rd_open (data ! i)"
    "free_chain data free fs" "distinct fs" "set fs = {..<unat num}" "length fs = unat num" by auto
  then show "rq_ok rq" "open_slots rq = {}" "rq_num rq = num"
    by (auto simp: rq_ok_def open_slots_def rq intro!: exI [of _ fs])
qed

section \<open>Slots in use\<close>

lemma get_reqdump_result:
  assumes ok: "rq_ok rd" and lock: "th_lock th" and get: "rs_get_reqdump_data th rd = Some (r, rd')"
  obtains d where "rq_free rd = Some d" and "d < length (rq_data rd)" and "d \<notin> open_slots rd"
    and "open_slots rd' = insert d (open_slots rd)" and "rq_ok rd'"
    and "r = (if th_unlock th then Some d else None)" and "rq_num rd' = rq_num rd"
proof -
  from ok obtain fs where fs: "free_chain (rq_data rd) (rq_free rd) fs" "distinct fs"
    "set fs = {..<length (rq_data rd)} - open_slots rd" "unat (rq_free_num rd) = length fs"
    and len: "length (rq_data rd) = unat (rq_num rd)" by (auto simp: rq_ok_def)
  from get lock obtain d where d: "rq_free rd = Some d"
    by (auto simp: rs_get_reqdump_data_def bind_eq_Some_conv)
  then obtain fs' where fs': "fs = d # fs'" using fs(1) by (cases fs) auto
  then have dl: "d < length (rq_data rd)" "d \<notin> open_slots rd" using fs(3) by auto
  let ?d = "(rq_data rd ! d)\<lparr>rd_open := True\<rparr>"
  have rd': "rd' = rd\<lparr>rq_free := rd_data (rq_data rd ! d), rq_free_num := rq_free_num rd - 1,
        rq_data := (rq_data rd)[d := ?d]\<rparr>" and r: "r = (if th_unlock th then Some d else None)"
    using get lock d dl by (auto simp: rs_get_reqdump_data_def mem_get_def Let_def)
  have op: "open_slots rd' = insert d (open_slots rd)"
    using dl by (auto simp: rd' open_slots_def nth_list_update split: if_splits)
  have "unat (rq_free_num rd - 1) = length fs'"
    using fs(4) fs' by (metis One_nat_def Suc_eq_plus1 add_diff_cancel_right' diff_0_eq_0 le_add2
        length_Cons unat_1 unat_minus_one unat_0 nat.distinct(1))
  moreover have "free_chain ((rq_data rd)[d := ?d]) (rd_data (rq_data rd ! d)) fs'"
    using fs(1) fs' by (simp add: free_chain_update)
  ultimately have "rq_ok rd'"
    using fs(2,3) fs' len op by (auto simp: rd' rq_ok_def intro!: exI [of _ fs'])
  with that d dl op r show thesis by (simp add: rd')
qed

lemma free_reqdump_result:
  assumes ok: "rq_ok rd" and free: "rs_free_reqdump_data os th rd i = Some (rel, rd')"
  shows "rq_ok rd'" and "th_lock th \<Longrightarrow> open_slots rd' = open_slots rd - {i}"
    and "rq_num rd' = rq_num rd" and "i \<notin> open_slots rd \<Longrightarrow> rel = [] \<and> rd' = rd"
    and "i < length (rq_data rd)" and "open_slots rd' \<subseteq> open_slots rd"
proof -
  from free have i: "i < length (rq_data rd)"
    by (auto simp: rs_free_reqdump_data_def mem_get_def split: if_splits)
  then show "i < length (rq_data rd)" .
  show *: "i \<notin> open_slots rd \<Longrightarrow> rel = [] \<and> rd' = rd"
    using free i by (auto simp: rs_free_reqdump_data_def mem_get_def open_slots_def)
  have "rq_ok rd' \<and> (th_lock th \<longrightarrow> open_slots rd' = open_slots rd - {i}) \<and> rq_num rd' = rq_num rd \<and>
    open_slots rd' \<subseteq> open_slots rd"
  proof (cases "i \<in> open_slots rd \<and> th_lock th")
    case False
    with free i ok * show ?thesis
      by (auto simp: rs_free_reqdump_data_def mem_get_def split: if_splits)
  next
    case True
    then have op: "rd_open (rq_data rd ! i)" by (simp add: open_slots_def)
    from ok obtain fs where fs: "free_chain (rq_data rd) (rq_free rd) fs" "distinct fs"
      "set fs = {..<length (rq_data rd)} - open_slots rd" "unat (rq_free_num rd) = length fs"
      and len: "length (rq_data rd) = unat (rq_num rd)" by (auto simp: rq_ok_def)
    let ?d = "rs_reqdump_data_t_init ((rq_data rd ! i)\<lparr>rd_open := False, rd_data := rq_free rd\<rparr>)"
    have rd': "rd' = rd\<lparr>rq_data := (rq_data rd)[i := ?d], rq_free := Some i,
        rq_free_num := rq_free_num rd + 1\<rparr>"
      using free i op True by (auto simp: rs_free_reqdump_data_def mem_get_def Let_def bind_eq_Some_conv)
    have nin: "i \<notin> set fs" using fs(3) True by auto
    have "free_chain (rq_data rd') (Some i) (i # fs)"
      using fs(1) nin i by (simp add: rd' free_chain_notin)
    moreover have op': "open_slots rd' = open_slots rd - {i}"
      using i by (auto simp: rd' open_slots_def nth_list_update split: if_splits)
    moreover have "unat (rq_free_num rd + 1) = length (i # fs)"
    proof -
      have "length (i # fs) = card (set (i # fs))" using fs(2) nin by (simp add: distinct_card)
      also have "\<dots> \<le> length (rq_data rd)"
        using card_mono [of "{..<length (rq_data rd)}" "set (i # fs)"] fs(3) i by auto
      also have "\<dots> < 2 ^ 32" using len unsigned_less [of "rq_num rd", where ?'a = nat] by simp
      finally show ?thesis using fs(4) unat_Suc_small by (simp add: unat_word_ariths)
    qed
    moreover have "set (i # fs) = {..<length (rq_data rd')} - open_slots rd'"
      using fs(3) op' i by (auto simp: rd')
    moreover have "distinct (i # fs)" using fs(2) nin by simp
    moreover have "rq_free rd' = Some i" "rq_free_num rd' = rq_free_num rd + 1"
      "length (rq_data rd') = unat (rq_num rd')" "rq_num rd' = rq_num rd"
      using len by (simp_all add: rd')
    ultimately show ?thesis unfolding rq_ok_def by (metis Diff_subset)
  qed
  then show "rq_ok rd'" "th_lock th \<Longrightarrow> open_slots rd' = open_slots rd - {i}" "rq_num rd' = rq_num rd"
    "open_slots rd' \<subseteq> open_slots rd" by blast+
qed

lemma open_slot_update:
  assumes "rd_data d = rd_data (rq_data rd ! i)" and "rd_open d = rd_open (rq_data rd ! i)"
  shows "open_slots (rd\<lparr>rq_data := (rq_data rd)[i := d]\<rparr>) = open_slots rd"
    and "rq_ok rd \<Longrightarrow> rq_ok (rd\<lparr>rq_data := (rq_data rd)[i := d]\<rparr>)"
proof -
  show *: "open_slots (rd\<lparr>rq_data := (rq_data rd)[i := d]\<rparr>) = open_slots rd"
    using assms(2) by (cases "i < length (rq_data rd)")
      (auto simp: open_slots_def nth_list_update list_update_beyond split: if_splits)
  show "rq_ok rd \<Longrightarrow> rq_ok (rd\<lparr>rq_data := (rq_data rd)[i := d]\<rparr>)"
    by (auto simp: rq_ok_def * free_chain_update [OF assms(1)])
qed

lemma free_reqdump_idle:
  "i < length (rq_data rd) \<Longrightarrow> \<not> rd_open (rq_data rd ! i) \<Longrightarrow> rs_free_reqdump_data os th rd i = Some ([], rd)"
  by (simp add: rs_free_reqdump_data_def mem_get_def)

text \<open>Both cleanup handlers set a flag of the slot and release it.\<close>

lemma release_slot_Some:
  assumes "i < length (rq_data rd)" and "release_slot os th rd i d = Some (rel, rd')"
  shows "rs_free_reqdump_data os th (rd\<lparr>rq_data := (rq_data rd)[i := d]\<rparr>) i = Some (rel, rd')"
proof (cases "rd_req_dump d")
  case False
  with assms(2) have "\<not> rd_open d" "rel = []" "rd' = rd\<lparr>rq_data := (rq_data rd)[i := d]\<rparr>"
    by (simp_all add: release_slot_def split: if_splits)
  with assms(1) show ?thesis by (simp add: free_reqdump_idle)
qed (use assms in \<open>simp add: release_slot_def\<close>)

lemma cleanup_cases:
  assumes "rs_free_io_thread os th rd i = Some (rel, rd') \<or> rs_free_dump_thread os th rd i = Some (rel, rd')"
  obtains d where "rd_data d = rd_data (rq_data rd ! i)" and "rd_open d = rd_open (rq_data rd ! i)"
    and "i < length (rq_data rd)"
    and "rs_free_reqdump_data os th (rd\<lparr>rq_data := (rq_data rd)[i := d]\<rparr>) i = Some (rel, rd')"
proof -
  let ?d = "rq_data rd ! i"
  from assms have i: "i < length (rq_data rd)"
    by (auto simp: rs_free_io_thread_def rs_free_dump_thread_def mem_get_def bind_eq_Some_conv
        split: if_splits)
  with assms have "release_slot os th rd i (?d\<lparr>rd_io_thread_exit := True\<rparr>) = Some (rel, rd') \<or>
      release_slot os th rd i (?d\<lparr>rd_dump_thread_exit := True\<rparr>) = Some (rel, rd')"
    by (simp add: rs_free_io_thread_def rs_free_dump_thread_def mem_get_def)
  then show thesis
    using release_slot_Some [OF i] that [of "?d\<lparr>rd_io_thread_exit := True\<rparr>"]
      that [of "?d\<lparr>rd_dump_thread_exit := True\<rparr>"] i by auto
qed

lemma free_reqdump_releases:
  assumes "rs_free_reqdump_data os th rd i = Some (rel, rd')" and "d = rq_data rd ! i"
    and "rd_open d" and "th_lock th"
  obtains slabs where "rel = slot_releases d slabs"
  using assms by (auto simp: rs_free_reqdump_data_def mem_get_def Let_def bind_eq_Some_conv split: if_splits)

lemma slot_releases_cancel:
  "Cancel t \<in> set (slot_releases d slabs) \<longleftrightarrow>
     t \<noteq> 0 \<and> (t = rd_io_thread d \<and> \<not> rd_io_thread_exit d \<or> t = rd_dump_thread d \<and> \<not> rd_dump_thread_exit d)"
  by (auto simp: slot_releases_def)

lemma slot_releases_ring: "Free_ring \<in> set (slot_releases d slabs)"
  by (simp add: slot_releases_def)

lemma cleanup_result:
  assumes "rs_free_io_thread os th rd i = Some (rel, rd') \<or> rs_free_dump_thread os th rd i = Some (rel, rd')"
    and "rq_ok rd"
  shows "rq_ok rd'" and "rq_num rd' = rq_num rd" and "open_slots rd' \<subseteq> open_slots rd"
    and "th_lock th \<Longrightarrow> open_slots rd' = open_slots rd - {i}"
proof -
  obtain d where d: "rd_data d = rd_data (rq_data rd ! i)" "rd_open d = rd_open (rq_data rd ! i)"
    and free: "rs_free_reqdump_data os th (rd\<lparr>rq_data := (rq_data rd)[i := d]\<rparr>) i = Some (rel, rd')"
    using cleanup_cases [OF assms(1)] by metis
  note upd = open_slot_update [OF d]
  from free_reqdump_result [OF upd(2) [OF assms(2)] free] upd(1)
  show "rq_ok rd'" "rq_num rd' = rq_num rd" "open_slots rd' \<subseteq> open_slots rd"
    "th_lock th \<Longrightarrow> open_slots rd' = open_slots rd - {i}" by simp_all
qed

text \<open>
  The life of the table: connections take a slot, fill it in, and leave it through the two cleanup
  handlers or a direct release, in any order and any number of times.
\<close>

inductive rq_step :: "rs_reqdump_t \<Rightarrow> rs_reqdump_t \<Rightarrow> bool" where
  get: "rs_get_reqdump_data th rd = Some (r, rd') \<Longrightarrow> rq_step rd rd'"
| fill: "i \<in> open_slots rd \<Longrightarrow> rd_open d \<Longrightarrow> rd_data d = rd_data (rq_data rd ! i) \<Longrightarrow>
    rq_step rd (rd\<lparr>rq_data := (rq_data rd)[i := d]\<rparr>)"
| free: "rs_free_reqdump_data os th rd i = Some (rel, rd') \<Longrightarrow> rq_step rd rd'"
| io_exit: "rs_free_io_thread os th rd i = Some (rel, rd') \<Longrightarrow> rq_step rd rd'"
| dump_exit: "rs_free_dump_thread os th rd i = Some (rel, rd') \<Longrightarrow> rq_step rd rd'"

inductive rq_reach :: "rs_reqdump_t \<Rightarrow> rs_reqdump_t \<Rightarrow> bool" for rd0 where
  start: "rq_reach rd0 rd0"
| step: "rq_reach rd0 rd \<Longrightarrow> rq_step rd rd' \<Longrightarrow> rq_reach rd0 rd'"

lemma get_reqdump_ok:
  "rq_ok rd \<Longrightarrow> rs_get_reqdump_data th rd = Some (r, rd') \<Longrightarrow> rq_ok rd' \<and> rq_num rd' = rq_num rd"
proof (cases "th_lock th")
  case True
  assume "rq_ok rd" "rs_get_reqdump_data th rd = Some (r, rd')"
  from get_reqdump_result [OF this(1) True this(2)] show ?thesis by metis
qed (auto simp: rs_get_reqdump_data_def)

lemma rq_step_ok: "rq_step rd rd' \<Longrightarrow> rq_ok rd \<Longrightarrow> rq_ok rd' \<and> rq_num rd' = rq_num rd"
proof (induction rule: rq_step.induct)
  case (get th rd r rd')
  then show ?case using get_reqdump_ok by blast
next
  case (fill i rd d)
  then show ?case using open_slot_update(2) [of d rd i] by (simp add: open_slots_def)
next
  case (free os th rd i rel rd')
  from free_reqdump_result(1,3) [OF free.prems free.hyps] show ?case by blast
next
  case (io_exit os th rd i rel rd')
  from cleanup_result(1,2) [OF disjI1 [OF io_exit.hyps] io_exit.prems] show ?case by blast
next
  case (dump_exit os th rd i rel rd')
  from cleanup_result(1,2) [OF disjI2 [OF dump_exit.hyps] dump_exit.prems] show ?case by blast
qed

lemma rq_reach_ok: "rq_reach rd0 rd \<Longrightarrow> rq_ok rd0 \<Longrightarrow> rq_ok rd \<and> rq_num rd = rq_num rd0"
  by (induction rule: rq_reach.induct) (auto dest: rq_step_ok)

lemma rq_ok_count:
  assumes "rq_ok rd"
  shows "unat (rq_free_num rd) + card (open_slots rd) = unat (rq_num rd)"
    and "rq_free rd = None \<longleftrightarrow> card (open_slots rd) = unat (rq_num rd)"
proof -
  from assms obtain fs where fs: "free_chain (rq_data rd) (rq_free rd) fs" "distinct fs"
    "set fs = {..<length (rq_data rd)} - open_slots rd" "unat (rq_free_num rd) = length fs"
    and len: "length (rq_data rd) = unat (rq_num rd)" by (auto simp: rq_ok_def)
  have sub: "open_slots rd \<subseteq> {..<length (rq_data rd)}" by (auto simp: open_slots_def)
  have "length fs = card (set fs)" using fs(2) by (simp add: distinct_card)
  also have "\<dots> = unat (rq_num rd) - card (open_slots rd)"
    using fs(3) sub len by (simp add: card_Diff_subset finite_subset [OF sub])
  finally have l: "length fs = unat (rq_num rd) - card (open_slots rd)" .
  moreover have c: "card (open_slots rd) \<le> unat (rq_num rd)"
    using card_mono [OF _ sub] len by simp
  ultimately show "unat (rq_free_num rd) + card (open_slots rd) = unat (rq_num rd)"
    using fs(4) by simp
  show "rq_free rd = None \<longleftrightarrow> card (open_slots rd) = unat (rq_num rd)"
    using fs(1) l c by (cases fs) auto
qed

section \<open>Properties of the table\<close>

text \<open>
  C17. In every reachable state of a table of num slots the counter of free slots and the open ones
  add up to num, and the slot a new connection gets is inside the table and was not open.
\<close>

theorem reqdump_slots_accounted:
  assumes "rs_create_reqdump os th p num fresh = Some (Some rd0, p')" and "length fresh = unat num"
    and "rq_reach rd0 rd"
  shows "unat (rq_free_num rd) + card (open_slots rd) = unat num \<and>
    (\<forall>th' d rd'. rs_get_reqdump_data th' rd = Some (Some d, rd') \<longrightarrow>
       d < unat num \<and> d \<notin> open_slots rd \<and> open_slots rd' = insert d (open_slots rd))"
proof -
  have ok: "rq_ok rd" and num: "rq_num rd = num"
    using create_reqdump_ok [OF assms(1,2)] rq_reach_ok [OF assms(3)] by auto
  have "d < unat num \<and> d \<notin> open_slots rd \<and> open_slots rd' = insert d (open_slots rd)"
    if get: "rs_get_reqdump_data th' rd = Some (Some d, rd')" for th' d rd'
  proof -
    have lock: "th_lock th'" using get by (auto simp: rs_get_reqdump_data_def split: if_splits)
    from get_reqdump_result [OF ok lock get] show ?thesis
      using ok num by (metis option.distinct(1) option.inject rq_ok_def)
  qed
  with rq_ok_count(1) [OF ok] num show ?thesis by blast
qed

text \<open>
  Taking a slot is undefined exactly when all of them are in use: the branch that was meant to
  return NULL tests the table instead of the slot.
\<close>

theorem reqdump_exhausted:
  assumes "rs_create_reqdump os th p num fresh = Some (Some rd0, p')" and "length fresh = unat num"
    and "rq_reach rd0 rd" and "th_lock th'"
  shows "rs_get_reqdump_data th' rd = None \<longleftrightarrow> card (open_slots rd) = unat num"
proof -
  have ok: "rq_ok rd" and num: "rq_num rd = num"
    using create_reqdump_ok [OF assms(1,2)] rq_reach_ok [OF assms(3)] by auto
  have "rs_get_reqdump_data th' rd = None \<longleftrightarrow> rq_free rd = None"
  proof (cases "rq_free rd")
    case (Some d)
    from ok obtain fs where "free_chain (rq_data rd) (rq_free rd) fs" by (auto simp: rq_ok_def)
    with Some have "d < length (rq_data rd)" by (cases fs) auto
    with Some assms(4) show ?thesis by (simp add: rs_get_reqdump_data_def mem_get_def)
  qed (use assms(4) in \<open>simp add: rs_get_reqdump_data_def\<close>)
  with rq_ok_count(2) [OF ok] num show ?thesis by simp
qed


text \<open>A table of two slots, and a connection in the first one.\<close>

definition blank_slot :: rs_reqdump_data_t where
  "blank_slot =
     \<lparr>rd_cli_fd = 0, rd_notify_fd = 0, rd_dump_pos = 0, rd_dump_num = 0, rd_dump_file = [],
      rd_binlog_idx_file = None, rd_cbuf = None, rd_rb_esusec = 0, rd_filter_tables = None,
      rd_server_id = 0, rd_binlog_fp = None, rd_binlog_idx_fp = None, rd_ringbuf = None,
      rd_binlog_info =
        \<lparr>bi_np = 0, bi_el = 0, bi_sbl = 0, bi_tbl = 0, bi_sl = 0, bi_dbl = 0, bi_ai = 0,
         bi_cn = 0, bi_ml = 0, bi_dl = 0, bi_svrid = 0, bi_tranid = 0, bi_skip_n = 0,
         bi_sql = [], bi_db = [], bi_tb = [], bi_ct = [], bi_cm = [], bi_data = None,
         bi_t = 0, bi_intvar_t = 0, bi_mev = 0, bi_flush = False, bi_sent = False, bi_tran = False,
         bi_auto_incr = False, bi_log_format = False, bi_filter = False, bi_skip = False\<rparr>,
      rd_pool = None, rd_io_thread = 0, rd_dump_thread = 0, rd_send_buf = None, rd_io_buf = None,
      rd_data = None, rd_req_dump = False, rd_open = False, rd_io_thread_exit = False,
      rd_dump_thread_exit = False\<rparr>"

definition thr_good :: thr_ops where
  "thr_good = \<lparr>th_mutex_init = True, th_attr_init = True, th_setdetach = True, th_lock = True,
     th_unlock = True\<rparr>"

definition table2 :: "rs_reqdump_t option \<times> rs_pool_t" where
  "table2 = the (rs_create_reqdump (os_grant 7) thr_good (conf_pool RS_POOL_PREALLOC) 2
     [blank_slot, blank_slot])"

definition table2_taken :: "nat option \<times> rs_reqdump_t" where
  "table2_taken = the (rs_get_reqdump_data thr_good (the (fst table2)))"

definition busy_slot :: rs_reqdump_data_t where
  "busy_slot = (rq_data (snd table2_taken) ! 0)\<lparr>rd_cli_fd := 5, rd_io_thread := 3, rd_dump_thread := 4,
     rd_ringbuf := fst made_ring, rd_pool := Some (snd made_ring), rd_req_dump := True\<rparr>"

definition table2_busy :: rs_reqdump_t where
  "table2_busy = (snd table2_taken)\<lparr>rq_data := (rq_data (snd table2_taken))[0 := busy_slot]\<rparr>"

lemma table2_created:
  "rs_create_reqdump (os_grant 7) thr_good (conf_pool RS_POOL_PREALLOC) 2 [blank_slot, blank_slot] =
     Some (Some (the (fst table2)), snd table2)"
proof -
  have "\<not> Option.is_none (rs_create_reqdump (os_grant 7) thr_good (conf_pool RS_POOL_PREALLOC) 2
      [blank_slot, blank_slot])" "\<not> Option.is_none (fst table2)" by code_simp+
  then show ?thesis by (metis computes_Some table2_def prod.collapse)
qed

lemma table2_taken:
  "rs_get_reqdump_data thr_good (the (fst table2)) = Some (Some 0, snd table2_taken)"
  unfolding table2_taken_def by (rule computes_pair) code_simp+

lemma table2_busy_slot: "0 < length (rq_data (snd table2_taken))" "rd_open busy_slot"
  "rd_data busy_slot = rd_data (rq_data (snd table2_taken) ! 0)" "rd_open (rq_data (snd table2_taken) ! 0)"
  by code_simp+

lemma table2_busy_reach: "rq_reach (the (fst table2)) table2_busy"
proof -
  have "0 \<in> open_slots (snd table2_taken)" using table2_busy_slot by (simp add: open_slots_def)
  then have "rq_step (snd table2_taken) table2_busy"
    unfolding table2_busy_def using table2_busy_slot by (intro rq_step.fill)
  then show ?thesis
    using rq_step.get [OF table2_taken] by (blast intro: rq_reach.intros)
qed

lemma table2_busy_open: "open_slots table2_busy = {0}"
proof -
  have "length (rq_data table2_busy) = 2" "rd_open (rq_data table2_busy ! 0)"
    "\<not> rd_open (rq_data table2_busy ! 1)" by code_simp+
  then show ?thesis by (auto simp: open_slots_def less_2_cases_iff)
qed

theorem reqdump_slots_accounted_witness:
  "unat (rq_free_num table2_busy) + card (open_slots table2_busy) = unat (2 :: u32)"
  using reqdump_slots_accounted [OF table2_created _ table2_busy_reach] by simp

theorem reqdump_exhausted_witness:
  "rs_get_reqdump_data thr_good table2_busy = None \<longleftrightarrow> card (open_slots table2_busy) = unat (2 :: u32)"
  using reqdump_exhausted [OF table2_created _ table2_busy_reach, of thr_good]
  by (simp add: thr_good_def)


end
