(* ===== verification/RS_ReadBinlog.thy ===== *)
theory RS_ReadBinlog
  imports RS_ReqDump RS_String
begin

text \<open>
  Reading the binlog of the server while it is written: \<^verbatim>\<open>rs_has_next_binlog\<close> and
  \<^verbatim>\<open>rs_eof_read_binlog2\<close> of \<^verbatim>\<open>src/master/rs_read_binlog.c\<close>.

  The I/O thread works on its slot and on what surrounds it (\<open>io_state\<close>): the memory behind the
  messages in the ring, the answers of inotify, and a history, the list of what happens during the
  waits of the thread. A call that has not come back when the history ends is \<open>Running\<close>.
\<close>

section \<open>The state of the I/O thread\<close>

text \<open>What one wait brings: bytes written to the two files, and what the system calls answer.\<close>

record wait_ev =
  we_binlog :: "byte list"
  we_index :: "byte list"
  we_select :: rs_code
  we_read :: int

record io_state = rs_reqdump_data_t +
  io_heap :: "addr \<Rightarrow> byte list option"
  io_inotify :: "int \<times> int \<times> int" \<comment> \<open>descriptor and the two watches\<close>
  io_close :: int
  io_waits :: "wait_ev list"
  io_reader :: "nat list" \<comment> \<open>slots the dump thread releases during each sleep on a full ring\<close>
  io_stack :: nat \<comment> \<open>bytes of stack for the arrays of variable length\<close>

datatype io_code = Ret rs_code | Running

section \<open>Streams\<close>

definition rs_fread :: "rs_file \<Rightarrow> nat \<Rightarrow> byte list \<times> rs_file" where
  "rs_fread f n =
     (if f_sticky f \<and> f_eof f \<or> f_err f then ([], f)
      else let bs = take n (drop (f_pos f) (f_bytes f)) in
        (bs, f\<lparr>f_pos := f_pos f + length bs, f_eof := f_eof f \<or> length bs < n\<rparr>))"

definition f_grow :: "byte list \<Rightarrow> rs_file \<Rightarrow> rs_file" where
  "f_grow bs f = f\<lparr>f_bytes := f_bytes f @ bs\<rparr>"

text \<open>The bytes \<^verbatim>\<open>fgets\<close> stores for a buffer of n + 1 bytes.\<close>

fun fgets_line :: "nat \<Rightarrow> byte list \<Rightarrow> byte list" where
  "fgets_line n [] = []"
| "fgets_line n (b # bs) =
     (if n = 0 then [] else b # (if b = 10 then [] else fgets_line (n - 1) bs))"

lemma fgets_line_prefix: "\<exists>r. bs = fgets_line n bs @ r"
  by (induction n bs rule: fgets_line.induct) auto

lemma fgets_line_rest: "fgets_line n bs \<noteq> [] \<Longrightarrow> length (drop (length (fgets_line n bs)) bs) < length bs"
  using fgets_line_prefix [of bs n] by (cases "length bs") auto

section \<open>The next binlog\<close>

text \<open>
  The loop over the lines of the index file: none at the end of the file, otherwise the first line
  whose number is larger, its length and its number.
\<close>

function next_binlog_loop :: "u32 \<Rightarrow> byte list \<Rightarrow> (byte list \<times> nat \<times> u32) option option" where
  "next_binlog_loop num bs =
     (let s = fgets_line 4095 bs in
      if s = [] then Some None
      else do {
        len \<leftarrow> c_strlen (s @ [0]);
        if len < 2 then None
        else do {
          n \<leftarrow> rs_estr_to_uint32 (s @ [0]) (len - 2);
          if n \<le> num then next_binlog_loop num (drop (length s) bs)
          else Some (Some (s, len, n)) } })"
  by pat_completeness auto
termination
  by (relation "measure (\<lambda>(num, bs). length bs)") (auto intro!: fgets_line_rest simp del: length_drop)

declare next_binlog_loop.simps [simp del]

text \<open>
  Every call starts with \<^verbatim>\<open>fseek\<close> and \<^verbatim>\<open>clearerr\<close>, so the position of the
  index file between calls is not kept.
\<close>

definition rs_has_next_binlog :: "io_state \<Rightarrow> (rs_code \<times> io_state) option" where
  "rs_has_next_binlog s = do {
     fp \<leftarrow> rd_binlog_idx_fp s;
     if f_err fp then Some (RS_ERR, s)
     else do {
       found \<leftarrow> next_binlog_loop (rd_dump_num s) (f_bytes fp);
       case found of
         None \<Rightarrow> Some (RS_NO_BINLOG, s)
       | Some (line, len, n) \<Rightarrow> do {
           file \<leftarrow> arr_write path_cap (rd_dump_file s) 0 (take (len + 1) (line @ [0]));
           file' \<leftarrow> arr_write path_cap file (len - 1) [0];
           Some (RS_OK, s\<lparr>rd_dump_file := file', rd_dump_num := n, rd_dump_pos := 0\<rparr>) } } }"

section \<open>Reading with waits\<close>

text \<open>The inotify descriptor and its watches, made at the first wait of a call.\<close>

definition watch_files :: "io_state \<Rightarrow> bool \<times> io_state" where
  "watch_files s =
     (if rd_notify_fd s = -1 then
        (case io_inotify s of (fd, wd1, wd2) \<Rightarrow>
           (0 \<le> fd \<and> 0 \<le> wd1 \<and> 0 \<le> wd2, s\<lparr>rd_notify_fd := fd\<rparr>))
      else (True, s))"

text \<open>
  One wait, for the binlog f. What is done with the notifications that were read has no effect on
  the state. The result is none to go around again, otherwise the result of the call.
\<close>

definition wait_once :: "rs_file \<Rightarrow> io_state \<Rightarrow> io_code option \<times> io_state" where
  "wait_once f s =
     (case io_waits s of
        [] \<Rightarrow> (Some Running, s)
      | w # ws \<Rightarrow>
          (if we_select w = RS_ERR \<or> (we_select w \<noteq> RS_TIMEDOUT \<and> we_read w \<le> 0)
           then Some (Ret RS_ERR) else None,
           s\<lparr>io_waits := ws, rd_binlog_fp := Some (f_grow (we_binlog w) f),
             rd_binlog_idx_fp := map_option (f_grow (we_index w)) (rd_binlog_idx_fp s)\<rparr>))"

text \<open>The part of the loop for a read that brought nothing.\<close>

definition eof_wait :: "io_state \<Rightarrow> (io_code option \<times> io_state) option" where
  "eof_wait s = do {
     f \<leftarrow> rd_binlog_fp s;
     if \<not> f_eof f \<and> f_err f then Some (Some (Ret RS_ERR), s)
     else do {
       let (watching, s1) = watch_files s;
       if \<not> watching then Some (Some (Ret RS_ERR), s1)
       else do {
         (r, s2) \<leftarrow> rs_has_next_binlog s1;
         if r = RS_OK then Some (Some (Ret RS_HAS_BINLOG), s2)
         else if r = RS_ERR then Some (Some (Ret RS_ERR), s2)
         else Some (wait_once f s2) } } }"

lemma watch_files_frame:
  "rd_io_buf (snd (watch_files s)) = rd_io_buf s" "rd_binlog_fp (snd (watch_files s)) = rd_binlog_fp s"
  "rd_binlog_idx_fp (snd (watch_files s)) = rd_binlog_idx_fp s" "io_waits (snd (watch_files s)) = io_waits s"
  by (auto simp: watch_files_def split: prod.split)

lemma has_next_waits: "rs_has_next_binlog s = Some (r, s') \<Longrightarrow> io_waits s' = io_waits s"
  by (auto simp: rs_has_next_binlog_def bind_eq_Some_conv split: if_splits option.splits)

lemma has_next_unchanged: "rs_has_next_binlog s = Some (r, s') \<Longrightarrow> r \<noteq> RS_OK \<Longrightarrow> s' = s"
  by (auto simp: rs_has_next_binlog_def bind_eq_Some_conv split: if_splits option.splits)

text \<open>Going around again means that a wait of the history has been used.\<close>

lemma eof_wait_again:
  assumes "eof_wait s = Some (None, s')"
  obtains f w ws where "rd_binlog_fp s = Some f" and "io_waits s = w # ws"
    and "s' = (snd (watch_files s))\<lparr>io_waits := ws, rd_binlog_fp := Some (f_grow (we_binlog w) f),
             rd_binlog_idx_fp := map_option (f_grow (we_index w)) (rd_binlog_idx_fp s)\<rparr>"
    and "f_eof f \<or> \<not> f_err f"
proof -
  obtain watching s1 where w: "watch_files s = (watching, s1)" by fastforce
  then have s1: "io_waits s1 = io_waits s" "rd_binlog_idx_fp s1 = rd_binlog_idx_fp s"
    by (auto simp: watch_files_def split: if_splits prod.splits)
  from assms w obtain f r s2 where f: "rd_binlog_fp s = Some f" "f_eof f \<or> \<not> f_err f"
    and r: "rs_has_next_binlog s1 = Some (r, s2)" "r \<noteq> RS_OK"
    and wait: "wait_once f s2 = (None, s')"
    by (auto simp: eof_wait_def bind_eq_Some_conv split: if_splits)
  have "s2 = s1" using has_next_unchanged [OF r] .
  with wait s1 w f that show thesis
    by (cases "io_waits s") (simp_all add: wait_once_def)
qed

lemma eof_wait_not_ok: "eof_wait s \<noteq> Some (Some (Ret RS_OK), s')"
proof
  assume "eof_wait s = Some (Some (Ret RS_OK), s')"
  then obtain f s2 where "wait_once f s2 = (Some (Ret RS_OK), s')"
    by (auto simp: eof_wait_def bind_eq_Some_conv split: if_splits prod.splits)
  then show False by (auto simp: wait_once_def split: list.splits if_splits)
qed

lemma eof_wait_waits: "eof_wait s = Some (None, s') \<Longrightarrow> length (io_waits s') < length (io_waits s)"
  by (erule eof_wait_again) simp

function eof_loop :: "nat \<Rightarrow> byte list \<Rightarrow> io_state \<Rightarrow> (io_code \<times> byte list \<times> io_state) option" where
  "eof_loop sz acc s =
     (if sz \<le> length acc then Some (Ret RS_OK, acc, s)
      else do {
        f \<leftarrow> rd_binlog_fp s;
        b \<leftarrow> rd_io_buf s;
        let (bs, f') = rs_fread f (unat (b_size b));
        let s1 = s\<lparr>rd_binlog_fp := Some f'\<rparr>;
        if bs \<noteq> [] then do {
          mem \<leftarrow> mem_write (b_mem b) 0 bs;
          let ls = min (length bs) (sz - length acc);
          eof_loop sz (acc @ take ls bs)
            (s1\<lparr>rd_io_buf := Some (b\<lparr>b_mem := mem, b_pos := ls, b_last := length bs\<rparr>)\<rparr>) }
        else do {
          (r, s2) \<leftarrow> eof_wait s1;
          case r of Some c \<Rightarrow> Some (c, acc, s2) | None \<Rightarrow> eof_loop sz acc s2 } })"
  by pat_completeness auto
termination
  by (relation "measures [\<lambda>(sz, acc, s). length (io_waits s), \<lambda>(sz, acc, s). sz - length acc]")
    (auto dest: eof_wait_waits simp: diff_less_mono2 neq_Nil_conv)

declare eof_loop.simps [simp del]

text \<open>\<^verbatim>\<open>(uint32_t) (last - pos)\<close> of a buffer.\<close>

definition buf_left :: "rs_buf_t \<Rightarrow> nat" where
  "buf_left b = unat (of_int (int (b_last b) - int (b_pos b)) :: u32)"

text \<open>The end of the call: \<^verbatim>\<open>clearerr\<close> after a success, and the inotify descriptor is closed.\<close>

definition eof_finish :: "io_code \<Rightarrow> io_state \<Rightarrow> io_code \<times> io_state" where
  "eof_finish r s =
     (let s1 = (if r = Ret RS_OK
                then s\<lparr>rd_binlog_fp := map_option (\<lambda>f. f\<lparr>f_eof := False\<rparr>) (rd_binlog_fp s)\<rparr> else s) in
      if r = Running \<or> rd_notify_fd s1 = -1 then (r, s1)
      else (if io_close s1 \<noteq> 0 then Ret RS_ERR else r, s1\<lparr>rd_notify_fd := -1\<rparr>))"

text \<open>The bytes stored through \<^verbatim>\<open>buf\<close> are returned with the code.\<close>

definition rs_eof_read_binlog2 ::
    "io_state \<Rightarrow> nat \<Rightarrow> (io_code \<times> byte list \<times> io_state) option" where
  "rs_eof_read_binlog2 s sz = do {
     b \<leftarrow> rd_io_buf s;
     let ms = min (buf_left b) sz;
     have \<leftarrow> mem_read (b_mem b) (b_pos b) ms;
     (r, out, s1) \<leftarrow> eof_loop sz have (s\<lparr>rd_io_buf := Some (b\<lparr>b_pos := b_pos b + ms\<rparr>)\<rparr>);
     let (r', s') = eof_finish r s1;
     Some (r', out, s') }"

section \<open>The stream of the binlog\<close>

text \<open>
  What a read may change even when it succeeds is left out of \<open>io_core\<close>; two states with the same
  core agree on everything else.
\<close>

definition io_core :: "io_state \<Rightarrow> io_state" where
  "io_core s = s\<lparr>rd_notify_fd := -1, rd_binlog_fp := None, rd_binlog_idx_fp := None,
                rd_io_buf := None, io_waits := []\<rparr>"

lemma io_core_fields:
  assumes "io_core s' = io_core s"
  shows "rd_dump_pos s' = rd_dump_pos s" "rd_dump_num s' = rd_dump_num s"
    "rd_dump_file s' = rd_dump_file s" "rd_binlog_info s' = rd_binlog_info s"
    "rd_filter_tables s' = rd_filter_tables s" "rd_server_id s' = rd_server_id s"
    "rd_ringbuf s' = rd_ringbuf s" "rd_pool s' = rd_pool s" "io_heap s' = io_heap s"
    "io_reader s' = io_reader s" "io_stack s' = io_stack s"
  using arg_cong [OF assms, of rd_dump_pos] arg_cong [OF assms, of rd_dump_num]
    arg_cong [OF assms, of rd_dump_file] arg_cong [OF assms, of rd_binlog_info]
    arg_cong [OF assms, of rd_filter_tables] arg_cong [OF assms, of rd_server_id]
    arg_cong [OF assms, of rd_ringbuf] arg_cong [OF assms, of rd_pool]
    arg_cong [OF assms, of io_heap] arg_cong [OF assms, of io_reader] arg_cong [OF assms, of io_stack]
  by (simp_all add: io_core_def)

lemma io_core_update [simp]:
  "io_core (s\<lparr>rd_notify_fd := n\<rparr>) = io_core s" "io_core (s\<lparr>rd_binlog_fp := f\<rparr>) = io_core s"
  "io_core (s\<lparr>rd_binlog_idx_fp := x\<rparr>) = io_core s" "io_core (s\<lparr>rd_io_buf := b\<rparr>) = io_core s"
  "io_core (s\<lparr>io_waits := ws\<rparr>) = io_core s"
  by (simp_all add: io_core_def)

lemma io_core_watch [simp]: "io_core (snd (watch_files s)) = io_core s"
  by (auto simp: watch_files_def split: prod.split)

text \<open>The buffer holds the bytes of the file in front of the position of the stream.\<close>

definition io_sync :: "io_state \<Rightarrow> bool" where
  "io_sync s \<longleftrightarrow> (case (rd_binlog_fp s, rd_io_buf s) of
     (Some f, Some b) \<Rightarrow>
       buf_ok b \<and> length (unread b) \<le> f_pos f \<and>
       unread b = take (length (unread b)) (drop (f_pos f - length (unread b)) (f_bytes f))
   | _ \<Rightarrow> False)"

definition binlog_bytes :: "io_state \<Rightarrow> byte list" where
  "binlog_bytes s = (case rd_binlog_fp s of Some f \<Rightarrow> f_bytes f | None \<Rightarrow> [])"

text \<open>How far into the file the thread has read, without what waits in the buffer.\<close>

definition binlog_at :: "io_state \<Rightarrow> nat" where
  "binlog_at s = (case (rd_binlog_fp s, rd_io_buf s) of
     (Some f, Some b) \<Rightarrow> f_pos f - length (unread b) | _ \<Rightarrow> 0)"

lemma io_syncE:
  assumes "io_sync s"
  obtains f b where "rd_binlog_fp s = Some f" and "rd_io_buf s = Some b" and "buf_ok b"
    and "length (unread b) \<le> f_pos f"
    and "unread b = take (length (unread b)) (drop (f_pos f - length (unread b)) (f_bytes f))"
    and "binlog_at s = f_pos f - length (unread b)" and "binlog_bytes s = f_bytes f"
  using assms by (auto simp: io_sync_def binlog_at_def binlog_bytes_def split: option.splits)

lemma io_syncI:
  assumes "rd_binlog_fp s = Some f" and "rd_io_buf s = Some b" and "buf_ok b"
    and "length (unread b) \<le> f_pos f"
    and "unread b = take (length (unread b)) (drop (f_pos f - length (unread b)) (f_bytes f))"
  shows "io_sync s" "binlog_at s = f_pos f - length (unread b)" "binlog_bytes s = f_bytes f"
  using assms by (simp_all add: io_sync_def binlog_at_def binlog_bytes_def del: length_unread)

lemma unread_empty_iff: "buf_ok b \<Longrightarrow> unread b = [] \<longleftrightarrow> b_pos b = b_last b"
  by (auto simp: buf_ok_def unread_def)

text \<open>One refill of the buffer.\<close>

lemma fread_refill:
  assumes read: "rs_fread f n = (bs, f')" and b: "buf_ok b" "n = unat (b_size b)" and ls: "ls \<le> length bs"
    and mem: "mem_write (b_mem b) 0 bs = Some mem"
    and b': "b' = b\<lparr>b_mem := mem, b_pos := ls, b_last := length bs\<rparr>"
  shows "buf_ok b'" and "unread b' = drop ls bs" and "f_bytes f' = f_bytes f"
    and "f_pos f' = f_pos f + length bs" and "bs = take (length bs) (drop (f_pos f) (f_bytes f))"
proof -
  show "f_bytes f' = f_bytes f" "f_pos f' = f_pos f + length bs"
    "bs = take (length bs) (drop (f_pos f) (f_bytes f))"
    using read by (auto simp: rs_fread_def Let_def min_def split: if_splits)
  show "buf_ok b'" "unread b' = drop ls bs"
    using b ls mem by (auto simp: buf_ok_def unread_def mem_write_def b' split: if_splits)
qed

lemma take_drop_extend:
  assumes "acc = take m (drop a xs)" and "bs = take n (drop (a + m) xs)"
  shows "acc @ bs = take (m + n) (drop a xs)"
  using assms take_add [of m n "drop a xs"] by (simp add: add.commute)

lemma take_grown:
  assumes "acc = take (length acc) (drop a xs)"
  shows "acc = take (length acc) (drop a (xs @ ys))"
proof -
  have "length acc \<le> length xs - a" using arg_cong [OF assms, of length] by simp
  then have "take (length acc) (drop a (xs @ ys)) = take (length acc) (drop a xs)" by simp
  with assms show ?thesis by simp
qed

lemma take_segments:
  assumes "bs = take (length bs) ys"
  shows "drop k bs = take (length bs - k) (drop k ys)" "take k bs = take (min k (length bs)) ys"
  using arg_cong [OF assms, of "drop k"] arg_cong [OF assms, of "take k"]
  by (simp_all only: drop_take take_take)

lemma refill_sync:
  assumes f: "rd_binlog_fp s = Some f" and b: "buf_ok b" and read: "rs_fread f (unat (b_size b)) = (bs, f')"
    and mem: "mem_write (b_mem b) 0 bs = Some mem" and ls: "ls \<le> length bs"
    and b': "b' = b\<lparr>b_mem := mem, b_pos := ls, b_last := length bs\<rparr>"
    and s': "s' = s\<lparr>rd_binlog_fp := Some f', rd_io_buf := Some b'\<rparr>"
  shows "io_sync s'" and "binlog_at s' = f_pos f + ls" and "binlog_bytes s' = f_bytes f"
    and "unread b' = drop ls bs" and "take ls bs = take ls (drop (f_pos f) (f_bytes f))"
proof -
  note re = fread_refill [OF read b refl ls mem b']
  note seg = take_segments [OF re(5), of ls]
  show un: "unread b' = drop ls bs" by (rule re(2))
  show "take ls bs = take ls (drop (f_pos f) (f_bytes f))" using seg(2) ls by simp
  have l: "length (unread b') = length bs - ls" using un by simp
  have f': "f_pos f' - length (unread b') = f_pos f + ls" "length (unread b') \<le> f_pos f'"
    unfolding l re(4) using ls by linarith+
  have "unread b' = take (length (unread b')) (drop (f_pos f' - length (unread b')) (f_bytes f'))"
    unfolding l re(3) f'(1) [unfolded l] using seg(1) un by (simp only: drop_drop add.commute)
  from io_syncI [of s' f' b', OF _ _ re(1) f'(2) this]
  show "io_sync s'" "binlog_at s' = f_pos f + ls" "binlog_bytes s' = f_bytes f"
    unfolding f'(1) re(3) by (simp_all add: s')
qed

text \<open>A loop that ends well has collected the next bytes of the file.\<close>

lemma eof_loop_ok:
  assumes "eof_loop sz acc s = Some (Ret RS_OK, out, s')"
    and "io_sync s" and "acc = take (length acc) (drop a (binlog_bytes s))"
    and "binlog_at s = a + length acc" and "length acc \<le> sz"
    and "length acc < sz \<Longrightarrow> \<forall>b. rd_io_buf s = Some b \<longrightarrow> unread b = []"
  shows "length out = sz \<and> io_sync s' \<and> out = take sz (drop a (binlog_bytes s')) \<and>
    binlog_at s' = a + sz \<and> io_core s' = io_core s \<and> prefix (binlog_bytes s) (binlog_bytes s')"
  using assms
proof (induction sz acc s rule: eof_loop.induct)
  case (1 sz acc s)
  note unf = eof_loop.simps [of sz acc s]
  show ?case
  proof (cases "sz \<le> length acc")
    case True
    with "1.prems" unf show ?thesis by auto
  next
    case False
    from "1.prems"(2) obtain f b where fb: "rd_binlog_fp s = Some f" "rd_io_buf s = Some b" "buf_ok b"
      and at: "binlog_at s = f_pos f - length (unread b)" and bytes: "binlog_bytes s = f_bytes f"
      by (rule io_syncE)
    have un: "unread b = []" using "1.prems"(6) False fb(2) by simp
    with at have pos: "f_pos f = a + length acc" using "1.prems"(4) by simp
    obtain bs f' where read: "rs_fread f (unat (b_size b)) = (bs, f')" by fastforce
    note step = trans [OF unf [symmetric] "1.prems"(1)]
    show ?thesis
    proof (cases "bs = []")
      case bs: False
      let ?ls = "min (length bs) (sz - length acc)"
      from step False fb read bs obtain mem where mem: "mem_write (b_mem b) 0 bs = Some mem"
        by (auto simp: bind_eq_Some_conv)
      let ?b = "b\<lparr>b_mem := mem, b_pos := ?ls, b_last := length bs\<rparr>"
      let ?s = "s\<lparr>rd_binlog_fp := Some f', rd_io_buf := Some ?b\<rparr>"
      from step False fb read bs mem
      have rec: "eof_loop sz (acc @ take ?ls bs) ?s = Some (Ret RS_OK, out, s')" by (simp add: Let_def)
      note re = refill_sync [OF fb(1,3) read mem min.cobounded1 refl refl, of "sz - length acc"]
      have "take ?ls bs = take ?ls (drop (a + length acc) (f_bytes f))" using re(5) pos by simp
      note ext = take_drop_extend [OF "1.prems"(3) [unfolded bytes] this]
      have len: "length (acc @ take ?ls bs) = length acc + ?ls" by simp
      have acc: "acc @ take ?ls bs = take (length (acc @ take ?ls bs)) (drop a (binlog_bytes ?s))"
        unfolding len re(3) by (rule ext)
      have un': "unread ?b = []" if "length (acc @ take ?ls bs) < sz"
        using that re(4) by (simp add: min_def split: if_splits)
      have "length out = sz \<and> io_sync s' \<and> out = take sz (drop a (binlog_bytes s')) \<and>
          binlog_at s' = a + sz \<and> io_core s' = io_core ?s \<and> prefix (binlog_bytes ?s) (binlog_bytes s')"
        by (rule "1.IH"(1) [OF False fb(1,2) refl read [symmetric] refl bs mem refl rec re(1) acc])
          (use re(2) pos False un' in auto)
      from this [unfolded re(3)] show ?thesis unfolding bytes by (metis io_core_update(2,4))
    next
      case True
      let ?s1 = "s\<lparr>rd_binlog_fp := Some f'\<rparr>"
      from step False fb read True
      have br: "do { (r, s2) \<leftarrow> eof_wait ?s1;
          case r of Some c \<Rightarrow> Some (c, acc, s2) | None \<Rightarrow> eof_loop sz acc s2 } = Some (Ret RS_OK, out, s')"
        by (simp add: Let_def)
      then obtain r s2 where wait': "eof_wait ?s1 = Some (r, s2)" by (cases "eof_wait ?s1") auto
      have "r = None" using br wait' eof_wait_not_ok [of ?s1 s2] by (cases r) auto
      with wait' br have wait: "eof_wait ?s1 = Some (None, s2)"
        and rec: "eof_loop sz acc s2 = Some (Ret RS_OK, out, s')" by simp_all
      obtain f2 w ws where "rd_binlog_fp ?s1 = Some f2" "io_waits ?s1 = w # ws"
        "s2 = (snd (watch_files ?s1))\<lparr>io_waits := ws, rd_binlog_fp := Some (f_grow (we_binlog w) f2),
           rd_binlog_idx_fp := map_option (f_grow (we_index w)) (rd_binlog_idx_fp ?s1)\<rparr>"
        by (rule eof_wait_again [OF wait]) (rule that)
      then have s2: "s2 = (snd (watch_files ?s1))
          \<lparr>io_waits := ws, rd_binlog_fp := Some (f_grow (we_binlog w) f'),
           rd_binlog_idx_fp := map_option (f_grow (we_index w)) (rd_binlog_idx_fp s)\<rparr>" by simp
      note w = watch_files_frame [of "s\<lparr>rd_binlog_fp := Some f'\<rparr>"]
      have f': "f_pos f' = f_pos f" "f_bytes f' = f_bytes f"
        using read True by (auto simp: rs_fread_def Let_def split: if_splits)
      have fb2: "rd_binlog_fp s2 = Some (f_grow (we_binlog w) f')" "rd_io_buf s2 = Some b"
        using s2 w fb by simp_all
      then have sync: "io_sync s2" and at2: "binlog_at s2 = a + length acc"
        and bytes2: "binlog_bytes s2 = f_bytes f @ we_binlog w"
        using io_syncI [OF fb2 fb(3)] un f' pos by (simp_all add: f_grow_def)
      have acc: "acc = take (length acc) (drop a (binlog_bytes s2))"
        using take_grown [OF "1.prems"(3)] unfolding bytes bytes2 .
      have "length out = sz \<and> io_sync s' \<and> out = take sz (drop a (binlog_bytes s')) \<and>
          binlog_at s' = a + sz \<and> io_core s' = io_core s2 \<and> prefix (binlog_bytes s2) (binlog_bytes s')"
        by (rule "1.IH"(2) [OF False fb(1,2) refl read [symmetric] refl _ wait refl refl rec sync acc at2])
          (use True "1.prems"(5) fb2 un in auto)
      moreover have "io_core s2 = io_core s" using s2 w by simp
      moreover have "prefix (f_bytes f) (f_bytes f @ we_binlog w)" by simp
      ultimately show ?thesis unfolding bytes bytes2 by (metis prefix_order.trans)
    qed
  qed
qed

lemma buf_left_unread: "buf_ok b \<Longrightarrow> buf_left b = length (unread b)"
proof -
  assume b: "buf_ok b"
  then have "b_last b - b_pos b < 2 ^ 32"
    using unsigned_less [of "b_size b", where ?'a = nat] by (auto simp: buf_ok_def)
  moreover have "int (b_last b) - int (b_pos b) = int (b_last b - b_pos b)"
    using b by (simp add: buf_ok_def)
  ultimately show ?thesis using b unfolding buf_left_def by (simp add: unat_of_nat del: of_int_diff of_nat_diff)
qed

text \<open>The state in which the loop starts: the bytes the buffer had are collected.\<close>

lemma eof_read_start:
  assumes sync: "io_sync s" and b: "rd_io_buf s = Some b" and ms: "ms = min (length (unread b)) sz"
    and s1: "s1 = s\<lparr>rd_io_buf := Some (b\<lparr>b_pos := b_pos b + ms\<rparr>)\<rparr>"
  shows "rs_eof_read_binlog2 s sz = do {
      (r, out, s2) \<leftarrow> eof_loop sz (take ms (unread b)) s1;
      Some (fst (eof_finish r s2), out, snd (eof_finish r s2)) }"
    and "io_sync s1" and "binlog_at s1 = binlog_at s + ms" and "binlog_bytes s1 = binlog_bytes s"
    and "take ms (unread b) = take (length (take ms (unread b))) (drop (binlog_at s) (binlog_bytes s))"
    and "length (take ms (unread b)) = ms" and "ms \<le> sz"
    and "ms < sz \<Longrightarrow> \<forall>b. rd_io_buf s1 = Some b \<longrightarrow> unread b = []"
proof -
  from sync b obtain f where f: "rd_binlog_fp s = Some f" "buf_ok b" "length (unread b) \<le> f_pos f"
    and un: "unread b = take (length (unread b)) (drop (f_pos f - length (unread b)) (f_bytes f))"
    and at: "binlog_at s = f_pos f - length (unread b)" and bytes: "binlog_bytes s = f_bytes f"
    by (auto elim!: io_syncE simp del: length_unread)
  have le: "ms \<le> b_last b - b_pos b" using f(2) ms by simp
  note adv = unread_advance [OF f(2) le]
  show "rs_eof_read_binlog2 s sz = do {
      (r, out, s2) \<leftarrow> eof_loop sz (take ms (unread b)) s1;
      Some (fst (eof_finish r s2), out, snd (eof_finish r s2)) }"
    unfolding rs_eof_read_binlog2_def using b ms adv(1)
    by (simp add: buf_left_unread [OF f(2)] s1 Let_def split_def del: length_unread)
  let ?b = "b\<lparr>b_pos := b_pos b + ms\<rparr>"
  have b': "buf_ok ?b" "unread ?b = drop ms (unread b)" using adv by auto
  have l: "length (unread ?b) = length (unread b) - ms" using b'(2) by simp
  have p: "f_pos f - length (unread ?b) = f_pos f - length (unread b) + ms" "length (unread ?b) \<le> f_pos f"
    using l f(3) ms by linarith+
  have "unread ?b = take (length (unread ?b)) (drop (f_pos f - length (unread ?b)) (f_bytes f))"
    unfolding l p(1) [unfolded l] using take_segments(1) [OF un, of ms] b'(2)
    by (simp only: drop_drop add.commute)
  from io_syncI [of s1 f ?b, OF _ _ b'(1) p(2) this]
  show "io_sync s1" "binlog_at s1 = binlog_at s + ms" "binlog_bytes s1 = binlog_bytes s"
    using f(1) p(1) at bytes by (simp_all add: s1 del: length_unread)
  show lm: "length (take ms (unread b)) = ms" using ms f(2) by simp
  show "take ms (unread b) = take (length (take ms (unread b))) (drop (binlog_at s) (binlog_bytes s))"
    unfolding lm at bytes using take_segments(2) [OF un, of ms] ms by simp
  show "ms \<le> sz" by (simp add: ms)
  show "\<forall>b. rd_io_buf s1 = Some b \<longrightarrow> unread b = []" if "ms < sz"
    using that b'(2) ms f(2) by (simp add: s1)
qed

lemma eof_finish_ok: "fst (eof_finish r s) = Ret RS_OK \<Longrightarrow> r = Ret RS_OK"
  by (auto simp: eof_finish_def Let_def split: if_splits)

lemma eof_finish_frame [simp]:
  "io_sync (snd (eof_finish r s)) = io_sync s" "binlog_at (snd (eof_finish r s)) = binlog_at s"
  "binlog_bytes (snd (eof_finish r s)) = binlog_bytes s" "io_core (snd (eof_finish r s)) = io_core s"
  by (auto simp: eof_finish_def io_sync_def binlog_at_def binlog_bytes_def Let_def split: option.splits)

lemma eof_read_ok:
  assumes sync: "io_sync s" and read: "rs_eof_read_binlog2 s sz = Some (Ret RS_OK, out, s')"
  shows "length out = sz" and "out = take sz (drop (binlog_at s) (binlog_bytes s'))"
    and "io_sync s'" and "binlog_at s' = binlog_at s + sz" and "io_core s' = io_core s"
    and "prefix (binlog_bytes s) (binlog_bytes s')"
proof -
  obtain b where b: "rd_io_buf s = Some b" using sync by (auto elim: io_syncE)
  note start = eof_read_start [OF sync b refl refl, of sz]
  let ?ms = "min (length (unread b)) sz"
  let ?s1 = "s\<lparr>rd_io_buf := Some (b\<lparr>b_pos := b_pos b + ?ms\<rparr>)\<rparr>"
  from read start(1) obtain r s2 where loop: "eof_loop sz (take ?ms (unread b)) ?s1 = Some (r, out, s2)"
    and fin: "fst (eof_finish r s2) = Ret RS_OK" "s' = snd (eof_finish r s2)"
    by (auto simp: bind_eq_Some_conv)
  have "length out = sz \<and> io_sync s2 \<and> out = take sz (drop (binlog_at s) (binlog_bytes s2)) \<and>
      binlog_at s2 = binlog_at s + sz \<and> io_core s2 = io_core ?s1 \<and> prefix (binlog_bytes ?s1) (binlog_bytes s2)"
  proof (rule eof_loop_ok [OF loop [unfolded eof_finish_ok [OF fin(1)]] start(2)])
    show "take ?ms (unread b) = take (length (take ?ms (unread b))) (drop (binlog_at s) (binlog_bytes ?s1))"
      unfolding start(4) by (rule start(5))
    show "binlog_at ?s1 = binlog_at s + length (take ?ms (unread b))"
      unfolding start(6) by (rule start(3))
    show "length (take ?ms (unread b)) \<le> sz" unfolding start(6) by (rule start(7))
    show "\<forall>b. rd_io_buf ?s1 = Some b \<longrightarrow> unread b = []" if "length (take ?ms (unread b)) < sz"
      using start(8) that unfolding start(6) .
  qed
  then show "length out = sz" "out = take sz (drop (binlog_at s) (binlog_bytes s'))"
    "io_sync s'" "binlog_at s' = binlog_at s + sz" "io_core s' = io_core s"
    "prefix (binlog_bytes s) (binlog_bytes s')"
    unfolding fin(2) eof_finish_frame start(4) io_core_update by blast+
qed

text \<open>When the bytes are already in the file, the call returns without waiting.\<close>

definition can_read :: "io_state \<Rightarrow> bool" where
  "can_read s \<longleftrightarrow> (case (rd_binlog_fp s, rd_io_buf s) of
     (Some f, Some b) \<Rightarrow> \<not> f_err f \<and> \<not> (f_sticky f \<and> f_eof f) \<and> 0 < unat (b_size b) | _ \<Rightarrow> False)"

lemma eof_loop_available:
  assumes "io_sync s" and "length acc < sz \<Longrightarrow> can_read s" and "binlog_at s = a + length acc" and "length acc \<le> sz"
    and "a + sz \<le> length (binlog_bytes s)"
    and "length acc < sz \<Longrightarrow> \<forall>b. rd_io_buf s = Some b \<longrightarrow> unread b = []"
  shows "\<exists>out s'. eof_loop sz acc s = Some (Ret RS_OK, out, s') \<and> io_waits s' = io_waits s \<and>
    binlog_bytes s' = binlog_bytes s \<and> rd_notify_fd s' = rd_notify_fd s"
  using assms
proof (induction "sz - length acc" arbitrary: acc s rule: less_induct)
  case less
  note unf = eof_loop.simps [of sz acc s]
  show ?case
  proof (cases "sz \<le> length acc")
    case True
    with unf show ?thesis by simp
  next
    case False
    from less.prems(1) obtain f b where fb: "rd_binlog_fp s = Some f" "rd_io_buf s = Some b" "buf_ok b"
      and at: "binlog_at s = f_pos f - length (unread b)" and bytes: "binlog_bytes s = f_bytes f"
      by (rule io_syncE)
    have un: "unread b = []" using less.prems(6) False fb(2) by simp
    with at have pos: "f_pos f = a + length acc" using less.prems(3) by simp
    have can: "\<not> f_err f" "\<not> (f_sticky f \<and> f_eof f)" "0 < unat (b_size b)"
      using less.prems(2) False fb by (simp_all add: can_read_def)
    define bs where "bs = take (unat (b_size b)) (drop (f_pos f) (f_bytes f))"
    define f' where "f' = f\<lparr>f_pos := f_pos f + length bs, f_eof := f_eof f \<or> length bs < unat (b_size b)\<rparr>"
    have read: "rs_fread f (unat (b_size b)) = (bs, f')"
      using can by (auto simp: rs_fread_def Let_def bs_def f'_def)
    have ne: "bs \<noteq> []" using can(3) pos False less.prems(5) bytes by (simp add: bs_def)
    obtain mem where mem: "mem_write (b_mem b) 0 bs = Some mem"
      using fb(3) by (auto simp: mem_write_def buf_ok_def bs_def)
    let ?ls = "min (length bs) (sz - length acc)"
    let ?b = "b\<lparr>b_mem := mem, b_pos := ?ls, b_last := length bs\<rparr>"
    let ?s = "s\<lparr>rd_binlog_fp := Some f', rd_io_buf := Some ?b\<rparr>"
    have step: "eof_loop sz acc s = eof_loop sz (acc @ take ?ls bs) ?s"
      using unf False fb read ne mem by (simp add: Let_def)
    note re = refill_sync [OF fb(1,3) read mem min.cobounded1 refl refl, of "sz - length acc"]
    have more: "sz - length (acc @ take ?ls bs) < sz - length acc"
      using ne False by (auto simp: diff_less_mono2 neq_Nil_conv)
    have un': "unread ?b = []" if "length (acc @ take ?ls bs) < sz"
      using that re(4) by (simp add: min_def split: if_splits)
    have full: "length bs = unat (b_size b)" if "length (acc @ take ?ls bs) < sz"
      using that less.prems(5) pos bytes by (auto simp: min_def bs_def split: if_splits)
    have "\<exists>out s'. eof_loop sz (acc @ take ?ls bs) ?s = Some (Ret RS_OK, out, s') \<and> io_waits s' = io_waits ?s \<and>
        binlog_bytes s' = binlog_bytes ?s \<and> rd_notify_fd s' = rd_notify_fd ?s"
    proof (rule less.hyps [OF more])
      show "io_sync ?s" by (rule re(1))
      show "can_read ?s" if "length (acc @ take ?ls bs) < sz"
        using full [OF that] can by (auto simp: can_read_def f'_def)
      show "binlog_at ?s = a + length (acc @ take ?ls bs)" using re(2) pos by simp
      show "length (acc @ take ?ls bs) \<le> sz" using False by simp
      show "a + sz \<le> length (binlog_bytes ?s)" using re(3) less.prems(5) bytes by simp
      show "\<forall>b. rd_io_buf ?s = Some b \<longrightarrow> unread b = []" if "length (acc @ take ?ls bs) < sz"
        using un' [OF that] by simp
    qed
    then show ?thesis unfolding step re(3) bytes by simp
  qed
qed

lemma eof_loop_stuck:
  assumes "rd_binlog_fp s = Some f" and "f_sticky f" and "f_eof f" and "length acc < sz"
  shows "eof_loop sz acc s \<noteq> Some (Ret RS_OK, out, s')"
  using assms
proof (induction sz acc s arbitrary: f rule: eof_loop.induct)
  case (1 sz acc s)
  have read: "rs_fread f n = ([], f)" for n using "1.prems" by (simp add: rs_fread_def)
  show ?case
  proof
    assume ok: "eof_loop sz acc s = Some (Ret RS_OK, out, s')"
    then obtain b where b: "rd_io_buf s = Some b"
      using "1.prems" eof_loop.simps [of sz acc s] by (auto simp: bind_eq_Some_conv)
    let ?s1 = "s\<lparr>rd_binlog_fp := Some f\<rparr>"
    from ok b have br: "do { (r, s2) \<leftarrow> eof_wait ?s1;
        case r of Some c \<Rightarrow> Some (c, acc, s2) | None \<Rightarrow> eof_loop sz acc s2 } = Some (Ret RS_OK, out, s')"
      using "1.prems" eof_loop.simps [of sz acc s] read by (simp add: Let_def)
    then obtain r s2 where wait: "eof_wait ?s1 = Some (r, s2)" by (cases "eof_wait ?s1") auto
    have r: "r = None" using br wait eof_wait_not_ok [of ?s1 s2] by (cases r) auto
    obtain f2 w ws where "rd_binlog_fp ?s1 = Some f2" "io_waits ?s1 = w # ws"
      "s2 = (snd (watch_files ?s1))\<lparr>io_waits := ws, rd_binlog_fp := Some (f_grow (we_binlog w) f2),
         rd_binlog_idx_fp := map_option (f_grow (we_index w)) (rd_binlog_idx_fp ?s1)\<rparr>"
      by (rule eof_wait_again [OF wait [unfolded r]]) (rule that)
    then have s2: "rd_binlog_fp s2 = Some (f_grow (we_binlog w) f)" by simp
    have "eof_loop sz acc s2 \<noteq> Some (Ret RS_OK, out, s')"
      by (rule "1.IH"(2) [OF _ "1.prems"(1) b refl read [symmetric] refl _ wait refl r s2])
        (use "1.prems" in \<open>auto simp: f_grow_def\<close>)
    with br wait r show False by simp
  qed
qed

lemma fread_nothing:
  "rs_fread f n = ([], f') \<Longrightarrow> 0 < n \<Longrightarrow> \<not> f_err f \<Longrightarrow> f_eof f' \<and> f_sticky f' = f_sticky f"
  by (auto simp: rs_fread_def Let_def split: if_splits)

text \<open>A C library that keeps a stream at its end never delivers what is written after that.\<close>

lemma eof_loop_short:
  assumes "io_sync s" and "rd_binlog_fp s = Some f" and "f_sticky f" and "\<not> f_err f"
    and "rd_io_buf s = Some b" and "b_size b \<noteq> 0"
    and "acc = take (length acc) (drop a (binlog_bytes s))" and "binlog_at s = a + length acc"
    and "length (binlog_bytes s) < a + sz" and "0 < sz"
    and "length acc < sz \<Longrightarrow> unread b = []"
  shows "eof_loop sz acc s \<noteq> Some (Ret RS_OK, out, s')"
  using assms
proof (induction "sz - length acc" arbitrary: acc s f b rule: less_induct)
  case less
  have "length acc \<le> length (binlog_bytes s) - a" using arg_cong [OF less.prems(7), of length] by simp
  then have short: "length acc < sz" using less.prems(9,10) by linarith
  have fb: "rd_binlog_fp s = Some f" "rd_io_buf s = Some b" by fact+
  from less.prems(1) fb have ok: "buf_ok b" and at: "binlog_at s = f_pos f - length (unread b)"
    and bytes: "binlog_bytes s = f_bytes f" by (auto elim!: io_syncE simp del: length_unread)
  have pos: "f_pos f = a + length acc" using at less.prems(8,11) short by simp
  obtain bs f' where read: "rs_fread f (unat (b_size b)) = (bs, f')" by fastforce
  have keep: "f_sticky f' = f_sticky f" "f_err f' = f_err f"
    using read by (auto simp: rs_fread_def Let_def split: if_splits)
  note unf = eof_loop.simps [of sz acc s]
  show ?case
  proof (cases "bs = []")
    case True
    have "f_eof f'" using fread_nothing [of f "unat (b_size b)" f'] read True less.prems(4,6)
      by (simp add: unat_gt_0)
    then have same: "rs_fread f' (unat (b_size b)) = ([], f')"
      using keep less.prems(3) by (simp add: rs_fread_def)
    have "eof_loop sz acc s = eof_loop sz acc (s\<lparr>rd_binlog_fp := Some f'\<rparr>)"
      using unf eof_loop.simps [of sz acc "s\<lparr>rd_binlog_fp := Some f'\<rparr>"] short fb read True same
      by (simp add: Let_def)
    then show ?thesis
      using eof_loop_stuck [of "s\<lparr>rd_binlog_fp := Some f'\<rparr>" f' acc sz out s'] keep less.prems(3) short
        \<open>f_eof f'\<close> by simp
  next
    case False
    show ?thesis
    proof (cases "mem_write (b_mem b) 0 bs")
      case None
      with unf short fb read False show ?thesis by simp
    next
      case (Some mem)
      let ?ls = "min (length bs) (sz - length acc)"
      let ?b = "b\<lparr>b_mem := mem, b_pos := ?ls, b_last := length bs\<rparr>"
      let ?s = "s\<lparr>rd_binlog_fp := Some f', rd_io_buf := Some ?b\<rparr>"
      have step: "eof_loop sz acc s = eof_loop sz (acc @ take ?ls bs) ?s"
        using unf short fb read False Some by (simp add: Let_def)
      note re = refill_sync [OF fb(1) ok read Some min.cobounded1 refl refl, of "sz - length acc"]
      have "take ?ls bs = take ?ls (drop (a + length acc) (f_bytes f))" using re(5) pos by simp
      note ext = take_drop_extend [OF less.prems(7) [unfolded bytes] this]
      have len: "length (acc @ take ?ls bs) = length acc + ?ls" by simp
      show ?thesis unfolding step
      proof (rule less.hyps [of "acc @ take ?ls bs" ?s f' ?b, OF _ re(1)])
        show "sz - length (acc @ take ?ls bs) < sz - length acc"
          using False short by (auto simp: diff_less_mono2 neq_Nil_conv)
        show "acc @ take ?ls bs = take (length (acc @ take ?ls bs)) (drop a (binlog_bytes ?s))"
          unfolding len re(3) by (rule ext)
        show "binlog_at ?s = a + length (acc @ take ?ls bs)" using re(2) pos by simp
        show "length (binlog_bytes ?s) < a + sz" using less.prems(9) re(3) bytes by simp
        show "unread ?b = []" if "length (acc @ take ?ls bs) < sz"
          using that re(4) by (simp add: min_def split: if_splits)
      qed (use less.prems keep in simp_all)
    qed
  qed
qed

section \<open>The index file\<close>

text \<open>An index names one binlog on each line, as a stem and a number.\<close>

type_synonym index_entry = "byte list \<times> u32"

definition entry_name :: "index_entry \<Rightarrow> byte list" where
  "entry_name e = fst e @ fmt_u (unat (snd e))"

definition entry_ok :: "index_entry \<Rightarrow> bool" where
  "entry_ok e \<longleftrightarrow> fst e \<noteq> [] \<and> \<not> is_digit (last (fst e)) \<and> 0 \<notin> set (fst e) \<and> 10 \<notin> set (fst e) \<and>
     length (fst e) < 4084"

definition index_lines :: "index_entry list \<Rightarrow> byte list" where
  "index_lines es = concat (map (\<lambda>e. entry_name e @ [10]) es)"

lemma fgets_line_line: "10 \<notin> set l \<Longrightarrow> length l < n \<Longrightarrow> fgets_line n (l @ 10 # r) = l @ [10]"
  by (induction l arbitrary: n) auto

lemma entry_name_facts:
  assumes "entry_ok e"
  shows "0 \<notin> set (entry_name e)" and "10 \<notin> set (entry_name e)" and "length (entry_name e) < 4094"
    and "2 \<le> length (entry_name e)"
    and "rs_estr_to_uint32 (entry_name e @ [10, 0]) (length (entry_name e) - 1) = Some (snd e)"
proof -
  let ?d = "fmt_u (unat (snd e))"
  have "\<not> is_digit 0" "\<not> is_digit 10" by code_simp+
  then show "0 \<notin> set (entry_name e)" "10 \<notin> set (entry_name e)"
    using assms fmt_u_no_byte by (auto simp: entry_name_def entry_ok_def)
  show "length (entry_name e) < 4094"
    using assms length_fmt_u32 [of "snd e"] by (simp add: entry_name_def entry_ok_def)
  have d: "1 \<le> length ?d" using fmt_u_not_Nil [of "unat (snd e)"] by (cases ?d) auto
  moreover have "1 \<le> length (fst e)" using assms by (cases "fst e") (auto simp: entry_ok_def)
  ultimately show "2 \<le> length (entry_name e)" by (simp add: entry_name_def)
  obtain pre t where stem: "fst e = pre @ [t]" "\<not> is_digit t"
    using assms by (cases "fst e" rule: rev_cases) (auto simp: entry_ok_def)
  have "length (entry_name e) - 1 = length pre + length ?d" using stem d by (simp add: entry_name_def)
  then show "rs_estr_to_uint32 (entry_name e @ [10, 0]) (length (entry_name e) - 1) = Some (snd e)"
    using estr_to_uint32_value [OF stem(2), of pre "snd e" "[10, 0]"] stem by (simp add: entry_name_def)
qed

lemma next_binlog_step:
  assumes "entry_ok e"
  shows "next_binlog_loop num (entry_name e @ 10 # r) =
    (if snd e \<le> num then next_binlog_loop num r
     else Some (Some (entry_name e @ [10], Suc (length (entry_name e)), snd e)))"
proof -
  note e = entry_name_facts [OF assms]
  have line: "fgets_line 4095 (entry_name e @ 10 # r) = entry_name e @ [10]"
    using fgets_line_line [OF e(2), of 4095 r] e(3) by simp
  have len: "c_strlen (entry_name e @ [10, 0]) = Some (Suc (length (entry_name e)))"
    using c_strlen_append [of "entry_name e @ [10]" "[]"] e(1) by simp
  have "entry_name e \<noteq> []" using e(4) by auto
  then show ?thesis
    using e(4) len e(5) by (subst next_binlog_loop.simps) (simp add: line Let_def)
qed

lemma next_binlog_skip:
  assumes "\<forall>e \<in> set es. entry_ok e \<and> snd e \<le> num"
  shows "next_binlog_loop num (index_lines es @ r) = next_binlog_loop num r"
  using assms by (induction es) (simp_all add: index_lines_def next_binlog_step)

section \<open>Properties of reading\<close>

text \<open>
  C9. A read that succeeds delivers the next bytes of the file, however the reads and waits cut
  them, and leaves the buffer and the stream in step, the rest of the state unchanged.
\<close>

theorem eof_read_next_bytes:
  assumes "io_sync s" and "rs_eof_read_binlog2 s sz = Some (Ret RS_OK, out, s')"
  shows "length out = sz \<and> out = take sz (drop (binlog_at s) (binlog_bytes s')) \<and> io_sync s' \<and>
    binlog_at s' = binlog_at s + sz \<and> prefix (binlog_bytes s) (binlog_bytes s') \<and> io_core s' = io_core s"
  using eof_read_ok [OF assms] by blast

text \<open>
  C30. When the bytes are in the file already, a read returns with them and waits for nothing.
\<close>

theorem eof_read_available:
  assumes "io_sync s" and "can_read s" and "rd_notify_fd s = -1"
    and "binlog_at s + sz \<le> length (binlog_bytes s)"
  shows "\<exists>s'. rs_eof_read_binlog2 s sz = Some (Ret RS_OK, take sz (drop (binlog_at s) (binlog_bytes s)), s') \<and>
    io_waits s' = io_waits s"
proof -
  obtain b where b: "rd_io_buf s = Some b" using assms(1) by (auto elim: io_syncE)
  note start = eof_read_start [OF assms(1) b refl refl, of sz]
  let ?ms = "min (length (unread b)) sz"
  let ?s1 = "s\<lparr>rd_io_buf := Some (b\<lparr>b_pos := b_pos b + ?ms\<rparr>)\<rparr>"
  have can: "can_read ?s1" using assms(2) b by (simp add: can_read_def split: option.splits)
  have "\<exists>out s'. eof_loop sz (take ?ms (unread b)) ?s1 = Some (Ret RS_OK, out, s') \<and>
      io_waits s' = io_waits ?s1 \<and> binlog_bytes s' = binlog_bytes ?s1 \<and> rd_notify_fd s' = rd_notify_fd ?s1"
  proof (rule eof_loop_available [OF start(2) can])
    show "binlog_at ?s1 = binlog_at s + length (take ?ms (unread b))"
      unfolding start(6) by (rule start(3))
    show "length (take ?ms (unread b)) \<le> sz" unfolding start(6) by (rule start(7))
    show "binlog_at s + sz \<le> length (binlog_bytes ?s1)" unfolding start(4) by (rule assms(4))
    show "\<forall>b. rd_io_buf ?s1 = Some b \<longrightarrow> unread b = []" if "length (take ?ms (unread b)) < sz"
      using start(8) that unfolding start(6) .
  qed
  then obtain out s1 where loop: "eof_loop sz (take ?ms (unread b)) ?s1 = Some (Ret RS_OK, out, s1)"
    and s1: "io_waits s1 = io_waits s" "binlog_bytes s1 = binlog_bytes s" "rd_notify_fd s1 = -1"
    unfolding start(4) using assms(3) by auto
  have fin: "fst (eof_finish (Ret RS_OK) s1) = Ret RS_OK" "io_waits (snd (eof_finish (Ret RS_OK) s1)) = io_waits s"
    using s1 by (simp_all add: eof_finish_def Let_def)
  have read: "rs_eof_read_binlog2 s sz = Some (Ret RS_OK, out, snd (eof_finish (Ret RS_OK) s1))"
    unfolding start(1) loop by (simp add: fin(1))
  with eof_read_ok(2) [OF assms(1) read] fin(2) s1(2) show ?thesis by simp
qed

text \<open>
  When fewer bytes are in the file than the read needs and the C library keeps a stream at its
  end, the read never succeeds, whatever is written later: the end-of-file indicator is cleared only
  after a success.
\<close>

theorem eof_read_sticky_never_succeeds:
  assumes "io_sync s" and "rd_binlog_fp s = Some f" and "f_sticky f" and "\<not> f_err f"
    and "rd_io_buf s = Some b" and "b_size b \<noteq> 0"
    and "length (binlog_bytes s) < binlog_at s + sz" and "0 < sz"
  shows "rs_eof_read_binlog2 s sz \<noteq> Some (Ret RS_OK, out, s')"
proof
  assume ok: "rs_eof_read_binlog2 s sz = Some (Ret RS_OK, out, s')"
  note start = eof_read_start [OF assms(1,5) refl refl, of sz]
  let ?ms = "min (length (unread b)) sz"
  let ?b = "b\<lparr>b_pos := b_pos b + ?ms\<rparr>"
  let ?s1 = "s\<lparr>rd_io_buf := Some ?b\<rparr>"
  from ok start(1) obtain r s2 where loop: "eof_loop sz (take ?ms (unread b)) ?s1 = Some (r, out, s2)"
    and fin: "fst (eof_finish r s2) = Ret RS_OK" by (auto simp: bind_eq_Some_conv)
  have "eof_loop sz (take ?ms (unread b)) ?s1 \<noteq> Some (Ret RS_OK, out, s2)"
  proof (rule eof_loop_short [OF start(2), of f ?b])
    show "take ?ms (unread b) = take (length (take ?ms (unread b))) (drop (binlog_at s) (binlog_bytes ?s1))"
      unfolding start(4) by (rule start(5))
    show "binlog_at ?s1 = binlog_at s + length (take ?ms (unread b))"
      unfolding start(6) by (rule start(3))
    show "length (binlog_bytes ?s1) < binlog_at s + sz" unfolding start(4) by (rule assms(7))
    show "unread ?b = []" if "length (take ?ms (unread b)) < sz"
      using start(8) that unfolding start(6) by simp
  qed (use assms in simp_all)
  with loop eof_finish_ok [OF fin] show False by simp
qed


text \<open>A thread in front of a binlog and an index file, with an empty buffer of four bytes.\<close>

definition demo_file :: "byte list \<Rightarrow> bool \<Rightarrow> rs_file" where
  "demo_file bs sticky = \<lparr>f_bytes = bs, f_pos = 0, f_eof = False, f_err = False, f_sticky = sticky\<rparr>"

definition demo_io :: "byte list \<Rightarrow> byte list \<Rightarrow> bool \<Rightarrow> wait_ev list \<Rightarrow> io_state" where
  "demo_io bs index sticky ws =
     rs_reqdump_data_t.extend
       (blank_slot\<lparr>rd_notify_fd := -1, rd_dump_num := 1,
          rd_binlog_fp := Some (demo_file bs sticky), rd_binlog_idx_fp := Some (demo_file index False),
          rd_io_buf := Some \<lparr>b_mem = [0, 0, 0, 0], b_pos = 0, b_last = 0, b_size = 4\<rparr>\<rparr>)
       (io_state.fields (\<lambda>_. None) (5, 1, 2) 0 ws [] 8388608)"

definition demo_wait :: "byte list \<Rightarrow> wait_ev" where
  "demo_wait bs = \<lparr>we_binlog = bs, we_index = [], we_select = RS_OK, we_read = 16\<rparr>"

lemma demo_io_fields [simp]:
  "rd_notify_fd (demo_io bs index sticky ws) = -1" "rd_dump_num (demo_io bs index sticky ws) = 1"
  "rd_binlog_fp (demo_io bs index sticky ws) = Some (demo_file bs sticky)"
  "rd_binlog_idx_fp (demo_io bs index sticky ws) = Some (demo_file index False)"
  "rd_io_buf (demo_io bs index sticky ws) = Some \<lparr>b_mem = [0, 0, 0, 0], b_pos = 0, b_last = 0, b_size = 4\<rparr>"
  by (simp_all add: demo_io_def rs_reqdump_data_t.defs io_state.defs)

lemma demo_io_sync: "io_sync (demo_io bs index sticky ws)" "binlog_at (demo_io bs index sticky ws) = 0"
  "binlog_bytes (demo_io bs index sticky ws) = bs" "can_read (demo_io bs index sticky ws)"
  by (simp_all add: io_sync_def binlog_at_def binlog_bytes_def can_read_def buf_ok_def unread_def demo_file_def)

theorem eof_read_available_witness:
  "\<exists>s'. rs_eof_read_binlog2 (demo_io [1, 2, 3, 4, 5, 6, 7] [] True []) 6 =
     Some (Ret RS_OK, [1, 2, 3, 4, 5, 6], s')"
  using eof_read_available [of "demo_io [1, 2, 3, 4, 5, 6, 7] [] True []" 6] by (auto simp: demo_io_sync)

theorem eof_read_next_bytes_witness:
  "\<exists>s'. rs_eof_read_binlog2 (demo_io [1, 2] [] False [demo_wait [3], demo_wait [4, 5, 6]]) 5 =
      Some (Ret RS_OK, [1, 2, 3, 4, 5], s') \<and> binlog_at s' = 5 \<and> io_sync s'"
proof -
  let ?s = "demo_io [1, 2] [] False [demo_wait [3], demo_wait [4, 5, 6]]"
  have "fst (the (rs_eof_read_binlog2 ?s 5)) = Ret RS_OK"
    "fst (snd (the (rs_eof_read_binlog2 ?s 5))) = [1, 2, 3, 4, 5]"
    "\<not> Option.is_none (rs_eof_read_binlog2 ?s 5)" by code_simp+
  then obtain s' where "rs_eof_read_binlog2 ?s 5 = Some (Ret RS_OK, [1, 2, 3, 4, 5], s')"
    by (cases "rs_eof_read_binlog2 ?s 5") auto
  with eof_read_next_bytes [OF demo_io_sync(1) this] show ?thesis by (auto simp: demo_io_sync)
qed

theorem eof_read_sticky_never_succeeds_witness:
  "\<forall>out s'. rs_eof_read_binlog2 (demo_io [1, 2] [] True [demo_wait [3], demo_wait [4, 5, 6]]) 5 \<noteq>
     Some (Ret RS_OK, out, s')"
  using eof_read_sticky_never_succeeds [of "demo_io [1, 2] [] True [demo_wait [3], demo_wait [4, 5, 6]]"
      "demo_file [1, 2] True" _ 5]
  by (auto simp: demo_io_sync demo_file_def)


end
