(* ===== verification/RS_FilterBinlog.thy ===== *)
theory RS_FilterBinlog
  imports RS_ReadBinlog
begin

text \<open>
  \<^verbatim>\<open>src/master/rs_filter_binlog.c\<close>: turning an event into a message of the ring buffer.
  A message without an event carries the position only; a message with a row event carries the
  position, the table and its column types in front of the bytes of the event.
\<close>

section \<open>Messages\<close>

definition RS_SKIP_DATA_FLUSH_NUM :: u32 where "RS_SKIP_DATA_FLUSH_NUM = 900"

text \<open>\<^verbatim>\<open>"%s,%s\n%c"\<close> and \<^verbatim>\<open>"%s,%u\n%c,%s.%s%c"\<close>.\<close>

definition pos_message :: "byte list \<Rightarrow> u32 \<Rightarrow> byte list" where
  "pos_message file pos = file @ [44] @ fmt_u (unat pos) @ [10]"

definition row_header :: "byte list \<Rightarrow> u32 \<Rightarrow> byte \<Rightarrow> byte list \<Rightarrow> byte list \<Rightarrow> byte list" where
  "row_header file pos mev db tb =
     file @ [44] @ fmt_u (unat pos) @ [10, mev, 44] @ db @ [46] @ tb @ [0]"

definition row_message ::
    "byte list \<Rightarrow> u32 \<Rightarrow> byte \<Rightarrow> byte list \<Rightarrow> byte list \<Rightarrow> byte list \<Rightarrow> byte list \<Rightarrow> byte list \<Rightarrow> byte list" where
  "row_message file pos mev db tb ct cm rows =
     row_header file pos mev db tb @ le_bytes 4 (length ct) @ ct @ le_bytes 4 (length cm) @ cm @ rows"

section \<open>Operations\<close>

text \<open>The bytes that may be written behind an allocation of len bytes that came back with id idx.\<close>

definition chunk_room :: "rs_pool_t \<Rightarrow> u32 \<Rightarrow> int \<Rightarrow> nat" where
  "chunk_room p len idx = (if idx = rs_code_val RS_SLAB_OVERFLOW then unat len else cls_size p idx)"

text \<open>
  The sleep on a full ring: the dump thread releases slots meanwhile; none when the history of the
  dump thread ends with the ring still full.
\<close>

fun reader_takes :: "nat \<Rightarrow> rs_ringbuf_t \<Rightarrow> rs_ringbuf_t" where
  "reader_takes 0 rb = rb"
| "reader_takes (Suc k) rb =
     (if fst (rs_ringbuf_get rb) = RS_OK then reader_takes k (rs_ringbuf_get_advance rb) else rb)"

fun ring_wait :: "nat list \<Rightarrow> rs_ringbuf_t \<Rightarrow> (addr \<times> rs_ringbuf_t \<times> nat list) option" where
  "ring_wait ks rb =
     (case rs_ringbuf_set rb of
        (_, Some a) \<Rightarrow> Some (a, rb, ks)
      | (_, None) \<Rightarrow> (case ks of [] \<Rightarrow> None | k # ks' \<Rightarrow> ring_wait ks' (reader_takes k rb)))"

declare ring_wait.simps [simp del]

text \<open>
  Allocating the slot's message and filling it with \<open>bytes\<close>, whose construction may be undefined;
  a chunk that is too small is written out of bounds. None inside: \<^verbatim>\<open>rs_palloc\<close> returned
  NULL.
\<close>

definition fill_slot ::
    "os_mem \<Rightarrow> io_state \<Rightarrow> rs_ringbuf_t \<Rightarrow> addr \<Rightarrow> u32 \<Rightarrow> byte list option \<Rightarrow> (io_code \<times> io_state) option" where
  "fill_slot os s rb a len bytes = do {
     pool \<leftarrow> rd_pool s;
     idx \<leftarrow> rs_palloc_id pool len;
     (d, pool') \<leftarrow> rs_palloc os pool len idx;
     rb' \<leftarrow> slot_write rb a \<lparr>d_len = len, d_data = d, d_id = idx\<rparr>;
     let s' = s\<lparr>rd_pool := Some pool', rd_ringbuf := Some rb'\<rparr>;
     case d of
       None \<Rightarrow> Some (Ret RS_ERR, s')
     | Some x \<Rightarrow> do {
         bs \<leftarrow> bytes;
         if length bs \<le> chunk_room pool len idx
         then Some (Ret RS_OK, s'\<lparr>io_heap := (io_heap s)(x \<mapsto> bs)\<rparr>)
         else None } }"

text \<open>The bytes of a row message; \<^verbatim>\<open>len\<close> is the length that was computed before.\<close>

definition row_bytes :: "rs_binlog_info_t \<Rightarrow> byte list \<Rightarrow> u32 \<Rightarrow> u32 \<Rightarrow> byte list option" where
  "row_bytes bi file pos len = do {
     db \<leftarrow> c_contents (arr_str name_cap (bi_db bi));
     tb \<leftarrow> c_contents (arr_str name_cap (bi_tb bi));
     let hdr = row_header file pos (bi_mev bi) db tb;
     if length hdr < unat len then do {
       ct \<leftarrow> arr_read ct_cap (bi_ct bi) (unat (bi_cn bi));
       cm \<leftarrow> arr_read cm_cap (bi_cm bi) (unat (bi_ml bi));
       ev \<leftarrow> bi_data bi;
       rows \<leftarrow> mem_read ev 0 (unat (len - of_nat (length hdr) - 8 - bi_cn bi - bi_ml bi));
       Some (hdr @ le_bytes 4 (unat (bi_cn bi)) @ ct @ le_bytes 4 (unat (bi_ml bi)) @ cm @ rows) }
     else None }"

text \<open>Releasing the message the slot had before.\<close>

definition drop_old :: "os_mem \<Rightarrow> io_state \<Rightarrow> rs_ringbuf_t \<Rightarrow> addr \<Rightarrow> io_state option" where
  "drop_old os s rb a = do {
     old \<leftarrow> slot_read rb a;
     case d_data old of
       None \<Rightarrow> Some (s\<lparr>rd_ringbuf := Some rb\<rparr>)
     | Some x \<Rightarrow> do {
         pool \<leftarrow> rd_pool s;
         pool' \<leftarrow> rs_pfree os pool x (d_id old);
         rb' \<leftarrow> slot_write rb a rs_ringbuf_data_t_init;
         Some (s\<lparr>rd_pool := Some pool', rd_ringbuf := Some rb', io_heap := (io_heap s)(x := None)\<rparr>) } }"

text \<open>Making the new message; a mission event in statement format leaves the slot as it is.\<close>

definition make_message :: "os_mem \<Rightarrow> io_state \<Rightarrow> addr \<Rightarrow> (io_code \<times> io_state) option" where
  "make_message os s a = do {
     let bi = rd_binlog_info s;
     rb \<leftarrow> rd_ringbuf s;
     file \<leftarrow> c_contents (arr_str path_cap (rd_dump_file s));
     let len = length (fmt_u (unat (rd_dump_pos s))) + length file + 3;
     if bi_mev bi = 0
     then fill_slot os s rb a (of_nat len)
            (Some (take (len - 1) (pos_message file (rd_dump_pos s) @ [bi_mev bi]) @ [0]))
     else if bi_log_format bi then do {
       tbl \<leftarrow> c_strlen (arr_str name_cap (bi_tb bi));
       dbl \<leftarrow> c_strlen (arr_str name_cap (bi_db bi));
       let len' = of_nat (len + unat (bi_el bi - 19) + tbl + 3 + dbl + 4 +
                          unat (bi_cn bi) + 4 + unat (bi_ml bi));
       fill_slot os s rb a len' (row_bytes bi file (rd_dump_pos s) len') }
     else Some (Ret RS_OK, s) }"

definition rs_binlog_create_data :: "os_mem \<Rightarrow> io_state \<Rightarrow> (io_code \<times> io_state) option" where
  "rs_binlog_create_data os s =
     (let bi = rd_binlog_info s in
      if bi_mev bi = 0 \<and> bi_skip_n bi mod RS_SKIP_DATA_FLUSH_NUM \<noteq> 0
      then Some (Ret RS_OK, s\<lparr>rd_binlog_info := bi\<lparr>bi_skip_n := 1\<rparr>\<rparr>)
      else do {
        let bi1 = (if bi_mev bi = 0 then bi\<lparr>bi_skip_n := bi_skip_n bi + 1\<rparr> else bi);
        let s1 = s\<lparr>rd_binlog_info := bi1\<rparr>;
        ring \<leftarrow> rd_ringbuf s1;
        case ring_wait (io_reader s1) ring of
          None \<Rightarrow> Some (Running, s1)
        | Some (a, rb, ks) \<Rightarrow> do {
            s2 \<leftarrow> drop_old os (s1\<lparr>io_reader := ks\<rparr>) rb a;
            (r, s3) \<leftarrow> make_message os s2 a;
            if r \<noteq> Ret RS_OK then Some (r, s3)
            else do {
              rb3 \<leftarrow> rd_ringbuf s3;
              Some (Ret RS_OK, s3\<lparr>rd_ringbuf := Some (rs_ringbuf_set_advance rb3),
                rd_binlog_info := bi1\<lparr>bi_flush := False, bi_mev := 0, bi_sent := True\<rparr>\<rparr>) } } })"

section \<open>Publishing a message\<close>

lemma reader_takes_queue:
  assumes "ring_inv rb"
  shows "ring_inv (reader_takes k rb) \<and> ring_queue (reader_takes k rb) = drop k (ring_queue rb)"
  using assms
proof (induction k rb rule: reader_takes.induct)
  case (2 k rb)
  show ?case
  proof (cases "ring_queue rb")
    case Nil
    then have "fst (rs_ringbuf_get rb) \<noteq> RS_OK"
      by (auto simp: rs_ringbuf_get_def ring_queue_def unat_eq_zero)
    with 2 Nil show ?thesis by simp
  next
    case (Cons y ys)
    from ring_take_some [OF "2.prems" Cons] obtain rb' where take: "ring_take rb = Some (Some (y, rb'))"
      "ring_inv rb'" "ring_queue rb' = ys" "unat (rb_num rb') = unat (rb_num rb)" by blast
    then have "fst (rs_ringbuf_get rb) = RS_OK" "rb' = rs_ringbuf_get_advance rb"
      by (auto simp: ring_take_def rs_ringbuf_get_def bind_eq_Some_conv split: if_splits)
    with 2 take Cons show ?thesis by simp
  qed
qed simp

lemma ring_wait_ok:
  assumes "ring_wait ks rb = Some (a, rb', ks')" and "ring_inv rb"
  shows "ring_inv rb' \<and> rs_ringbuf_set rb' = (RS_OK, Some a) \<and> (\<exists>k. ring_queue rb' = drop k (ring_queue rb))"
  using assms
proof (induction ks rb rule: ring_wait.induct)
  case (1 ks rb)
  show ?case
  proof (cases "rb_wn rb - rb_rn rb = ucast (rb_num rb)")
    case False
    then have "rs_ringbuf_set rb = (RS_OK, Some (rb_wp rb))" by (simp add: rs_ringbuf_set_def)
    with 1 show ?thesis
      by (auto simp: ring_wait.simps [of ks rb] intro: exI [of _ 0])
  next
    case True
    then have set: "rs_ringbuf_set rb = (RS_FULL, None)" by (simp add: rs_ringbuf_set_def)
    then obtain k ks1 where ks: "ks = k # ks1"
      using "1.prems"(1) ring_wait.simps [of "[]" rb] by (cases ks) auto
    with "1.prems"(1) set have "ring_wait ks1 (reader_takes k rb) = Some (a, rb', ks')"
      using ks by (simp add: ring_wait.simps [of "k # ks1" rb])
    from "1.IH" [OF set [symmetric] refl ks this] reader_takes_queue [OF "1.prems"(2), of k]
    show ?thesis by (auto simp: drop_drop)
  qed
qed

lemma slot_write_twice:
  "slot_write rb a d = Some rb1 \<Longrightarrow> slot_write rb1 a d' = slot_write rb a d'"
  by (auto simp: slot_write_def slot_index_def split: if_splits)

lemma ring_publish:
  assumes "ring_inv rb" and "rs_ringbuf_set rb = (RS_OK, Some a)" and "slot_write rb a d = Some rb'"
  shows "ring_inv (rs_ringbuf_set_advance rb')" and "ring_queue (rs_ringbuf_set_advance rb') = ring_queue rb @ [d]"
proof -
  have put: "ring_put rb d = Some (Some (rs_ringbuf_set_advance rb'))"
    using assms(2,3) by (simp add: ring_put_def)
  then have "length (ring_queue rb) \<noteq> unat (rb_num rb)" using ring_put_full [OF assms(1)] by auto
  from ring_put_room [OF assms(1) this, of d] put
  show "ring_inv (rs_ringbuf_set_advance rb')" "ring_queue (rs_ringbuf_set_advance rb') = ring_queue rb @ [d]"
    by auto
qed

lemma fill_slot_ok:
  assumes "fill_slot os s rb a len bytes = Some (Ret RS_OK, s')"
  obtains x idx bs rb' pool where "bytes = Some bs" and "slot_write rb a \<lparr>d_len = len, d_data = Some x, d_id = idx\<rparr> = Some rb'"
    and "s' = s\<lparr>rd_pool := Some pool, rd_ringbuf := Some rb', io_heap := (io_heap s)(x \<mapsto> bs)\<rparr>"
  using assms that
  by (auto simp: fill_slot_def bind_eq_Some_conv Let_def split: option.splits if_splits)

lemma drop_old_ok:
  assumes "drop_old os s rb a = Some s'"
  obtains rb' h p where "s' = s\<lparr>rd_ringbuf := Some rb', io_heap := h, rd_pool := p\<rparr>"
    and "\<And>d. slot_write rb' a d = slot_write rb a d"
proof -
  from assms obtain old where old: "slot_read rb a = Some old" by (auto simp: drop_old_def bind_eq_Some_conv)
  show thesis
  proof (cases "d_data old")
    case None
    with assms old have "s' = s\<lparr>rd_ringbuf := Some rb\<rparr>" by (simp add: drop_old_def)
    then show thesis using that [where rb' = rb and h = "io_heap s" and p = "rd_pool s"] by simp
  next
    case (Some x)
    with assms old obtain pool' rb' where rb': "slot_write rb a rs_ringbuf_data_t_init = Some rb'"
      and s': "s' = s\<lparr>rd_pool := Some pool', rd_ringbuf := Some rb', io_heap := (io_heap s)(x := None)\<rparr>"
      by (auto simp: drop_old_def bind_eq_Some_conv)
    then show thesis using that [where rb' = rb' and h = "(io_heap s)(x := None)" and p = "Some pool'"]
        slot_write_twice [OF rb'] by simp
  qed
qed

text \<open>
  What a successful call that makes a message does: the message is the last element of the queue.
\<close>

lemma create_data_publishes:
  assumes create: "rs_binlog_create_data os s = Some (Ret RS_OK, s')"
    and ring: "rd_ringbuf s = Some rb" "ring_inv rb"
    and bi: "bi = rd_binlog_info s" "bi_mev bi = 0 \<Longrightarrow> bi_skip_n bi mod RS_SKIP_DATA_FLUSH_NUM = 0"
    and kind: "bi_mev bi = 0 \<or> bi_log_format bi"
  obtains k len x idx bytes rb' s2 fname where
    "rd_ringbuf s' = Some rb'" and "ring_inv rb'"
    and "ring_queue rb' = drop k (ring_queue rb) @ [\<lparr>d_len = len, d_data = Some x, d_id = idx\<rparr>]"
    and "io_heap s' x = Some bytes"
    and "c_contents (arr_str path_cap (rd_dump_file s)) = Some fname"
    and "if bi_mev bi = 0
         then len = of_nat (length (fmt_u (unat (rd_dump_pos s))) + length fname + 3) \<and>
           bytes = pos_message fname (rd_dump_pos s) @ [0]
         else \<exists>tbl dbl. c_strlen (arr_str name_cap (bi_tb bi)) = Some tbl \<and>
           c_strlen (arr_str name_cap (bi_db bi)) = Some dbl \<and>
           len = of_nat (length (fmt_u (unat (rd_dump_pos s))) + length fname + 3 + unat (bi_el bi - 19) +
                         tbl + 3 + dbl + 4 + unat (bi_cn bi) + 4 + unat (bi_ml bi)) \<and>
           row_bytes bi fname (rd_dump_pos s) len = Some bytes"
    and "rd_binlog_info s' = bi\<lparr>bi_skip_n := (if bi_mev bi = 0 then bi_skip_n bi + 1 else bi_skip_n bi),
           bi_flush := False, bi_mev := 0, bi_sent := True\<rparr>"
proof -
  define bi1 where "bi1 = (if bi_mev bi = 0 then bi\<lparr>bi_skip_n := bi_skip_n bi + 1\<rparr> else bi)"
  have same: "bi_mev bi1 = bi_mev bi" "bi_log_format bi1 = bi_log_format bi" "bi_tb bi1 = bi_tb bi"
    "bi_db bi1 = bi_db bi" "bi_el bi1 = bi_el bi" "bi_cn bi1 = bi_cn bi" "bi_ml bi1 = bi_ml bi"
    "row_bytes bi1 = row_bytes bi"
    by (simp_all add: bi1_def row_bytes_def fun_eq_iff Let_def cong: if_cong)
  let ?s1 = "s\<lparr>rd_binlog_info := bi1\<rparr>"
  have noskip: "\<not> (bi_mev bi = 0 \<and> bi_skip_n bi mod RS_SKIP_DATA_FLUSH_NUM \<noteq> 0)" using bi(2) by blast
  from create ring noskip obtain a rb1 ks s2 s3 rb3 where
    wait: "ring_wait (io_reader s) rb = Some (a, rb1, ks)"
    and old: "drop_old os (?s1\<lparr>io_reader := ks\<rparr>) rb1 a = Some s2"
    and make: "make_message os s2 a = Some (Ret RS_OK, s3)" and rb3: "rd_ringbuf s3 = Some rb3"
    and s': "s' = s3\<lparr>rd_ringbuf := Some (rs_ringbuf_set_advance rb3),
                rd_binlog_info := bi1\<lparr>bi_flush := False, bi_mev := 0, bi_sent := True\<rparr>\<rparr>"
    unfolding rs_binlog_create_data_def bi(1) [symmetric] bi1_def [symmetric] Let_def
    by (auto simp: bind_eq_Some_conv split: option.splits if_splits)
  from old obtain rb2 h p where s2: "s2 = ?s1\<lparr>io_reader := ks, rd_ringbuf := Some rb2, io_heap := h, rd_pool := p\<rparr>"
    and rb2: "\<And>d. slot_write rb2 a d = slot_write rb1 a d"
    by (rule drop_old_ok) (rule that)
  from make s2 obtain fname where fname: "c_contents (arr_str path_cap (rd_dump_file s)) = Some fname"
    by (auto simp: make_message_def bind_eq_Some_conv)
  let ?n = "length (fmt_u (unat (rd_dump_pos s))) + length fname + 3"
  have "\<exists>len bs. fill_slot os s2 rb2 a len (Some bs) = Some (Ret RS_OK, s3) \<and>
     (if bi_mev bi = 0 then len = of_nat ?n \<and> bs = pos_message fname (rd_dump_pos s) @ [0]
      else \<exists>tbl dbl. c_strlen (arr_str name_cap (bi_tb bi)) = Some tbl \<and>
           c_strlen (arr_str name_cap (bi_db bi)) = Some dbl \<and>
           len = of_nat (?n + unat (bi_el bi - 19) + tbl + 3 + dbl + 4 + unat (bi_cn bi) + 4 + unat (bi_ml bi)) \<and>
           row_bytes bi fname (rd_dump_pos s) len = Some bs)"
  proof (cases "bi_mev bi = 0")
    case True
    moreover have "take (?n - 1) (pos_message fname (rd_dump_pos s) @ [0]) = pos_message fname (rd_dump_pos s)"
      by (simp add: pos_message_def)
    ultimately show ?thesis
      using make s2 fname same by (simp add: make_message_def Let_def)
  next
    case False
    with make s2 fname same kind obtain tbl dbl len where names: "c_strlen (arr_str name_cap (bi_tb bi)) = Some tbl"
        "c_strlen (arr_str name_cap (bi_db bi)) = Some dbl"
      and len: "len = of_nat (?n + unat (bi_el bi - 19) + tbl + 3 + dbl + 4 + unat (bi_cn bi) + 4 + unat (bi_ml bi))"
      and fill: "fill_slot os s2 rb2 a len (row_bytes bi fname (rd_dump_pos s) len) = Some (Ret RS_OK, s3)"
      by (auto simp: make_message_def Let_def bind_eq_Some_conv)
    obtain bs where "row_bytes bi fname (rd_dump_pos s) len = Some bs" using fill by (rule fill_slot_ok)
    with names len fill False show ?thesis by auto
  qed
  then obtain len bs where fill: "fill_slot os s2 rb2 a len (Some bs) = Some (Ret RS_OK, s3)"
    and what: "if bi_mev bi = 0 then len = of_nat ?n \<and> bs = pos_message fname (rd_dump_pos s) @ [0]
      else \<exists>tbl dbl. c_strlen (arr_str name_cap (bi_tb bi)) = Some tbl \<and>
           c_strlen (arr_str name_cap (bi_db bi)) = Some dbl \<and>
           len = of_nat (?n + unat (bi_el bi - 19) + tbl + 3 + dbl + 4 + unat (bi_cn bi) + 4 + unat (bi_ml bi)) \<and>
           row_bytes bi fname (rd_dump_pos s) len = Some bs" by blast
  obtain x idx pool rb4 where w: "slot_write rb2 a \<lparr>d_len = len, d_data = Some x, d_id = idx\<rparr> = Some rb4"
    and s3: "s3 = s2\<lparr>rd_pool := Some pool, rd_ringbuf := Some rb4, io_heap := (io_heap s2)(x \<mapsto> bs)\<rparr>"
    using fill by (rule fill_slot_ok) auto
  from ring_wait_ok [OF wait ring(2)] obtain k where rb1: "ring_inv rb1" "rs_ringbuf_set rb1 = (RS_OK, Some a)"
    "ring_queue rb1 = drop k (ring_queue rb)" by blast
  have "rb4 = rb3" using rb3 s3 by simp
  with ring_publish [OF rb1(1,2)] w rb2 rb1(3)
  have pub: "ring_inv (rs_ringbuf_set_advance rb3)" "ring_queue (rs_ringbuf_set_advance rb3) =
      drop k (ring_queue rb) @ [\<lparr>d_len = len, d_data = Some x, d_id = idx\<rparr>]" by simp_all
  show thesis
  proof (rule that [OF _ pub _ fname what])
    show "rd_ringbuf s' = Some (rs_ringbuf_set_advance rb3)" "io_heap s' x = Some bs"
      by (simp_all add: s' s3)
    show "rd_binlog_info s' = bi\<lparr>bi_skip_n := (if bi_mev bi = 0 then bi_skip_n bi + 1 else bi_skip_n bi),
           bi_flush := False, bi_mev := 0, bi_sent := True\<rparr>"
      by (simp add: s' bi1_def)
  qed
qed

section \<open>What a message says\<close>

lemma c_strlen_bound: "c_strlen m = Some n \<Longrightarrow> n < length m"
  by (induction m arbitrary: n) (auto split: if_splits)

lemma c_strlen_contents: "c_contents m = Some s \<Longrightarrow> c_strlen m = Some (length s)"
proof -
  assume "c_contents m = Some s"
  then obtain n where "c_strlen m = Some n" "s = take n m" by (auto simp: c_contents_def)
  with c_strlen_bound [of m n] show ?thesis by simp
qed

text \<open>The state of the event that a row message is made from.\<close>

definition row_info ::
    "rs_binlog_info_t \<Rightarrow> byte list \<Rightarrow> byte list \<Rightarrow> byte list \<Rightarrow> byte list \<Rightarrow> byte list \<Rightarrow> bool" where
  "row_info bi db tb ct cm rows \<longleftrightarrow>
     c_contents (arr_str name_cap (bi_db bi)) = Some db \<and> c_contents (arr_str name_cap (bi_tb bi)) = Some tb \<and>
     arr_read ct_cap (bi_ct bi) (unat (bi_cn bi)) = Some ct \<and>
     arr_read cm_cap (bi_cm bi) (unat (bi_ml bi)) = Some cm \<and>
     bi_data bi = Some rows \<and> unat (bi_el bi) = 19 + length rows"

lemma arr_read_length: "arr_read cap a n = Some r \<Longrightarrow> length r = n"
  by (auto simp: arr_read_def split: if_splits)

lemma row_bytes_message:
  assumes info: "row_info bi db tb ct cm rows"
    and len: "length (row_message fname pos (bi_mev bi) db tb ct cm rows) < 2 ^ 32"
    and n: "n = length (fmt_u (unat pos)) + length fname + 3 + unat (bi_el bi - 19) + length tb + 3 +
         length db + 4 + unat (bi_cn bi) + 4 + unat (bi_ml bi)"
  shows "row_bytes bi fname pos (of_nat n) = Some (row_message fname pos (bi_mev bi) db tb ct cm rows)"
    and "n = length (row_message fname pos (bi_mev bi) db tb ct cm rows)"
proof -
  let ?hdr = "row_header fname pos (bi_mev bi) db tb"
  have cn: "unat (bi_cn bi) = length ct" "unat (bi_ml bi) = length cm"
    using info by (auto simp: row_info_def dest: arr_read_length)
  have "19 \<le> unat (bi_el bi)" using info by (simp add: row_info_def)
  then have "unat (bi_el bi - 19) = unat (bi_el bi) - 19"
    by (simp add: unat_sub word_le_nat_alt)
  then have el: "unat (bi_el bi - 19) = length rows" using info by (simp add: row_info_def)
  show total: "n = length (row_message fname pos (bi_mev bi) db tb ct cm rows)"
    using n cn el by (simp add: row_message_def row_header_def)
  then have n': "n = length ?hdr + 8 + length ct + length cm + length rows"
    by (simp add: row_message_def)
  have small: "n < 2 ^ 32" using len total by simp
  have eq: "(of_nat n :: u32) - of_nat (length ?hdr) - 8 - bi_cn bi - bi_ml bi = of_nat (length rows)"
    unfolding n' using cn by (simp add: cn [symmetric])
  then have rest: "unat ((of_nat n :: u32) - of_nat (length ?hdr) - 8 - bi_cn bi - bi_ml bi) = length rows"
    unfolding eq using small n' by (simp add: unat_of_nat)
  have "unat (of_nat n :: u32) = n" using small by (simp add: unat_of_nat)
  then have "length ?hdr < unat (of_nat n :: u32)" using n' by simp
  then show "row_bytes bi fname pos (of_nat n) = Some (row_message fname pos (bi_mev bi) db tb ct cm rows)"
    using info rest cn by (simp add: row_bytes_def row_info_def Let_def row_message_def mem_read_all)
qed

text \<open>
  A row event is published as one message that carries the position, the table, its column
  types and metadata and the whole event, behind everything that is still waiting in the ring; its
  length field is the length of the message.
\<close>

lemma create_data_row_message:
  assumes "rs_binlog_create_data os s = Some (Ret RS_OK, s')"
    and "rd_ringbuf s = Some rb" and "ring_inv rb"
    and "bi = rd_binlog_info s" and "bi_mev bi \<noteq> 0" and "bi_log_format bi"
    and "row_info bi db tb ct cm rows" and "c_contents (arr_str path_cap (rd_dump_file s)) = Some fname"
    and "msg = row_message fname (rd_dump_pos s) (bi_mev bi) db tb ct cm rows" and "length msg < 2 ^ 32"
  shows "\<exists>k x idx rb'. rd_ringbuf s' = Some rb' \<and> ring_inv rb' \<and> io_heap s' x = Some msg \<and>
    ring_queue rb' = drop k (ring_queue rb) @ [\<lparr>d_len = of_nat (length msg), d_data = Some x, d_id = idx\<rparr>]"
proof -
  obtain k len x idx bytes rb' fname' where pub:
    "rd_ringbuf s' = Some rb'" "ring_inv rb'"
    "ring_queue rb' = drop k (ring_queue rb) @ [\<lparr>d_len = len, d_data = Some x, d_id = idx\<rparr>]"
    "io_heap s' x = Some bytes" "c_contents (arr_str path_cap (rd_dump_file s)) = Some fname'"
    and what: "if bi_mev bi = 0
         then len = of_nat (length (fmt_u (unat (rd_dump_pos s))) + length fname' + 3) \<and>
           bytes = pos_message fname' (rd_dump_pos s) @ [0]
         else \<exists>tbl dbl. c_strlen (arr_str name_cap (bi_tb bi)) = Some tbl \<and>
           c_strlen (arr_str name_cap (bi_db bi)) = Some dbl \<and>
           len = of_nat (length (fmt_u (unat (rd_dump_pos s))) + length fname' + 3 + unat (bi_el bi - 19) +
                         tbl + 3 + dbl + 4 + unat (bi_cn bi) + 4 + unat (bi_ml bi)) \<and>
           row_bytes bi fname' (rd_dump_pos s) len = Some bytes"
    by (rule create_data_publishes [OF assms(1-4) _ disjI2 [OF assms(6)]])
      (use assms(5) in blast, rule that)
  have names: "c_strlen (arr_str name_cap (bi_tb bi)) = Some (length tb)"
    "c_strlen (arr_str name_cap (bi_db bi)) = Some (length db)"
    using assms(7) by (auto simp: row_info_def intro: c_strlen_contents)
  have f: "fname' = fname" using pub(5) assms(8) by simp
  let ?n = "length (fmt_u (unat (rd_dump_pos s))) + length fname + 3 + unat (bi_el bi - 19) + length tb + 3 +
         length db + 4 + unat (bi_cn bi) + 4 + unat (bi_ml bi)"
  note row = row_bytes_message [OF assms(7) assms(10) [unfolded assms(9)] refl]
  have len: "len = of_nat ?n" and bytes: "row_bytes bi fname (rd_dump_pos s) len = Some bytes"
    using what names assms(5) f by auto
  from bytes have "bytes = msg" unfolding len row(1) assms(9) by simp
  moreover have "len = of_nat (length msg)" unfolding len row(2) assms(9) ..
  ultimately have "bytes = msg" "len = of_nat (length msg)" by simp_all
  with pub show ?thesis by blast
qed

text \<open>A position is published as the name of the binlog, the position and an empty event.\<close>

theorem create_data_position_message:
  assumes "rs_binlog_create_data os s = Some (Ret RS_OK, s')"
    and "rd_ringbuf s = Some rb" and "ring_inv rb"
    and "bi_mev (rd_binlog_info s) = 0" and "bi_skip_n (rd_binlog_info s) = 0"
    and "c_contents (arr_str path_cap (rd_dump_file s)) = Some fname"
    and "msg = pos_message fname (rd_dump_pos s) @ [0]"
  shows "\<exists>k x idx rb'. rd_ringbuf s' = Some rb' \<and> ring_inv rb' \<and> io_heap s' x = Some msg \<and>
    ring_queue rb' = drop k (ring_queue rb) @ [\<lparr>d_len = of_nat (length msg), d_data = Some x, d_id = idx\<rparr>]"
proof -
  obtain k len x idx bytes rb' fname' where pub:
    "rd_ringbuf s' = Some rb'" "ring_inv rb'"
    "ring_queue rb' = drop k (ring_queue rb) @ [\<lparr>d_len = len, d_data = Some x, d_id = idx\<rparr>]"
    "io_heap s' x = Some bytes" "c_contents (arr_str path_cap (rd_dump_file s)) = Some fname'"
    and what: "len = of_nat (length (fmt_u (unat (rd_dump_pos s))) + length fname' + 3) \<and>
           bytes = pos_message fname' (rd_dump_pos s) @ [0]"
    by (rule create_data_publishes [OF assms(1-3) refl]) (use assms(4,5) in simp_all)
  have "fname' = fname" using pub(5) assms(6) by simp
  then have "len = of_nat (length msg)" "bytes = msg"
    using what by (simp_all add: assms(7) pos_message_def add.commute)
  with pub(1-4) show ?thesis by blast
qed

text \<open>
  After the first position message there are no others: every later call without a row event
  succeeds and changes nothing, because the counter that should let every 900th one through is set
  back to 1 each time.
\<close>

theorem position_messages_stop:
  assumes "rs_binlog_create_data os s0 = Some (Ret RS_OK, s1)"
    and "bi_mev (rd_binlog_info s0) = 0" and "bi_skip_n (rd_binlog_info s0) = 0"
    and "rd_ringbuf s0 = Some rb" and "ring_inv rb"
    and "bi_mev (rd_binlog_info s) = 0" and "bi_skip_n (rd_binlog_info s) = bi_skip_n (rd_binlog_info s1)"
  shows "rs_binlog_create_data os s = Some (Ret RS_OK, s)"
proof -
  have "bi_skip_n (rd_binlog_info s1) = 1"
    by (rule create_data_publishes [OF assms(1,4,5) refl]) (use assms(2,3) in simp_all)
  with assms(6,7) show ?thesis
    by (simp add: rs_binlog_create_data_def RS_SKIP_DATA_FLUSH_NUM_def Let_def)
qed

text \<open>A thread with an empty ring of two slots, behind a row event or a commit.\<close>

definition demo_info :: "byte \<Rightarrow> rs_binlog_info_t" where
  "demo_info mev = (rd_binlog_info blank_slot)\<lparr>bi_mev := mev, bi_log_format := True,
     bi_db := cstr ''test'', bi_tb := cstr ''test'', bi_cn := 2, bi_ct := [3, 15], bi_ml := 2,
     bi_cm := [10, 0], bi_el := 24, bi_data := Some [1, 2, 3, 4, 5]\<rparr>"

definition demo_pub :: "byte \<Rightarrow> io_state" where
  "demo_pub mev = (demo_io [] [] False [])
     \<lparr>rd_ringbuf := fst made_ring, rd_pool := Some (snd made_ring), rd_dump_file := cstr ''bin.1'',
      rd_dump_pos := 120, rd_binlog_info := demo_info mev\<rparr>"

lemma demo_pub_ring: "rd_ringbuf (demo_pub mev) = Some (the (fst made_ring))" "ring_inv (the (fst made_ring))"
proof -
  show "ring_inv (the (fst made_ring))"
    using create_ringbuf_rep(1) [OF made_ring_created] by (auto simp: ring_inv_def)
  have "\<not> Option.is_none (fst made_ring)" by code_simp
  then show "rd_ringbuf (demo_pub mev) = Some (the (fst made_ring))"
    by (simp add: demo_pub_def computes_Some)
qed

lemma demo_pub_created:
  "\<exists>s'. rs_binlog_create_data (os_grant 7) (demo_pub 23) = Some (Ret RS_OK, s')"
  "\<exists>s'. rs_binlog_create_data (os_grant 7) (demo_pub 0) = Some (Ret RS_OK, s')"
proof -
  have c: "\<not> Option.is_none (rs_binlog_create_data (os_grant 7) (demo_pub 23))"
    "fst (the (rs_binlog_create_data (os_grant 7) (demo_pub 23))) = Ret RS_OK"
    "\<not> Option.is_none (rs_binlog_create_data (os_grant 7) (demo_pub 0))"
    "fst (the (rs_binlog_create_data (os_grant 7) (demo_pub 0))) = Ret RS_OK" by code_simp+
  show "\<exists>s'. rs_binlog_create_data (os_grant 7) (demo_pub 23) = Some (Ret RS_OK, s')"
    "\<exists>s'. rs_binlog_create_data (os_grant 7) (demo_pub 0) = Some (Ret RS_OK, s')"
    using computes_pair [OF c(1,2)] computes_pair [OF c(3,4)] by auto
qed

lemma demo_pub_info: "rd_binlog_info (demo_pub mev) = demo_info mev" "rd_dump_pos (demo_pub mev) = 120"
  "rd_dump_file (demo_pub mev) = cstr ''bin.1''"
  by (simp_all add: demo_pub_def)

theorem create_data_position_message_witness:
  "\<exists>s' rb' x. rs_binlog_create_data (os_grant 7) (demo_pub 0) = Some (Ret RS_OK, s') \<and>
    rd_ringbuf s' = Some rb' \<and> io_heap s' x = Some (ascii ''bin.1,120'' @ [10, 0])"
proof -
  obtain s' where s': "rs_binlog_create_data (os_grant 7) (demo_pub 0) = Some (Ret RS_OK, s')"
    using demo_pub_created by blast
  have info: "c_contents (arr_str path_cap (cstr ''bin.1'')) = Some (ascii ''bin.1'')"
    "bi_mev (demo_info 0) = 0" "bi_skip_n (demo_info 0) = 0"
    "pos_message (ascii ''bin.1'') 120 @ [0] = ascii ''bin.1,120'' @ [10, 0]" by code_simp+
  from create_data_position_message [OF s' demo_pub_ring _ _ _ refl] info s' show ?thesis
    by (fastforce simp: demo_pub_info)
qed

theorem position_messages_stop_witness:
  "\<exists>s'. rs_binlog_create_data (os_grant 7) (demo_pub 0) = Some (Ret RS_OK, s') \<and>
    rs_binlog_create_data (os_grant 7) s' = Some (Ret RS_OK, s')"
proof -
  obtain s' where s': "rs_binlog_create_data (os_grant 7) (demo_pub 0) = Some (Ret RS_OK, s')"
    using demo_pub_created by blast
  have start: "bi_mev (rd_binlog_info (demo_pub 0)) = 0" "bi_skip_n (rd_binlog_info (demo_pub 0)) = 0"
    by (simp_all add: demo_pub_info demo_info_def blank_slot_def)
  have "bi_mev (rd_binlog_info s') = 0"
    by (rule create_data_publishes [OF s' demo_pub_ring refl]) (use start in simp_all)
  with position_messages_stop [OF s' start demo_pub_ring this refl] s' show ?thesis by blast
qed

end
