(* ===== verification/RS_ParseBinlog.thy ===== *)
theory RS_ParseBinlog
  imports RS_FilterBinlog
begin

text \<open>
  The events of a binlog: the handlers of \<^verbatim>\<open>src/master/rs_parse_binlog.c\<close>, the loop
  over the events of \<^verbatim>\<open>rs_read_binlog\<close> (\<^verbatim>\<open>src/master/rs_read_binlog.c\<close>) and
  the loop over the files of \<^verbatim>\<open>rs_start_io_thread\<close>
  (\<^verbatim>\<open>src/master/rs_request_dump.c\<close>). Event arrays of variable length live on the stack of
  the thread; one that does not fit is undefined.
\<close>

section \<open>Event handlers\<close>

definition vla :: "io_state \<Rightarrow> u32 \<Rightarrow> unit option" where
  "vla s n = (if unat n \<le> io_stack s then Some () else None)"

definition set_info :: "rs_binlog_info_t \<Rightarrow> io_state \<Rightarrow> io_state" where
  "set_info bi s = s\<lparr>rd_binlog_info := bi\<rparr>"

definition u32_of :: "byte list \<Rightarrow> u32" where "u32_of bs = set_low 0 bs"

definition rs_binlog_header_handler :: "io_state \<Rightarrow> (io_code \<times> io_state) option" where
  "rs_binlog_header_handler s = do {
     (r, eh, s1) \<leftarrow> rs_eof_read_binlog2 s 19;
     if r \<noteq> Ret RS_OK then Some (r, s1)
     else do {
       t \<leftarrow> mem_get eh 4;
       svrid \<leftarrow> mem_read eh 5 4;
       el \<leftarrow> mem_read eh 9 4;
       np \<leftarrow> mem_read eh 13 4;
       let pos = rd_dump_pos s1 + u32_of el;
       Some (Ret RS_OK, s1\<lparr>rd_dump_pos := pos,
         rd_binlog_info := (rd_binlog_info s1)\<lparr>bi_t := t, bi_svrid := u32_of svrid, bi_el := u32_of el,
           bi_np := pos, bi_dl := u32_of el - 19\<rparr>\<rparr>) } }"

text \<open>\<^verbatim>\<open>BEGIN\<close> and \<^verbatim>\<open>COMMIT\<close>, compared over their own lengths.\<close>

definition RS_TRAN_KEYWORD :: "byte list" where "RS_TRAN_KEYWORD = [66, 69, 71, 73, 78]"

definition RS_TRAN_END_KEYWORD :: "byte list" where "RS_TRAN_END_KEYWORD = [67, 79, 77, 77, 73, 84]"

text \<open>The fields of a query event: the new state of the event, or undefined.\<close>

definition parse_query :: "byte list \<Rightarrow> rs_binlog_info_t \<Rightarrow> rs_binlog_info_t option" where
  "parse_query q bi = do {
     dbl1 \<leftarrow> mem_read q 8 1;
     let dbl = (set_low (bi_dbl bi) dbl1 AND 255) + 1;
     sbl2 \<leftarrow> mem_read q 11 2;
     let sbl = set_low (bi_sbl bi) sbl2 AND 65535;
     let p = 13 + unat sbl;
     name \<leftarrow> mem_read q p (unat dbl);
     db \<leftarrow> arr_write name_cap (bi_db bi) 0 name;
     let sl = bi_el bi - 19 - sbl - 13 - dbl;
     let sl = min sl 1024;
     stmt \<leftarrow> mem_read q (p + unat dbl) (unat sl);
     sql1 \<leftarrow> arr_write sql_cap (bi_sql bi) 0 stmt;
     sql \<leftarrow> arr_write sql_cap sql1 (unat sl) [0];
     begin_tran \<leftarrow> c_strncmp_eq 5 (arr_str sql_cap sql) (RS_TRAN_KEYWORD @ [0]);
     end_tran \<leftarrow> c_strncmp_eq 6 (arr_str sql_cap sql) (RS_TRAN_END_KEYWORD @ [0]);
     Some (bi\<lparr>bi_dbl := dbl, bi_sbl := sbl, bi_db := db, bi_sl := sl, bi_sql := sql, bi_log_format := False,
              bi_tran := (if begin_tran then True else if end_tran then False else bi_tran bi)\<rparr>) }"

definition rs_binlog_query_handler :: "io_state \<Rightarrow> (io_code \<times> io_state) option" where
  "rs_binlog_query_handler s = do {
     let bi = rd_binlog_info s;
     _ \<leftarrow> vla s (bi_dl bi);
     if bi_dl bi > 1024 * 2 then Some (Ret RS_OK, set_info (bi\<lparr>bi_skip := True\<rparr>) s)
     else do {
       (r, q, s1) \<leftarrow> rs_eof_read_binlog2 s (unat (bi_dl bi));
       if r \<noteq> Ret RS_OK then Some (r, s1)
       else do {
         bi' \<leftarrow> parse_query q (rd_binlog_info s1);
         Some (Ret RS_OK, set_info bi' s1) } } }"

definition rs_binlog_intvar_handler :: "io_state \<Rightarrow> (io_code \<times> io_state) option" where
  "rs_binlog_intvar_handler s = do {
     _ \<leftarrow> vla s (bi_dl (rd_binlog_info s));
     (r, q, s1) \<leftarrow> rs_eof_read_binlog2 s (unat (bi_dl (rd_binlog_info s)));
     if r \<noteq> Ret RS_OK then Some (r, s1)
     else do {
       let bi = rd_binlog_info s1;
       t \<leftarrow> mem_get q 0;
       if t \<noteq> 2 then Some (Ret RS_OK, set_info (bi\<lparr>bi_intvar_t := t\<rparr>) s1)
       else do {
         ai \<leftarrow> mem_read q 1 8;
         Some (Ret RS_OK, set_info (bi\<lparr>bi_intvar_t := t, bi_ai := set_low (bi_ai bi) ai,
                                      bi_auto_incr := True\<rparr>) s1) } } }"

text \<open>The event is read straight into the 8 bytes of \<^verbatim>\<open>tranid\<close>.\<close>

definition rs_binlog_xid_handler :: "io_state \<Rightarrow> (io_code \<times> io_state) option" where
  "rs_binlog_xid_handler s = do {
     let s0 = set_info ((rd_binlog_info s)\<lparr>bi_tran := False\<rparr>) s;
     (r, q, s1) \<leftarrow> rs_eof_read_binlog2 s0 (unat (bi_dl (rd_binlog_info s0)));
     if 8 < length q then None
     else Some (r, set_info ((rd_binlog_info s1)\<lparr>bi_tranid := set_low (bi_tranid (rd_binlog_info s1)) q\<rparr>) s1) }"

text \<open>The name that is looked for in the list of tables: \<^verbatim>\<open>",%s.%s,"\<close> in 131 bytes.\<close>

definition table_key :: "byte list \<Rightarrow> byte list \<Rightarrow> byte list" where
  "table_key db tb = [44] @ db @ [46] @ tb @ [44]"

text \<open>The fields of a table map: the new state of the event, or undefined.\<close>

definition parse_table_map :: "byte list \<Rightarrow> rs_binlog_info_t \<Rightarrow> rs_binlog_info_t option" where
  "parse_table_map tm bi = do {
     dbl1 \<leftarrow> mem_read tm 8 1;
     let dbl = (set_low (bi_dbl bi) dbl1 AND 255) + 1;
     let p = 9;
     name \<leftarrow> mem_read tm p (unat dbl);
     db \<leftarrow> arr_write name_cap (bi_db bi) 0 name;
     let p = p + unat dbl;
     tbl1 \<leftarrow> mem_read tm p 1;
     let tbl = (set_low (bi_tbl bi) tbl1 AND 255) + 1;
     let p = p + 1;
     name \<leftarrow> mem_read tm p (unat tbl);
     tb \<leftarrow> arr_write name_cap (bi_tb bi) 0 name;
     let p = p + unat tbl;
     (cn, len) \<leftarrow> rs_parse_packed_integer (drop p tm);
     let cn = (ucast cn :: u32);
     let p = p + unat len;
     types \<leftarrow> mem_read tm p (unat cn);
     ct \<leftarrow> arr_write ct_cap (bi_ct bi) 0 types;
     let p = p + unat cn;
     (ml, len) \<leftarrow> rs_parse_packed_integer (drop p tm);
     let ml = (ucast ml :: u32);
     let p = p + unat len;
     meta \<leftarrow> mem_read tm p (unat ml);
     cm \<leftarrow> arr_write cm_cap (bi_cm bi) 0 meta;
     Some (bi\<lparr>bi_dbl := dbl, bi_db := db, bi_tbl := tbl, bi_tb := tb, bi_cn := cn, bi_ct := ct,
              bi_ml := ml, bi_cm := cm\<rparr>) }"

definition rs_binlog_table_map_handler :: "io_state \<Rightarrow> (io_code \<times> io_state) option" where
  "rs_binlog_table_map_handler s = do {
     _ \<leftarrow> vla s (bi_dl (rd_binlog_info s));
     (r, tm, s1) \<leftarrow> rs_eof_read_binlog2 s (unat (bi_dl (rd_binlog_info s)));
     if r \<noteq> Ret RS_OK then Some (r, s1)
     else do {
       bi \<leftarrow> parse_table_map tm (rd_binlog_info s1);
       db \<leftarrow> c_contents (arr_str name_cap (bi_db bi));
       tb \<leftarrow> c_contents (arr_str name_cap (bi_tb bi));
       let dt = take 130 (table_key db tb) @ [0];
       tables \<leftarrow> rd_filter_tables s1;
       hit \<leftarrow> c_strstr tables dt;
       Some (Ret RS_OK, set_info (bi\<lparr>bi_filter := (hit = None)\<rparr>) s1) } }"

text \<open>
  The three row handlers differ in the event type they note. A filtered event is skipped; outside a
  transaction that also ends the filtering.
\<close>

definition rows_handler :: "os_mem \<Rightarrow> byte \<Rightarrow> io_state \<Rightarrow> (io_code \<times> io_state) option" where
  "rows_handler os mev s = do {
     let bi = rd_binlog_info s;
     _ \<leftarrow> vla s (bi_dl bi);
     if bi_filter bi
     then Some (Ret RS_OK, set_info (bi\<lparr>bi_filter := bi_tran bi, bi_skip := True\<rparr>) s)
     else do {
       (r, wr, s1) \<leftarrow> rs_eof_read_binlog2 s (unat (bi_dl bi));
       if r \<noteq> Ret RS_OK then Some (r, s1)
       else rs_binlog_create_data os (set_info ((rd_binlog_info s1)
              \<lparr>bi_data := Some wr, bi_log_format := True, bi_mev := mev\<rparr>) s1) } }"

definition rs_binlog_write_rows_handler :: "os_mem \<Rightarrow> io_state \<Rightarrow> (io_code \<times> io_state) option" where
  "rs_binlog_write_rows_handler os s = rows_handler os 23 s"

definition rs_binlog_update_rows_handler :: "os_mem \<Rightarrow> io_state \<Rightarrow> (io_code \<times> io_state) option" where
  "rs_binlog_update_rows_handler os s = rows_handler os 24 s"

definition rs_binlog_delete_rows_handler :: "os_mem \<Rightarrow> io_state \<Rightarrow> (io_code \<times> io_state) option" where
  "rs_binlog_delete_rows_handler os s = rows_handler os 25 s"

definition rs_binlog_skip_handler :: "io_state \<Rightarrow> (io_code \<times> io_state) option" where
  "rs_binlog_skip_handler s = Some (Ret RS_OK, set_info ((rd_binlog_info s)\<lparr>bi_skip := True\<rparr>) s)"

text \<open>Waiting for the next binlog at the end of one; each sleep is a wait of the history.\<close>

function stop_loop :: "io_state \<Rightarrow> (io_code \<times> io_state) option" where
  "stop_loop s = do {
     (r, s1) \<leftarrow> rs_has_next_binlog s;
     if r = RS_OK then Some (Ret RS_HAS_BINLOG, s1)
     else if r = RS_ERR then Some (Ret RS_ERR, s1)
     else case io_waits s of
         [] \<Rightarrow> Some (Running, s1)
       | w # ws \<Rightarrow>
           stop_loop (s\<lparr>io_waits := ws,
             rd_binlog_fp := map_option (f_grow (we_binlog w)) (rd_binlog_fp s),
             rd_binlog_idx_fp := map_option (f_grow (we_index w)) (rd_binlog_idx_fp s)\<rparr>) }"
  by pat_completeness auto
termination by (relation "measure (\<lambda>s. length (io_waits s))") auto

declare stop_loop.simps [simp del]

definition rs_binlog_stop_handler :: "io_state \<Rightarrow> (io_code \<times> io_state) option" where
  "rs_binlog_stop_handler s =
     (if rd_server_id s \<noteq> bi_svrid (rd_binlog_info s)
      then Some (Ret RS_OK, set_info ((rd_binlog_info s)\<lparr>bi_skip := True\<rparr>) s)
      else stop_loop s)"

text \<open>
  Skipping the rest of an event: inside the buffer, or with \<^verbatim>\<open>fseek\<close>, which succeeds on an
  open binlog.
\<close>

definition skip_event :: "io_state \<Rightarrow> io_state option" where
  "skip_event s = do {
     b \<leftarrow> rd_io_buf s;
     if unat (bi_dl (rd_binlog_info s)) \<le> buf_left b
     then Some (s\<lparr>rd_io_buf := Some (b\<lparr>b_pos := b_pos b + unat (bi_dl (rd_binlog_info s))\<rparr>)\<rparr>)
     else do {
       f \<leftarrow> rd_binlog_fp s;
       Some (s\<lparr>rd_io_buf := Some (b\<lparr>b_pos := b_last b\<rparr>),
               rd_binlog_fp := Some (f\<lparr>f_pos := unat (rd_dump_pos s), f_eof := False\<rparr>)\<rparr>) } }"

definition rs_binlog_finish_handler :: "os_mem \<Rightarrow> io_state \<Rightarrow> (io_code \<times> io_state) option" where
  "rs_binlog_finish_handler os s = do {
     let bi = rd_binlog_info s;
     (r, s1) \<leftarrow> (if \<not> bi_tran bi \<and> \<not> bi_sent bi \<and> \<not> bi_filter bi \<or> bi_flush bi
                  then rs_binlog_create_data os s else Some (Ret RS_OK, s));
     if r = Running then Some (Running, s1)
     else if r \<noteq> Ret RS_OK then Some (Ret RS_ERR, s1)
     else do {
       let bi = rd_binlog_info s1;
       let s2 = set_info (bi\<lparr>bi_sent := False\<rparr>) s1;
       if bi_skip bi
       then do {
         s3 \<leftarrow> skip_event s2;
         Some (Ret RS_OK, set_info ((rd_binlog_info s3)\<lparr>bi_skip := False\<rparr>) s3) }
       else Some (Ret RS_OK, s2) } }"

section \<open>The loop over the events\<close>

text \<open>The table of handlers.\<close>

definition rs_binlog_funcs :: "os_mem \<Rightarrow> nat \<Rightarrow> io_state \<Rightarrow> (io_code \<times> io_state) option" where
  "rs_binlog_funcs os idx =
     (if idx = 2 then rs_binlog_query_handler
      else if idx = 3 \<or> idx = 4 then rs_binlog_stop_handler
      else if idx = 5 then rs_binlog_intvar_handler
      else if idx = 16 then rs_binlog_xid_handler
      else if idx = 19 then rs_binlog_table_map_handler
      else if idx = 23 then rs_binlog_write_rows_handler os
      else if idx = 24 then rs_binlog_update_rows_handler os
      else if idx = 25 then rs_binlog_delete_rows_handler os
      else rs_binlog_skip_handler)"

definition RS_BINLOG_EVENT_NUM :: u32 where "RS_BINLOG_EVENT_NUM = 27"

text \<open>
  One event: none to go on with the next one, otherwise the result of the loop. The type is a
  \<^verbatim>\<open>char\<close>, so it is extended with its sign; for an unknown one the loop ends with the
  code of the header, RS_OK.
\<close>

definition binlog_event :: "os_mem \<Rightarrow> io_state \<Rightarrow> (io_code option \<times> io_state) option" where
  "binlog_event os s = do {
     (r, s1) \<leftarrow> rs_binlog_header_handler s;
     if r \<noteq> Ret RS_OK then Some (Some r, s1)
     else do {
       let idx = (scast (bi_t (rd_binlog_info s1)) :: u32);
       if idx = 0 \<or> idx > RS_BINLOG_EVENT_NUM then Some (Some r, s1)
       else do {
         (r, s2) \<leftarrow> rs_binlog_funcs os (unat idx) s1;
         if r \<noteq> Ret RS_OK then Some (Some r, s2)
         else do {
           (r, s3) \<leftarrow> rs_binlog_finish_handler os s2;
           Some (if r \<noteq> Ret RS_OK then Some r else None, s3) } } } }"

text \<open>The first argument bounds the number of events; the loop is \<open>Running\<close> when it is used up.\<close>

fun binlog_loop :: "os_mem \<Rightarrow> nat \<Rightarrow> io_state \<Rightarrow> (io_code \<times> io_state) option" where
  "binlog_loop os n s =
     (if n = 0 then Some (Running, s)
      else do {
        (r, s1) \<leftarrow> binlog_event os s;
        case r of Some c \<Rightarrow> Some (c, s1) | None \<Rightarrow> binlog_loop os (n - 1) s1 })"

declare binlog_loop.simps [simp del]

definition rs_read_binlog :: "os_mem \<Rightarrow> nat \<Rightarrow> io_state \<Rightarrow> (io_code \<times> io_state) option" where
  "rs_read_binlog os n s = do {
     (r, s1) \<leftarrow> binlog_loop os n s;
     if r = Running then Some (r, s1)
     else do {
       b \<leftarrow> rd_io_buf s1;
       Some (r, s1\<lparr>rd_io_buf := Some (b\<lparr>b_pos := b_last b\<rparr>)\<rparr>) } }"

section \<open>The loop over the files\<close>

text \<open>
  The first argument bounds the number of files; \<open>fs k\<close> is what \<^verbatim>\<open>fopen\<close> finds
  under a name when k files are left. The thread ends with RS_ERR.
\<close>

fun files_loop ::
    "nat \<Rightarrow> os_mem \<Rightarrow> nat \<Rightarrow> (nat \<Rightarrow> byte list \<Rightarrow> rs_file option) \<Rightarrow> io_state \<Rightarrow> (io_code \<times> io_state) option" where
  "files_loop k os n fs s =
     (if k = 0 then Some (Running, s)
      else do {
        name \<leftarrow> c_contents (arr_str path_cap (rd_dump_file s));
        case fs k name of
          None \<Rightarrow> Some (Ret RS_ERR, s\<lparr>rd_binlog_fp := None\<rparr>)
        | Some f \<Rightarrow> do {
            let pos = (if rd_dump_pos s = 0 then 4 else rd_dump_pos s);
            let s1 = s\<lparr>rd_dump_pos := pos, rd_binlog_fp := Some (f\<lparr>f_pos := unat pos, f_eof := False\<rparr>)\<rparr>;
            (r, s2) \<leftarrow> rs_read_binlog os n s1;
            if r = Running \<or> r = Ret RS_ERR then Some (r, s2)
            else files_loop (k - 1) os n fs s2 } })"

declare files_loop.simps [simp del]

definition rs_start_io_thread ::
    "os_mem \<Rightarrow> nat \<Rightarrow> nat \<Rightarrow> (nat \<Rightarrow> byte list \<Rightarrow> rs_file option) \<Rightarrow> rs_file option \<Rightarrow> io_state \<Rightarrow>
     (io_code \<times> io_state) option" where
  "rs_start_io_thread os k n fs idx s =
     (case idx of
        None \<Rightarrow> Some (Ret RS_ERR, s\<lparr>rd_binlog_idx_fp := None\<rparr>)
      | Some f \<Rightarrow> files_loop k os n fs (s\<lparr>rd_binlog_idx_fp := Some f\<rparr>))"

section \<open>What the parts leave alone\<close>

text \<open>Publishing a message changes the ring, the pool, the messages and four fields of the event.\<close>

definition publish_frame :: "io_state \<Rightarrow> io_state \<Rightarrow> bool" where
  "publish_frame s s' \<longleftrightarrow> s' = s\<lparr>rd_pool := rd_pool s', rd_ringbuf := rd_ringbuf s', io_heap := io_heap s'\<rparr>"

lemma publish_frame_refl [simp]: "publish_frame s s"
  by (simp add: publish_frame_def)

lemma publish_frame_iff:
  "publish_frame s s' \<longleftrightarrow> (\<exists>p r h. s' = s\<lparr>rd_pool := p, rd_ringbuf := r, io_heap := h\<rparr>)"
  unfolding publish_frame_def by auto

lemma publish_frame_trans: "publish_frame s t \<Longrightarrow> publish_frame t u \<Longrightarrow> publish_frame s u"
  unfolding publish_frame_iff by clarsimp ((rule exI)+, rule refl)

lemma fill_slot_frame: "fill_slot os s rb a len bytes = Some (r, s') \<Longrightarrow> publish_frame s s'"
proof -
  assume fill: "fill_slot os s rb a len bytes = Some (r, s')"
  then obtain pool idx d pool' rb' where
    rest: "(case d of
       None \<Rightarrow> Some (Ret RS_ERR, s\<lparr>rd_pool := Some pool', rd_ringbuf := Some rb'\<rparr>)
     | Some x \<Rightarrow> do {
         bs \<leftarrow> bytes;
         if length bs \<le> chunk_room pool len idx
         then Some (Ret RS_OK, s\<lparr>rd_pool := Some pool', rd_ringbuf := Some rb', io_heap := (io_heap s)(x \<mapsto> bs)\<rparr>)
         else None }) = Some (r, s')"
    by (auto simp: fill_slot_def bind_eq_Some_conv Let_def)
  show ?thesis
  proof (cases d)
    case None
    with rest show ?thesis by (auto simp: publish_frame_def)
  next
    case (Some x)
    with rest show ?thesis unfolding publish_frame_def by (auto simp: bind_eq_Some_conv split: if_splits)
  qed
qed

lemma make_message_frame: "make_message os s a = Some (r, s') \<Longrightarrow> publish_frame s s'"
  by (auto simp: make_message_def bind_eq_Some_conv Let_def split: if_splits intro: fill_slot_frame)

lemma drop_old_frame: "drop_old os s rb a = Some s' \<Longrightarrow> publish_frame s s'"
  by (erule drop_old_ok) (auto simp: publish_frame_def)

text \<open>Any outcome of \<^verbatim>\<open>rs_binlog_create_data\<close>.\<close>

definition create_frame :: "io_state \<Rightarrow> io_state \<Rightarrow> bool" where
  "create_frame s s' \<longleftrightarrow>
     (let bi' = rd_binlog_info s' in
      s' = s\<lparr>rd_pool := rd_pool s', rd_ringbuf := rd_ringbuf s', io_heap := io_heap s', io_reader := io_reader s',
        rd_binlog_info := (rd_binlog_info s)\<lparr>bi_skip_n := bi_skip_n bi', bi_flush := bi_flush bi',
          bi_mev := bi_mev bi', bi_sent := bi_sent bi'\<rparr>\<rparr>)"

lemma create_data_frame:
  assumes "rs_binlog_create_data os s = Some (r, s')"
  shows "create_frame s s'"
proof -
  define bi where "bi = rd_binlog_info s"
  define bi1 where "bi1 = (if bi_mev bi = 0 then bi\<lparr>bi_skip_n := bi_skip_n bi + 1\<rparr> else bi)"
  let ?s1 = "s\<lparr>rd_binlog_info := bi1\<rparr>"
  show ?thesis
  proof (cases "bi_mev bi = 0 \<and> bi_skip_n bi mod RS_SKIP_DATA_FLUSH_NUM \<noteq> 0")
    case True
    with assms show ?thesis
      by (auto simp: rs_binlog_create_data_def create_frame_def bi_def Let_def)
  next
    case False
    have body: "(do {
          ring \<leftarrow> rd_ringbuf s;
          case ring_wait (io_reader s) ring of
            None \<Rightarrow> Some (Running, ?s1)
          | Some (a, rb, ks) \<Rightarrow> do {
            s2 \<leftarrow> drop_old os (?s1\<lparr>io_reader := ks\<rparr>) rb a;
            (r, s3) \<leftarrow> make_message os s2 a;
            if r \<noteq> Ret RS_OK then Some (r, s3)
            else do {
              rb3 \<leftarrow> rd_ringbuf s3;
              Some (Ret RS_OK, s3\<lparr>rd_ringbuf := Some (rs_ringbuf_set_advance rb3),
                rd_binlog_info := bi1\<lparr>bi_flush := False, bi_mev := 0, bi_sent := True\<rparr>\<rparr>) } } }) = Some (r, s')"
      using assms
      unfolding rs_binlog_create_data_def bi_def [symmetric] bi1_def [symmetric] Let_def if_not_P [OF False]
      by simp
    from body obtain ring where ring: "rd_ringbuf s = Some ring"
      by (cases "rd_ringbuf s") auto
    have rest: "(case ring_wait (io_reader s) ring of
          None \<Rightarrow> Some (Running, ?s1)
        | Some (a, rb, ks) \<Rightarrow> do {
            s2 \<leftarrow> drop_old os (?s1\<lparr>io_reader := ks\<rparr>) rb a;
            (r, s3) \<leftarrow> make_message os s2 a;
            if r \<noteq> Ret RS_OK then Some (r, s3)
            else do {
              rb3 \<leftarrow> rd_ringbuf s3;
              Some (Ret RS_OK, s3\<lparr>rd_ringbuf := Some (rs_ringbuf_set_advance rb3),
                rd_binlog_info := bi1\<lparr>bi_flush := False, bi_mev := 0, bi_sent := True\<rparr>\<rparr>) } }) = Some (r, s')"
      using body by (simp add: ring)
    show ?thesis
    proof (cases "ring_wait (io_reader s) ring")
      case None
      with rest show ?thesis by (auto simp: create_frame_def Let_def bi1_def bi_def)
    next
      case (Some w)
      obtain a rb ks where w: "w = (a, rb, ks)" by (cases w)
      from rest Some w obtain s2 r3 s3 where
        steps: "drop_old os (?s1\<lparr>io_reader := ks\<rparr>) rb a = Some s2" "make_message os s2 a = Some (r3, s3)"
        and fin: "(if r3 \<noteq> Ret RS_OK then Some (r3, s3)
            else do {
              rb3 \<leftarrow> rd_ringbuf s3;
              Some (Ret RS_OK, s3\<lparr>rd_ringbuf := Some (rs_ringbuf_set_advance rb3),
                rd_binlog_info := bi1\<lparr>bi_flush := False, bi_mev := 0, bi_sent := True\<rparr>\<rparr>) }) = Some (r, s')"
        by (auto simp: bind_eq_Some_conv)
      have s3: "s3 = ?s1\<lparr>io_reader := ks, rd_pool := rd_pool s3, rd_ringbuf := rd_ringbuf s3, io_heap := io_heap s3\<rparr>"
        using publish_frame_trans [OF drop_old_frame [OF steps(1)] make_message_frame [OF steps(2)]]
        unfolding publish_frame_def by simp
      show ?thesis
      proof (cases "r3 = Ret RS_OK")
        case True
        with fin obtain rb3 where s': "s' = s3\<lparr>rd_ringbuf := Some (rs_ringbuf_set_advance rb3),
                rd_binlog_info := bi1\<lparr>bi_flush := False, bi_mev := 0, bi_sent := True\<rparr>\<rparr>"
          by (auto simp: bind_eq_Some_conv)
        show ?thesis unfolding s' by (subst s3) (simp add: create_frame_def Let_def bi1_def bi_def)
      next
        case False
        with fin have s': "s' = s3" by auto
        show ?thesis unfolding s' by (subst (1) s3) (simp add: create_frame_def Let_def bi1_def bi_def)
      qed
    qed
  qed
qed

end
