(* ===== verification/RS_EventStream.thy ===== *)
theory RS_EventStream
  imports RS_ParseBinlog
begin

text \<open>
  The events of a binlog as a stream: where the I/O thread stands in the file between two events,
  which events it publishes and which it drops. The definitions are in \<open>RS_ParseBinlog\<close>; here are
  the lemmas about whole events and about runs over many events.
\<close>

section \<open>Positions between events\<close>

text \<open>
  The thread stands at the position it will announce: what it has consumed of the file is what
  \<^verbatim>\<open>dump_pos\<close> says.
\<close>

definition io_at :: "io_state \<Rightarrow> bool" where
  "io_at s \<longleftrightarrow> io_sync s \<and> binlog_at s = unat (rd_dump_pos s) \<and> \<not> bi_skip (rd_binlog_info s)"

text \<open>
  What a handler does to the stream: it either consumes the whole body of the event or leaves it and
  asks for it to be skipped.
\<close>

definition handler_moves :: "io_state \<Rightarrow> io_state \<Rightarrow> bool" where
  "handler_moves s s' \<longleftrightarrow>
     rd_dump_pos s' = rd_dump_pos s \<and> bi_el (rd_binlog_info s') = bi_el (rd_binlog_info s) \<and>
     bi_dl (rd_binlog_info s') = bi_dl (rd_binlog_info s) \<and> io_sync s' \<and>
     prefix (binlog_bytes s) (binlog_bytes s') \<and>
     binlog_at s' = (if bi_skip (rd_binlog_info s') then binlog_at s
                     else binlog_at s + unat (bi_dl (rd_binlog_info s)))"

text \<open>The stream depends on the two fields that hold it.\<close>

lemma stream_cong:
  assumes "rd_binlog_fp s' = rd_binlog_fp s" and "rd_io_buf s' = rd_io_buf s"
  shows "io_sync s' = io_sync s" "binlog_at s' = binlog_at s" "binlog_bytes s' = binlog_bytes s"
  using assms by (simp_all add: io_sync_def binlog_at_def binlog_bytes_def)

lemma set_info_simps [simp]:
  "rd_binlog_info (set_info bi s) = bi" "rd_dump_pos (set_info bi s) = rd_dump_pos s"
  "io_sync (set_info bi s) = io_sync s" "binlog_at (set_info bi s) = binlog_at s"
  "binlog_bytes (set_info bi s) = binlog_bytes s" "rd_binlog_fp (set_info bi s) = rd_binlog_fp s"
  "rd_io_buf (set_info bi s) = rd_io_buf s" "rd_filter_tables (set_info bi s) = rd_filter_tables s"
  "rd_dump_file (set_info bi s) = rd_dump_file s" "rd_server_id (set_info bi s) = rd_server_id s"
  "rd_ringbuf (set_info bi s) = rd_ringbuf s" "rd_pool (set_info bi s) = rd_pool s"
  "io_heap (set_info bi s) = io_heap s" "io_reader (set_info bi s) = io_reader s"
  "io_stack (set_info bi s) = io_stack s"
  by (simp_all add: set_info_def io_sync_def binlog_at_def binlog_bytes_def)

lemma moves_skip:
  assumes "io_sync s" and "bi_el bi = bi_el (rd_binlog_info s)" and "bi_dl bi = bi_dl (rd_binlog_info s)"
    and "bi_skip bi"
  shows "handler_moves s (set_info bi s)"
  using assms by (simp add: handler_moves_def)

lemma moves_read:
  assumes "io_sync s" and "rs_eof_read_binlog2 s (unat (bi_dl (rd_binlog_info s))) = Some (Ret RS_OK, q, s1)"
    and "bi_el bi = bi_el (rd_binlog_info s1)" and "bi_dl bi = bi_dl (rd_binlog_info s1)"
    and "bi_skip bi = bi_skip (rd_binlog_info s1)" and "\<not> bi_skip (rd_binlog_info s)"
  shows "handler_moves s (set_info bi s1)"
proof -
  note ok = eof_read_ok [OF assms(1,2)]
  note core = io_core_fields [OF ok(5)]
  show ?thesis using ok core assms(3-6) by (simp add: handler_moves_def)
qed

lemma create_data_stream:
  assumes "rs_binlog_create_data os s = Some (r, s')"
  shows "io_sync s' = io_sync s" "binlog_at s' = binlog_at s" "binlog_bytes s' = binlog_bytes s"
    "rd_dump_pos s' = rd_dump_pos s" "bi_el (rd_binlog_info s') = bi_el (rd_binlog_info s)"
    "bi_dl (rd_binlog_info s') = bi_dl (rd_binlog_info s)"
    "bi_skip (rd_binlog_info s') = bi_skip (rd_binlog_info s)"
    "bi_filter (rd_binlog_info s') = bi_filter (rd_binlog_info s)"
    "bi_tran (rd_binlog_info s') = bi_tran (rd_binlog_info s)"
    "rd_binlog_fp s' = rd_binlog_fp s" "rd_io_buf s' = rd_io_buf s"
proof -
  have s': "s' = s\<lparr>rd_pool := rd_pool s', rd_ringbuf := rd_ringbuf s', io_heap := io_heap s', io_reader := io_reader s',
        rd_binlog_info := (rd_binlog_info s)\<lparr>bi_skip_n := bi_skip_n (rd_binlog_info s'),
          bi_flush := bi_flush (rd_binlog_info s'), bi_mev := bi_mev (rd_binlog_info s'),
          bi_sent := bi_sent (rd_binlog_info s')\<rparr>\<rparr>" (is "_ = ?t")
    using create_data_frame [OF assms] unfolding create_frame_def Let_def .
  have f: "rd_binlog_fp ?t = rd_binlog_fp s" "rd_io_buf ?t = rd_io_buf s" by simp_all
  show "io_sync s' = io_sync s" "binlog_at s' = binlog_at s" "binlog_bytes s' = binlog_bytes s"
    by (subst s', rule stream_cong [OF f])+
  show "rd_dump_pos s' = rd_dump_pos s" "bi_el (rd_binlog_info s') = bi_el (rd_binlog_info s)"
    "bi_dl (rd_binlog_info s') = bi_dl (rd_binlog_info s)"
    "bi_skip (rd_binlog_info s') = bi_skip (rd_binlog_info s)"
    "bi_filter (rd_binlog_info s') = bi_filter (rd_binlog_info s)"
    "bi_tran (rd_binlog_info s') = bi_tran (rd_binlog_info s)"
    "rd_binlog_fp s' = rd_binlog_fp s" "rd_io_buf s' = rd_io_buf s"
    by (subst s', simp)+
qed

section \<open>The handlers\<close>

lemma parse_query_keeps:
  "parse_query q bi = Some bi' \<Longrightarrow> bi_el bi' = bi_el bi" "parse_query q bi = Some bi' \<Longrightarrow> bi_dl bi' = bi_dl bi"
  "parse_query q bi = Some bi' \<Longrightarrow> bi_skip bi' = bi_skip bi"
  by (auto simp: parse_query_def Let_def bind_eq_Some_conv)

lemma query_moves:
  assumes "rs_binlog_query_handler s = Some (Ret RS_OK, s')" and "io_sync s" and "\<not> bi_skip (rd_binlog_info s)"
  shows "handler_moves s s'"
proof (cases "bi_dl (rd_binlog_info s) > 1024 * 2")
  case True
  with assms have "s' = set_info ((rd_binlog_info s)\<lparr>bi_skip := True\<rparr>) s"
    by (auto simp: rs_binlog_query_handler_def Let_def bind_eq_Some_conv)
  then show ?thesis using moves_skip [OF assms(2)] by simp
next
  case False
  with assms(1) obtain q s1 bi where
    "rs_eof_read_binlog2 s (unat (bi_dl (rd_binlog_info s))) = Some (Ret RS_OK, q, s1)"
    "parse_query q (rd_binlog_info s1) = Some bi" "s' = set_info bi s1"
    by (auto simp: rs_binlog_query_handler_def Let_def bind_eq_Some_conv split: if_splits)
  then show ?thesis using moves_read [OF assms(2)] assms(3) parse_query_keeps by blast
qed

lemma intvar_moves:
  assumes "rs_binlog_intvar_handler s = Some (Ret RS_OK, s')" and "io_sync s" and "\<not> bi_skip (rd_binlog_info s)"
  shows "handler_moves s s'"
proof -
  from assms(1) obtain q s1 bi where
    "rs_eof_read_binlog2 s (unat (bi_dl (rd_binlog_info s))) = Some (Ret RS_OK, q, s1)"
    "s' = set_info bi s1" "bi_el bi = bi_el (rd_binlog_info s1)" "bi_dl bi = bi_dl (rd_binlog_info s1)"
    "bi_skip bi = bi_skip (rd_binlog_info s1)"
    by (auto simp: rs_binlog_intvar_handler_def Let_def bind_eq_Some_conv split: if_splits)
  then show ?thesis using moves_read [OF assms(2)] assms(3) by simp
qed

lemma table_map_parts:
  assumes "rs_binlog_table_map_handler s = Some (Ret RS_OK, s')"
  obtains tm s1 bi db tb tables where
    "rs_eof_read_binlog2 s (unat (bi_dl (rd_binlog_info s))) = Some (Ret RS_OK, tm, s1)"
    and "parse_table_map tm (rd_binlog_info s1) = Some bi"
    and "c_contents (arr_str name_cap (bi_db bi)) = Some db" and "c_contents (arr_str name_cap (bi_tb bi)) = Some tb"
    and "rd_filter_tables s1 = Some tables"
    and "\<exists>hit. c_strstr tables (take 130 (table_key db tb) @ [0]) = Some hit \<and>
           s' = set_info (bi\<lparr>bi_filter := (hit = None)\<rparr>) s1"
  using assms by (auto simp: rs_binlog_table_map_handler_def Let_def bind_eq_Some_conv split: if_splits)

lemma parse_table_map_keeps:
  "parse_table_map tm bi = Some bi' \<Longrightarrow>
     bi_el bi' = bi_el bi \<and> bi_dl bi' = bi_dl bi \<and> bi_skip bi' = bi_skip bi \<and> bi_tran bi' = bi_tran bi \<and>
     bi_flush bi' = bi_flush bi"
  by (auto simp: parse_table_map_def Let_def bind_eq_Some_conv split: prod.splits)

lemma table_map_moves:
  assumes "rs_binlog_table_map_handler s = Some (Ret RS_OK, s')" and "io_sync s" and "\<not> bi_skip (rd_binlog_info s)"
  shows "handler_moves s s'"
  by (rule table_map_parts [OF assms(1)])
    (auto dest!: parse_table_map_keeps intro!: moves_read [OF assms(2) _ _ _ _ assms(3)])

lemma xid_moves:
  assumes "rs_binlog_xid_handler s = Some (Ret RS_OK, s')" and "io_sync s" and "\<not> bi_skip (rd_binlog_info s)"
  shows "handler_moves s s'"
proof -
  let ?s0 = "set_info ((rd_binlog_info s)\<lparr>bi_tran := False\<rparr>) s"
  from assms(1) obtain q s1 where
    read: "rs_eof_read_binlog2 ?s0 (unat (bi_dl (rd_binlog_info ?s0))) = Some (Ret RS_OK, q, s1)"
    and s': "s' = set_info ((rd_binlog_info s1)\<lparr>bi_tranid := set_low (bi_tranid (rd_binlog_info s1)) q\<rparr>) s1"
    by (auto simp: rs_binlog_xid_handler_def Let_def bind_eq_Some_conv split: if_splits)
  have "handler_moves ?s0 s'" unfolding s' by (rule moves_read [OF _ read]) (use assms in simp_all)
  then show ?thesis by (simp add: handler_moves_def)
qed

lemma rows_moves:
  assumes "rows_handler os mev s = Some (Ret RS_OK, s')" and "io_sync s" and "\<not> bi_skip (rd_binlog_info s)"
  shows "handler_moves s s'"
proof (cases "bi_filter (rd_binlog_info s)")
  case True
  with assms(1) have
    "s' = set_info ((rd_binlog_info s)\<lparr>bi_filter := bi_tran (rd_binlog_info s), bi_skip := True\<rparr>) s"
    by (auto simp: rows_handler_def Let_def bind_eq_Some_conv)
  then show ?thesis using moves_skip [OF assms(2)] by simp
next
  case False
  with assms(1) obtain wr s1 where
    read: "rs_eof_read_binlog2 s (unat (bi_dl (rd_binlog_info s))) = Some (Ret RS_OK, wr, s1)"
    and create: "rs_binlog_create_data os (set_info ((rd_binlog_info s1)
              \<lparr>bi_data := Some wr, bi_log_format := True, bi_mev := mev\<rparr>) s1) = Some (Ret RS_OK, s')"
    by (auto simp: rows_handler_def Let_def bind_eq_Some_conv split: if_splits)
  have "handler_moves s (set_info ((rd_binlog_info s1)\<lparr>bi_data := Some wr, bi_log_format := True, bi_mev := mev\<rparr>) s1)"
    by (rule moves_read [OF assms(2) read]) (use assms(3) in simp_all)
  then show ?thesis using create_data_stream [OF create] by (simp add: handler_moves_def)
qed

lemma stop_moves:
  assumes "rs_binlog_stop_handler s = Some (Ret RS_OK, s')" and "io_sync s"
  shows "handler_moves s s'"
proof -
  have loop: "stop_loop t \<noteq> Some (Ret RS_OK, s')" for t
  proof (induction t rule: stop_loop.induct)
    case (1 t)
    show ?case
    proof (cases "rs_has_next_binlog t")
      case (Some x)
      obtain r s1 where x: "x = (r, s1)" by (cases x)
      show ?thesis
      proof (cases "io_waits t")
        case Nil then show ?thesis by (subst stop_loop.simps) (simp add: Some x)
      next
        case (Cons w ws)
        show ?thesis
        proof (cases "r = RS_OK \<or> r = RS_ERR")
          case True then show ?thesis by (subst stop_loop.simps) (auto simp: Some x)
        next
          case False
          then show ?thesis using "1" [OF Some [unfolded x] refl _ _ Cons]
            by (subst stop_loop.simps) (simp add: Some x Cons)
        qed
      qed
    qed (subst stop_loop.simps, simp)
  qed
  from assms(1) loop have "s' = set_info ((rd_binlog_info s)\<lparr>bi_skip := True\<rparr>) s"
    by (auto simp: rs_binlog_stop_handler_def split: if_splits)
  then show ?thesis using moves_skip [OF assms(2)] by simp
qed

lemma funcs_moves:
  assumes "rs_binlog_funcs os idx s = Some (Ret RS_OK, s')" and "io_sync s" and "\<not> bi_skip (rd_binlog_info s)"
  shows "handler_moves s s'"
proof -
  have "rs_binlog_skip_handler s = Some (Ret RS_OK, s') \<Longrightarrow> handler_moves s s'"
    unfolding rs_binlog_skip_handler_def using moves_skip [OF assms(2)] by auto
  with assms query_moves intvar_moves xid_moves table_map_moves rows_moves stop_moves show ?thesis
    unfolding rs_binlog_funcs_def rs_binlog_write_rows_handler_def rs_binlog_update_rows_handler_def
      rs_binlog_delete_rows_handler_def
    by (auto split: if_splits)
qed

section \<open>One event\<close>

text \<open>The length field of the event at position a, and its type.\<close>

definition event_len :: "byte list \<Rightarrow> nat \<Rightarrow> nat" where
  "event_len bs a = unat (u32_of (take 4 (drop (a + 9) bs)))"

definition event_type :: "byte list \<Rightarrow> nat \<Rightarrow> byte" where
  "event_type bs a = bs ! (a + 4)"

lemma header_ok:
  assumes "rs_binlog_header_handler s = Some (Ret RS_OK, s')" and "io_sync s"
  shows "io_sync s'" and "binlog_at s' = binlog_at s + 19" and "prefix (binlog_bytes s) (binlog_bytes s')"
    and "binlog_at s + 19 \<le> length (binlog_bytes s')"
    and "unat (bi_el (rd_binlog_info s')) = event_len (binlog_bytes s') (binlog_at s)"
    and "bi_dl (rd_binlog_info s') = bi_el (rd_binlog_info s') - 19"
    and "rd_dump_pos s' = rd_dump_pos s + bi_el (rd_binlog_info s')"
    and "bi_t (rd_binlog_info s') = event_type (binlog_bytes s') (binlog_at s)"
    and "bi_np (rd_binlog_info s') = rd_dump_pos s'"
    and "rd_binlog_info s' = (rd_binlog_info s)\<lparr>bi_t := bi_t (rd_binlog_info s'),
           bi_svrid := bi_svrid (rd_binlog_info s'), bi_el := bi_el (rd_binlog_info s'),
           bi_np := bi_np (rd_binlog_info s'), bi_dl := bi_dl (rd_binlog_info s')\<rparr>"
    and "io_core (s'\<lparr>rd_dump_pos := rd_dump_pos s, rd_binlog_info := rd_binlog_info s\<rparr>) = io_core s"
proof -
  from assms(1) obtain eh s1 t el svrid where
    read: "rs_eof_read_binlog2 s 19 = Some (Ret RS_OK, eh, s1)" and
    f: "mem_get eh 4 = Some t" "mem_read eh 9 4 = Some el" and
    s': "s' = s1\<lparr>rd_dump_pos := rd_dump_pos s1 + u32_of el,
         rd_binlog_info := (rd_binlog_info s1)\<lparr>bi_t := t, bi_svrid := svrid, bi_el := u32_of el,
           bi_np := rd_dump_pos s1 + u32_of el, bi_dl := u32_of el - 19\<rparr>\<rparr>"
    by (auto simp: rs_binlog_header_handler_def Let_def bind_eq_Some_conv split: if_splits)
  note ok = eof_read_ok [OF assms(2) read]
  note core = io_core_fields [OF ok(5)]
  have st: "io_sync s' = io_sync s1" "binlog_at s' = binlog_at s1" "binlog_bytes s' = binlog_bytes s1"
    by (rule stream_cong; simp add: s')+
  show "io_sync s'" "binlog_at s' = binlog_at s + 19" "prefix (binlog_bytes s) (binlog_bytes s')"
    using ok(3,4,6) st by simp_all
  show long: "binlog_at s + 19 \<le> length (binlog_bytes s')"
    using ok(1) arg_cong [OF ok(2), of length] st by simp
  have el: "el = take 4 (drop (binlog_at s + 9) (binlog_bytes s'))"
    using f(2) ok(1,2) st(3) by (auto simp: mem_read_def drop_take add.commute split: if_splits)
  then show "unat (bi_el (rd_binlog_info s')) = event_len (binlog_bytes s') (binlog_at s)"
    by (simp add: s' event_len_def)
  show "bi_t (rd_binlog_info s') = event_type (binlog_bytes s') (binlog_at s)"
    using f(1) ok(1,2) long st(3) by (auto simp: s' event_type_def mem_get_def split: if_splits)
  show "bi_dl (rd_binlog_info s') = bi_el (rd_binlog_info s') - 19"
    "rd_dump_pos s' = rd_dump_pos s + bi_el (rd_binlog_info s')"
    "bi_np (rd_binlog_info s') = rd_dump_pos s'" by (simp_all add: s' core)
  show "rd_binlog_info s' = (rd_binlog_info s)\<lparr>bi_t := bi_t (rd_binlog_info s'),
           bi_svrid := bi_svrid (rd_binlog_info s'), bi_el := bi_el (rd_binlog_info s'),
           bi_np := bi_np (rd_binlog_info s'), bi_dl := bi_dl (rd_binlog_info s')\<rparr>"
    by (simp add: s' core)
  show "io_core (s'\<lparr>rd_dump_pos := rd_dump_pos s, rd_binlog_info := rd_binlog_info s\<rparr>) = io_core s"
  proof -
    have "s'\<lparr>rd_dump_pos := rd_dump_pos s, rd_binlog_info := rd_binlog_info s\<rparr> = s1"
      unfolding s' by (simp flip: core(1,4))
    then show ?thesis using ok(5) by simp
  qed
qed

text \<open>Skipping lands behind the event.\<close>

lemma skip_lands:
  assumes "skip_event s = Some s'" and "io_sync s"
  shows "io_sync s'"
    and "binlog_at s + unat (bi_dl (rd_binlog_info s)) = unat (rd_dump_pos s) \<Longrightarrow> binlog_at s' = unat (rd_dump_pos s)"
proof -
  obtain f b where fb: "rd_binlog_fp s = Some f" "rd_io_buf s = Some b" and b: "buf_ok b"
    and le: "length (unread b) \<le> f_pos f"
    and un: "unread b = take (length (unread b)) (drop (f_pos f - length (unread b)) (f_bytes f))"
    and at: "binlog_at s = f_pos f - length (unread b)" "binlog_bytes s = f_bytes f"
    by (rule io_syncE [OF assms(2)]) (rule that)
  let ?d = "unat (bi_dl (rd_binlog_info s))"
  have "io_sync s' \<and> (binlog_at s + ?d = unat (rd_dump_pos s) \<longrightarrow> binlog_at s' = unat (rd_dump_pos s))"
  proof (cases "?d \<le> buf_left b")
    case True
    let ?b = "b\<lparr>b_pos := b_pos b + ?d\<rparr>"
    from True assms(1) fb have s': "s' = s\<lparr>rd_io_buf := Some ?b\<rparr>"
      by (simp add: skip_event_def)
    have un': "unread ?b = drop ?d (unread b)" and ok': "buf_ok ?b"
      using b True buf_left_unread [OF b] by (auto simp: unread_def buf_ok_def drop_take add.commute)
    have d: "?d \<le> length (unread b)" using True buf_left_unread [OF b] by simp
    have len: "length (unread ?b) = length (unread b) - ?d" unfolding un' by (simp del: length_unread)
    have eq: "unread ?b = take (length (unread ?b)) (drop (f_pos f - length (unread ?b)) (f_bytes f))"
    proof -
      have "drop ?d (unread b) =
          take (length (unread b) - ?d) (drop (f_pos f - (length (unread b) - ?d)) (f_bytes f))"
        using arg_cong [OF un, of "drop ?d"] d le by (simp add: drop_take add.commute del: length_unread)
      then show ?thesis unfolding len unfolding un' .
    qed
    have "rd_binlog_fp s' = Some f" "rd_io_buf s' = Some ?b" using s' fb by simp_all
    from io_syncI [OF this ok' _ eq] le d len at s' show ?thesis by (simp del: length_unread)
  next
    case False
    let ?b = "b\<lparr>b_pos := b_last b\<rparr>" and ?f = "f\<lparr>f_pos := unat (rd_dump_pos s), f_eof := False\<rparr>"
    from False assms(1) fb have s': "s' = s\<lparr>rd_io_buf := Some ?b, rd_binlog_fp := Some ?f\<rparr>"
      by (simp add: skip_event_def)
    have un': "unread ?b = []" and ok': "buf_ok ?b" using b by (auto simp: unread_def buf_ok_def)
    have "rd_binlog_fp s' = Some ?f" "rd_io_buf s' = Some ?b" using s' by simp_all
    from io_syncI [OF this ok'] un' at s' show ?thesis by simp
  qed
  then show "io_sync s'"
    and "binlog_at s + ?d = unat (rd_dump_pos s) \<Longrightarrow> binlog_at s' = unat (rd_dump_pos s)" by blast+
qed

lemma skip_keeps:
  assumes "skip_event s = Some s'"
  shows "binlog_bytes s' = binlog_bytes s" "rd_dump_pos s' = rd_dump_pos s" "rd_binlog_info s' = rd_binlog_info s"
    "rd_ringbuf s' = rd_ringbuf s" "io_heap s' = io_heap s"
    "rd_filter_tables s' = rd_filter_tables s" "rd_dump_file s' = rd_dump_file s"
proof -
  from assms obtain b where b: "rd_io_buf s = Some b" by (cases "rd_io_buf s") (auto simp: skip_event_def)
  have "\<exists>p l. s' = s\<lparr>rd_io_buf := p\<rparr> \<or>
      (\<exists>f. rd_binlog_fp s = Some f \<and> s' = s\<lparr>rd_io_buf := p, rd_binlog_fp := Some (f\<lparr>f_pos := l, f_eof := False\<rparr>)\<rparr>)"
  proof (cases "unat (bi_dl (rd_binlog_info s)) \<le> buf_left b")
    case True
    with assms b show ?thesis by (auto simp: skip_event_def)
  next
    case False
    with assms b show ?thesis by (cases "rd_binlog_fp s") (auto simp: skip_event_def)
  qed
  then show "binlog_bytes s' = binlog_bytes s" "rd_dump_pos s' = rd_dump_pos s"
    "rd_binlog_info s' = rd_binlog_info s" "rd_ringbuf s' = rd_ringbuf s" "io_heap s' = io_heap s"
    "rd_filter_tables s' = rd_filter_tables s" "rd_dump_file s' = rd_dump_file s"
    by (auto simp: binlog_bytes_def)
qed

text \<open>The end of an event that is followed by the next one.\<close>

lemma finish_parts:
  assumes "rs_binlog_finish_handler os s = Some (Ret RS_OK, s')"
  obtains s1 s2 where
    "(\<not> bi_tran (rd_binlog_info s) \<and> \<not> bi_sent (rd_binlog_info s) \<and> \<not> bi_filter (rd_binlog_info s) \<or>
        bi_flush (rd_binlog_info s)) \<and> rs_binlog_create_data os s = Some (Ret RS_OK, s1) \<or>
     \<not> (\<not> bi_tran (rd_binlog_info s) \<and> \<not> bi_sent (rd_binlog_info s) \<and> \<not> bi_filter (rd_binlog_info s) \<or>
        bi_flush (rd_binlog_info s)) \<and> s1 = s"
    and "if bi_skip (rd_binlog_info s1)
         then skip_event (set_info ((rd_binlog_info s1)\<lparr>bi_sent := False\<rparr>) s1) = Some s2
         else s2 = set_info ((rd_binlog_info s1)\<lparr>bi_sent := False\<rparr>) s1"
    and "s' = set_info ((rd_binlog_info s2)\<lparr>bi_skip := False\<rparr>) s2"
proof -
  let ?c = "\<not> bi_tran (rd_binlog_info s) \<and> \<not> bi_sent (rd_binlog_info s) \<and> \<not> bi_filter (rd_binlog_info s) \<or>
        bi_flush (rd_binlog_info s)"
  from assms obtain r s1 where
    first: "(if ?c then rs_binlog_create_data os s else Some (Ret RS_OK, s)) = Some (r, s1)"
    and rest: "(if r = Running then Some (Running, s1)
     else if r \<noteq> Ret RS_OK then Some (Ret RS_ERR, s1)
     else do {
       let bi = rd_binlog_info s1;
       let s2 = set_info (bi\<lparr>bi_sent := False\<rparr>) s1;
       if bi_skip bi
       then do {
         s3 \<leftarrow> skip_event s2;
         Some (Ret RS_OK, set_info ((rd_binlog_info s3)\<lparr>bi_skip := False\<rparr>) s3) }
       else Some (Ret RS_OK, s2) }) = Some (Ret RS_OK, s')"
    unfolding rs_binlog_finish_handler_def Let_def bind_eq_Some_conv by (auto simp del: split_paired_Ex)
  have r: "r = Ret RS_OK" using rest by (auto split: if_splits)
  have one: "?c \<and> rs_binlog_create_data os s = Some (Ret RS_OK, s1) \<or> \<not> ?c \<and> s1 = s"
    using first r by (auto split: if_splits)
  let ?t = "set_info ((rd_binlog_info s1)\<lparr>bi_sent := False\<rparr>) s1"
  show thesis
  proof (cases "bi_skip (rd_binlog_info s1)")
    case True
    with rest r obtain s3 where "skip_event ?t = Some s3" "s' = set_info ((rd_binlog_info s3)\<lparr>bi_skip := False\<rparr>) s3"
      by (auto simp: Let_def bind_eq_Some_conv)
    with True show thesis by (intro that [OF one, of s3]) simp_all
  next
    case False
    with rest r have "s' = ?t" by (simp add: Let_def)
    moreover have "?t = set_info ((rd_binlog_info ?t)\<lparr>bi_skip := False\<rparr>) ?t" using False by (simp add: set_info_def)
    ultimately show thesis using False by (intro that [OF one, of ?t]) simp_all
  qed
qed

lemma finish_keeps:
  assumes "rs_binlog_finish_handler os s = Some (Ret RS_OK, s')"
  shows "binlog_bytes s' = binlog_bytes s" and "rd_dump_pos s' = rd_dump_pos s"
    and "bi_el (rd_binlog_info s') = bi_el (rd_binlog_info s)"
proof -
  obtain s1 s2 where first:
    "(\<not> bi_tran (rd_binlog_info s) \<and> \<not> bi_sent (rd_binlog_info s) \<and> \<not> bi_filter (rd_binlog_info s) \<or>
        bi_flush (rd_binlog_info s)) \<and> rs_binlog_create_data os s = Some (Ret RS_OK, s1) \<or>
     \<not> (\<not> bi_tran (rd_binlog_info s) \<and> \<not> bi_sent (rd_binlog_info s) \<and> \<not> bi_filter (rd_binlog_info s) \<or>
        bi_flush (rd_binlog_info s)) \<and> s1 = s"
    and skip: "if bi_skip (rd_binlog_info s1)
         then skip_event (set_info ((rd_binlog_info s1)\<lparr>bi_sent := False\<rparr>) s1) = Some s2
         else s2 = set_info ((rd_binlog_info s1)\<lparr>bi_sent := False\<rparr>) s1"
    and s': "s' = set_info ((rd_binlog_info s2)\<lparr>bi_skip := False\<rparr>) s2"
    by (rule finish_parts [OF assms]) (rule that)
  have one: "binlog_bytes s1 = binlog_bytes s \<and> rd_dump_pos s1 = rd_dump_pos s \<and>
      bi_el (rd_binlog_info s1) = bi_el (rd_binlog_info s)"
    using first create_data_stream [of os s _ s1] by blast
  have two: "binlog_bytes s2 = binlog_bytes s1 \<and> rd_dump_pos s2 = rd_dump_pos s1 \<and>
      bi_el (rd_binlog_info s2) = bi_el (rd_binlog_info s1)"
    using skip skip_keeps [of "set_info ((rd_binlog_info s1)\<lparr>bi_sent := False\<rparr>) s1" s2]
    by (auto split: if_splits)
  show "binlog_bytes s' = binlog_bytes s" "rd_dump_pos s' = rd_dump_pos s"
    "bi_el (rd_binlog_info s') = bi_el (rd_binlog_info s)"
    using one two by (simp_all add: s')
qed

lemma finish_lands:
  assumes "rs_binlog_finish_handler os s = Some (Ret RS_OK, s')" and "io_sync s"
  shows "io_sync s'" and "\<not> bi_skip (rd_binlog_info s')"
    and "binlog_at s + (if bi_skip (rd_binlog_info s) then unat (bi_dl (rd_binlog_info s)) else 0) =
         unat (rd_dump_pos s) \<Longrightarrow> io_at s'"
proof -
  obtain s1 s2 where first:
    "(\<not> bi_tran (rd_binlog_info s) \<and> \<not> bi_sent (rd_binlog_info s) \<and> \<not> bi_filter (rd_binlog_info s) \<or>
        bi_flush (rd_binlog_info s)) \<and> rs_binlog_create_data os s = Some (Ret RS_OK, s1) \<or>
     \<not> (\<not> bi_tran (rd_binlog_info s) \<and> \<not> bi_sent (rd_binlog_info s) \<and> \<not> bi_filter (rd_binlog_info s) \<or>
        bi_flush (rd_binlog_info s)) \<and> s1 = s"
    and skip: "if bi_skip (rd_binlog_info s1)
         then skip_event (set_info ((rd_binlog_info s1)\<lparr>bi_sent := False\<rparr>) s1) = Some s2
         else s2 = set_info ((rd_binlog_info s1)\<lparr>bi_sent := False\<rparr>) s1"
    and s': "s' = set_info ((rd_binlog_info s2)\<lparr>bi_skip := False\<rparr>) s2"
    by (rule finish_parts [OF assms(1)]) (rule that)
  have same: "io_sync s1 = io_sync s" "binlog_at s1 = binlog_at s"
    "rd_dump_pos s1 = rd_dump_pos s" "bi_skip (rd_binlog_info s1) = bi_skip (rd_binlog_info s)"
    "bi_dl (rd_binlog_info s1) = bi_dl (rd_binlog_info s)"
    using first create_data_stream [of os s _ s1] by auto
  show sync: "io_sync s'" and noskip: "\<not> bi_skip (rd_binlog_info s')"
    using skip skip_lands(1) [of "set_info ((rd_binlog_info s1)\<lparr>bi_sent := False\<rparr>) s1" s2] assms(2) same
    unfolding s' by (auto split: if_splits)
  assume to: "binlog_at s + (if bi_skip (rd_binlog_info s) then unat (bi_dl (rd_binlog_info s)) else 0) =
         unat (rd_dump_pos s)"
  show "io_at s'"
  proof (cases "bi_skip (rd_binlog_info s1)")
    case True
    with skip have skip: "skip_event (set_info ((rd_binlog_info s1)\<lparr>bi_sent := False\<rparr>) s1) = Some s2" by simp
    have "binlog_at s2 = unat (rd_dump_pos s)"
      using skip_lands(2) [OF skip] assms(2) to True same by simp
    moreover have "rd_dump_pos s2 = rd_dump_pos s" using skip_keeps [OF skip] same by simp
    ultimately show ?thesis using sync unfolding s' by (simp add: io_at_def)
  next
    case False
    with skip to assms(2) same show ?thesis unfolding s' by (simp add: io_at_def)
  qed
qed

section \<open>Runs\<close>

text \<open>The parts of an event after which the loop goes on.\<close>

lemma event_parts:
  assumes "binlog_event os s = Some (None, s')"
  obtains s1 s2 where "rs_binlog_header_handler s = Some (Ret RS_OK, s1)"
    and "rs_binlog_funcs os (unat (scast (bi_t (rd_binlog_info s1)) :: u32)) s1 = Some (Ret RS_OK, s2)"
    and "rs_binlog_finish_handler os s2 = Some (Ret RS_OK, s')"
  using assms unfolding binlog_event_def
  by (auto simp: bind_eq_Some_conv Let_def split: if_splits)

lemma unat_add_small: "unat a + unat b < 2 ^ 32 \<Longrightarrow> unat (a + b :: u32) = unat a + unat b"
  by (simp add: unat_word_ariths)

lemma event_moves:
  assumes event: "binlog_event os s = Some (None, s')" and sync: "io_sync s"
    and noskip: "\<not> bi_skip (rd_binlog_info s)"
  shows "io_sync s'" and "\<not> bi_skip (rd_binlog_info s')" and "prefix (binlog_bytes s) (binlog_bytes s')"
    and "binlog_at s + 19 \<le> length (binlog_bytes s')"
    and "io_at s \<Longrightarrow> 19 \<le> event_len (binlog_bytes s') (binlog_at s) \<Longrightarrow>
      binlog_at s + event_len (binlog_bytes s') (binlog_at s) < 2 ^ 32 \<Longrightarrow>
      io_at s' \<and> binlog_at s' = binlog_at s + event_len (binlog_bytes s') (binlog_at s)"
proof -
  let ?a = "binlog_at s"
  from event obtain s1 s2 where head: "rs_binlog_header_handler s = Some (Ret RS_OK, s1)"
    and func: "rs_binlog_funcs os (unat (scast (bi_t (rd_binlog_info s1)) :: u32)) s1 = Some (Ret RS_OK, s2)"
    and fin: "rs_binlog_finish_handler os s2 = Some (Ret RS_OK, s')"
    by (rule event_parts) (rule that)
  note h = header_ok [OF head sync]
  have noskip1: "\<not> bi_skip (rd_binlog_info s1)" using noskip by (subst h(10)) simp
  have mv: "handler_moves s1 s2" by (rule funcs_moves [OF func h(1) noskip1])
  then have sync2: "io_sync s2" by (simp add: handler_moves_def)
  have pre: "prefix (binlog_bytes s1) (binlog_bytes s')"
    using mv finish_keeps(1) [OF fin] by (simp add: handler_moves_def)
  show "io_sync s'" "\<not> bi_skip (rd_binlog_info s')" by (rule finish_lands [OF fin sync2])+
  show "prefix (binlog_bytes s) (binlog_bytes s')" using h(3) pre by (rule prefix_order.trans)
  show "?a + 19 \<le> length (binlog_bytes s')" using h(4) prefix_length_le [OF pre] by simp
  assume at: "io_at s" and len: "19 \<le> event_len (binlog_bytes s') ?a"
    and fits: "?a + event_len (binlog_bytes s') ?a < 2 ^ 32"
  have pos: "?a = unat (rd_dump_pos s)" using at by (simp add: io_at_def)
  have el: "unat (bi_el (rd_binlog_info s1)) = event_len (binlog_bytes s') ?a"
    using pre h(4,5) by (auto simp: event_len_def prefix_def)
  have dl: "unat (bi_dl (rd_binlog_info s1)) + 19 = unat (bi_el (rd_binlog_info s1))"
    using len unfolding el [symmetric] h(6) by (simp add: unat_sub word_le_nat_alt)
  have to: "unat (rd_dump_pos s1) = ?a + unat (bi_el (rd_binlog_info s1))"
    using fits pos unfolding el [symmetric] h(7) by (simp add: unat_add_small)
  have fin': "io_at s'" using mv h(2) dl to by (intro finish_lands(3) [OF fin]) (auto simp: handler_moves_def)
  have "rd_dump_pos s' = rd_dump_pos s1"
    using mv finish_keeps(2) [OF fin] by (simp add: handler_moves_def)
  with fin' to el show "io_at s' \<and> binlog_at s' = ?a + event_len (binlog_bytes s') ?a" by (simp add: io_at_def)
qed

text \<open>Going on for n events, and where the n-th event behind position a ends.\<close>

fun run_events :: "os_mem \<Rightarrow> nat \<Rightarrow> io_state \<Rightarrow> io_state option" where
  "run_events os n s =
     (if n = 0 then Some s
      else do {
        (r, s1) \<leftarrow> binlog_event os s;
        if r = None then run_events os (n - 1) s1 else None })"

fun event_end :: "byte list \<Rightarrow> nat \<Rightarrow> nat \<Rightarrow> nat option" where
  "event_end bs n a =
     (if n = 0 then Some a
      else if 19 \<le> event_len bs a \<and> a + event_len bs a < 4294967296
      then event_end bs (n - 1) (a + event_len bs a) else None)"

declare run_events.simps [simp del] event_end.simps [simp del]

lemma run_events_Suc:
  assumes "run_events os (Suc n) s = Some s'"
  obtains s1 where "binlog_event os s = Some (None, s1)" and "run_events os n s1 = Some s'"
  using assms by (auto simp: run_events.simps [of os "Suc n"] bind_eq_Some_conv split: if_splits)

lemma run_events_sync:
  assumes "run_events os n s = Some s'" and "io_sync s" and "\<not> bi_skip (rd_binlog_info s)"
  shows "prefix (binlog_bytes s) (binlog_bytes s')"
  using assms
proof (induction n arbitrary: s)
  case 0
  then show ?case by (simp add: run_events.simps)
next
  case (Suc n)
  from Suc.prems(1) obtain s1 where ev: "binlog_event os s = Some (None, s1)" "run_events os n s1 = Some s'"
    by (rule run_events_Suc)
  note mv = event_moves [OF ev(1) Suc.prems(2,3)]
  from mv(3) Suc.IH [OF ev(2) mv(1,2)] show ?case by (rule prefix_order.trans)
qed

lemma run_events_at:
  assumes "run_events os n s = Some s'" and "io_at s" and "event_end (binlog_bytes s') n (binlog_at s) = Some q"
  shows "io_at s' \<and> binlog_at s' = q"
  using assms
proof (induction n arbitrary: s)
  case 0
  then show ?case by (simp add: run_events.simps event_end.simps)
next
  case (Suc n)
  let ?bs = "binlog_bytes s'" and ?a = "binlog_at s"
  obtain s1 where ev: "binlog_event os s = Some (None, s1)" and more: "run_events os n s1 = Some s'"
    by (rule run_events_Suc [OF Suc.prems(1)])
  from Suc.prems(2) have "io_sync s" "\<not> bi_skip (rd_binlog_info s)" by (simp_all add: io_at_def)
  note mv = event_moves [OF ev this]
  from Suc.prems(3) have len: "19 \<le> event_len ?bs ?a" "?a + event_len ?bs ?a < 4294967296"
    and rest: "event_end ?bs n (?a + event_len ?bs ?a) = Some q"
    by (auto simp: event_end.simps [of _ "Suc n"] split: if_splits)
  have "event_len ?bs ?a = event_len (binlog_bytes s1) ?a"
    using run_events_sync [OF more mv(1,2)] mv(4) by (auto simp: event_len_def prefix_def)
  with mv(5) [OF Suc.prems(2)] len have "io_at s1" "binlog_at s1 = ?a + event_len ?bs ?a" by auto
  with Suc.IH [OF more] rest show ?case by simp
qed

lemma run_events_loop:
  "run_events os n s = Some s' \<Longrightarrow> binlog_loop os (n + m) s = binlog_loop os m s'"
proof (induction n arbitrary: s)
  case 0
  then show ?case by (simp add: run_events.simps)
next
  case (Suc n)
  from Suc.prems obtain s1 where ev: "binlog_event os s = Some (None, s1)" "run_events os n s1 = Some s'"
    by (rule run_events_Suc)
  then show ?case using Suc.IH [OF ev(2)] by (subst binlog_loop.simps) (simp add: ev(1))
qed

section \<open>Table maps and the list of tables\<close>

lemma find_sub_sublist: "find_sub sea s \<noteq> None \<longleftrightarrow> sublist sea s"
proof (induction s)
  case (Cons b s)
  have "prefix sea (b # s) \<longleftrightarrow> take (length sea) (b # s) = sea"
    by (metis append_eq_conv_conj append_take_drop_id prefix_def)
  with Cons show ?case by (auto simp: sublist_Cons_right)
qed simp

lemma prefix_comma:
  assumes "c \<notin> set x" and "c \<notin> set t"
  shows "prefix (x @ [c]) (t @ c # r) \<longleftrightarrow> x = t"
proof
  assume "prefix (x @ [c]) (t @ c # r)"
  then obtain z where "x @ c # z = t @ c # r" by (auto simp: prefix_def)
  with assms show "x = t"
  proof (induction x arbitrary: t)
    case Nil then show ?case by (cases t) auto
  next
    case (Cons a x) then show ?case by (cases t) auto
  qed
qed simp

lemma sublist_comma_skip:
  assumes "c \<notin> set t"
  shows "sublist (c # x) (t @ c # r) \<longleftrightarrow> prefix (c # x) (c # r) \<or> sublist (c # x) r"
  using assms
proof (induction t)
  case Nil
  then show ?case by (simp add: sublist_Cons_right)
next
  case (Cons a t)
  then show ?case by (auto simp: sublist_Cons_right)
qed

text \<open>A list of names, each followed by a comma: the name between commas is found iff it is a member.\<close>

definition comma_list :: "byte list list \<Rightarrow> byte list" where
  "comma_list ts = [44] @ concat (map (\<lambda>t. t @ [44]) ts)"

lemma comma_list_member:
  assumes "44 \<notin> set x" and "\<forall>t\<in>set ts. 44 \<notin> set t"
  shows "sublist (44 # x @ [44]) (comma_list ts) \<longleftrightarrow> x \<in> set ts"
  using assms(2)
proof (induction ts)
  case Nil
  have "\<not> sublist (44 # x @ [44]) [44 :: byte]"
    using sublist_length_le [of "44 # x @ [44]" "[44 :: byte]"] by auto
  then show ?case by (simp add: comma_list_def)
next
  case (Cons t ts)
  let ?r = "concat (map (\<lambda>t. t @ [44]) ts)"
  have "sublist (44 # x @ [44]) (44 # (t @ 44 # ?r)) \<longleftrightarrow>
      prefix (x @ [44]) (t @ 44 # ?r) \<or> sublist (44 # x @ [44]) (t @ 44 # ?r)"
    by (auto simp: sublist_Cons_right)
  also have "prefix (x @ [44]) (t @ 44 # ?r) \<longleftrightarrow> x = t"
    using assms(1) Cons.prems by (intro prefix_comma) auto
  also have "sublist (44 # x @ [44]) (t @ 44 # ?r) \<longleftrightarrow> sublist (44 # x @ [44]) (44 # ?r)"
    using Cons.prems sublist_comma_skip [of 44 t "x @ [44]" ?r] by (auto simp: sublist_Cons_right)
  finally show ?case using Cons by (simp add: comma_list_def)
qed

text \<open>The body of a table map with up to 250 columns.\<close>

definition table_map_body ::
    "byte list \<Rightarrow> byte list \<Rightarrow> byte list \<Rightarrow> byte list \<Rightarrow> byte list \<Rightarrow> byte list \<Rightarrow> byte list" where
  "table_map_body pre db tb ct cm tail =
     pre @ [of_nat (length db)] @ db @ [0, of_nat (length tb)] @ tb @ [0, of_nat (length ct)] @ ct @
     [of_nat (length cm)] @ cm @ tail"

definition table_ok :: "byte list \<Rightarrow> byte list \<Rightarrow> byte list \<Rightarrow> byte list \<Rightarrow> bool" where
  "table_ok db tb ct cm \<longleftrightarrow> 0 \<notin> set db \<and> 0 \<notin> set tb \<and> 44 \<notin> set db \<and> 44 \<notin> set tb \<and>
     length db \<le> 63 \<and> length tb \<le> 63 \<and> length ct \<le> 250 \<and> length cm \<le> 250"

lemma set_low_byte: "n < 255 \<Longrightarrow> unat ((set_low (x :: u32) [of_nat n] AND 255) + 1) = n + 1"
proof -
  assume n: "n < 255"
  have "set_low x [of_nat n] AND 255 = set_low x [of_nat n] mod 256"
    using take_bit_eq_mask [of 8 "set_low x [of_nat n]"] by (simp add: take_bit_eq_mod mask_eq_exp_minus_1)
  then have "unat (set_low x [of_nat n] AND 255) = unat (set_low x [of_nat n]) mod 256"
    by (simp add: unat_mod)
  also have "\<dots> = n"
    using n by (simp add: set_low_def unat_of_nat take_bit_eq_mod mod_mod_cancel del: of_nat_add of_nat_mult)
  finally show ?thesis using n by (simp add: unat_word_ariths)
qed

text \<open>What a table map leaves in the event state.\<close>

definition table_info :: "rs_binlog_info_t \<Rightarrow> byte list \<Rightarrow> byte list \<Rightarrow> byte list \<Rightarrow> byte list \<Rightarrow> bool" where
  "table_info bi db tb ct cm \<longleftrightarrow>
     c_contents (arr_str name_cap (bi_db bi)) = Some db \<and> c_contents (arr_str name_cap (bi_tb bi)) = Some tb \<and>
     arr_read ct_cap (bi_ct bi) (unat (bi_cn bi)) = Some ct \<and> arr_read cm_cap (bi_cm bi) (unat (bi_ml bi)) = Some cm"

lemma unat_small: "n \<le> 250 \<Longrightarrow> unat (ucast (of_nat n :: u64) :: u32) = n"
  by (simp add: unsigned_ucast_eq unat_of_nat take_bit_eq_mod)

lemma table_map_reads:
  assumes "length pre = 8" and "tm = table_map_body pre db tb ct cm tail"
  shows "mem_read tm 8 (Suc 0) = Some [of_nat (length db)]"
    and "mem_read tm 9 (Suc (length db)) = Some (db @ [0])"
    and "mem_read tm (9 + Suc (length db)) (Suc 0) = Some [of_nat (length tb)]"
    and "mem_read tm (9 + Suc (length db) + 1) (Suc (length tb)) = Some (tb @ [0])"
    and "drop (9 + Suc (length db) + 1 + Suc (length tb)) tm = of_nat (length ct) # ct @ of_nat (length cm) # cm @ tail"
    and "mem_read tm (9 + Suc (length db) + 1 + Suc (length tb) + 1) (length ct) = Some ct"
    and "drop (9 + Suc (length db) + 1 + Suc (length tb) + 1 + length ct) tm = of_nat (length cm) # cm @ tail"
    and "mem_read tm (9 + Suc (length db) + 1 + Suc (length tb) + 1 + length ct + 1) (length cm) = Some cm"
proof -
  let ?h = "pre @ [of_nat (length db)]"
  let ?t = "?h @ db @ [0] @ [of_nat (length tb)]"
  let ?c = "?t @ tb @ [0]"
  let ?m = "?c @ [of_nat (length ct)] @ ct"
  note tm = assms(2) [unfolded table_map_body_def]
  show "mem_read tm 8 (Suc 0) = Some [of_nat (length db)]"
    by (rule mem_read_split [of _ pre]) (use assms(1) tm in simp_all)
  show "mem_read tm 9 (Suc (length db)) = Some (db @ [0])"
    by (rule mem_read_split [of _ ?h]) (use assms(1) tm in simp_all)
  show "mem_read tm (9 + Suc (length db)) (Suc 0) = Some [of_nat (length tb)]"
    by (rule mem_read_split [of _ "?h @ db @ [0]"]) (use assms(1) tm in simp_all)
  show "mem_read tm (9 + Suc (length db) + 1) (Suc (length tb)) = Some (tb @ [0])"
    by (rule mem_read_split [of _ ?t]) (use assms(1) tm in simp_all)
  show "drop (9 + Suc (length db) + 1 + Suc (length tb)) tm = of_nat (length ct) # ct @ of_nat (length cm) # cm @ tail"
    by (rule drop_split [of _ ?c]) (use assms(1) tm in simp_all)
  show "mem_read tm (9 + Suc (length db) + 1 + Suc (length tb) + 1) (length ct) = Some ct"
    by (rule mem_read_split [of _ "?c @ [of_nat (length ct)]"]) (use assms(1) tm in simp_all)
  show "drop (9 + Suc (length db) + 1 + Suc (length tb) + 1 + length ct) tm = of_nat (length cm) # cm @ tail"
    by (rule drop_split [of _ ?m]) (use assms(1) tm in simp_all)
  show "mem_read tm (9 + Suc (length db) + 1 + Suc (length tb) + 1 + length ct + 1) (length cm) = Some cm"
    by (rule mem_read_split [of _ "?m @ [of_nat (length cm)]"]) (use assms(1) tm in simp_all)
qed

lemma parse_table_map_body:
  assumes ok: "table_ok db tb ct cm" and pre: "length pre = 8"
  shows "\<exists>bi'. parse_table_map (table_map_body pre db tb ct cm tail) bi = Some bi' \<and> table_info bi' db tb ct cm"
proof -
  let ?tm = "table_map_body pre db tb ct cm tail"
  note r = table_map_reads [OF pre refl, of db tb ct cm tail]
  have l: "length db \<le> 63" "length tb \<le> 63" "length ct \<le> 250" "length cm \<le> 250"
    and z: "0 \<notin> set db" "0 \<notin> set tb" using ok by (simp_all add: table_ok_def)
  have d: "unat ((set_low (bi_dbl bi) [of_nat (length db)] AND 255) + 1) = Suc (length db)"
    and t: "unat ((set_low (bi_tbl bi) [of_nat (length tb)] AND 255) + 1) = Suc (length tb)"
    using set_low_byte [of "length db" "bi_dbl bi"] set_low_byte [of "length tb" "bi_tbl bi"] l by simp_all
  note p = packed_small [OF l(3)] packed_small [OF l(4)]
  note u = unat_small [OF l(3)] unat_small [OF l(4)]
  have n1: "unat (1 :: u32) = 1" by simp
  have s: "mem_read ?tm (8 + 1) n = mem_read ?tm 9 n" for n by simp
  show ?thesis
    using l z
    by (simp only: parse_table_map_def Let_def bind.bind_lunit r(1) [folded One_nat_def] d r(2) r(3) [folded One_nat_def]
          t r(4) r(5) p prod.case u n1 r(6,7,8) arr_write_start)
      (simp add: table_info_def u arr_simps)
qed

text \<open>The test of the table against the list of the slave.\<close>

lemma table_filter:
  assumes "table_ok db tb ct cm" and "\<forall>t\<in>set ts. 44 \<notin> set t \<and> 0 \<notin> set t"
    and "tables = comma_list ts @ 0 # r"
  shows "\<exists>hit. c_strstr tables (take 130 (table_key db tb) @ [0]) = Some hit \<and>
    (hit = None \<longleftrightarrow> db @ [46] @ tb \<notin> set ts)"
proof -
  have l: "length db \<le> 63" "length tb \<le> 63" and z: "0 \<notin> set db" "0 \<notin> set tb" "44 \<notin> set db" "44 \<notin> set tb"
    using assms(1) by (simp_all add: table_ok_def)
  have key: "take 130 (table_key db tb) @ [0] = table_key db tb @ [0]" using l by (simp add: table_key_def)
  have z1: "0 \<notin> set (table_key db tb)" and z2: "0 \<notin> set (comma_list ts)"
    using z assms(2) by (auto simp: table_key_def comma_list_def)
  have "c_strstr tables (table_key db tb @ [0]) = Some (find_sub (table_key db tb) (comma_list ts))"
    using c_contents_append [OF z1, of "[]"] c_contents_append [OF z2, of r]
    by (simp add: c_strstr_def assms(3))
  moreover have "find_sub (table_key db tb) (comma_list ts) = None \<longleftrightarrow> db @ [46] @ tb \<notin> set ts"
  proof -
    have "44 \<notin> set (db @ [46] @ tb)" "\<forall>t\<in>set ts. 44 \<notin> set t" using z assms(2) by simp_all
    from comma_list_member [OF this] have "sublist (table_key db tb) (comma_list ts) \<longleftrightarrow> db @ [46] @ tb \<in> set ts"
      by (simp add: table_key_def)
    from trans [OF find_sub_sublist this] show ?thesis by blast
  qed
  ultimately show ?thesis unfolding key by (intro exI conjI)
qed

text \<open>The body of the event at position a.\<close>

definition event_body :: "byte list \<Rightarrow> nat \<Rightarrow> byte list" where
  "event_body bs a = take (event_len bs a - 19) (drop (a + 19) bs)"

text \<open>An event whose handler reads its body.\<close>

lemma body_read:
  assumes head: "rs_binlog_header_handler s = Some (Ret RS_OK, s1)" and sync: "io_sync s"
    and read: "rs_eof_read_binlog2 s1 (unat (bi_dl (rd_binlog_info s1))) = Some (Ret RS_OK, q, s2)"
    and pre: "prefix (binlog_bytes s2) bs" and len: "19 \<le> event_len bs (binlog_at s)"
  shows "q = event_body bs (binlog_at s)" and "length q + 19 = event_len bs (binlog_at s)"
    and "unat (bi_el (rd_binlog_info s1)) = event_len bs (binlog_at s)"
    and "bi_t (rd_binlog_info s1) = event_type bs (binlog_at s)"
proof -
  note h = header_ok [OF head sync]
  note r = eof_read_ok [OF h(1) read]
  obtain x y where b1: "binlog_bytes s2 = binlog_bytes s1 @ x" and b2: "bs = binlog_bytes s1 @ x @ y"
    using r(6) pre by (auto simp: prefix_def)
  show el: "unat (bi_el (rd_binlog_info s1)) = event_len bs (binlog_at s)"
    using h(4,5) unfolding b2 by (simp add: event_len_def)
  show "bi_t (rd_binlog_info s1) = event_type bs (binlog_at s)"
    using h(4,8) unfolding b2 by (simp add: event_type_def nth_append)
  have dl: "unat (bi_dl (rd_binlog_info s1)) + 19 = event_len bs (binlog_at s)"
    using len unfolding el [symmetric] h(6) by (simp add: unat_sub word_le_nat_alt)
  then show "length q + 19 = event_len bs (binlog_at s)" using r(1) by simp
  have e: "event_len bs (binlog_at s) - 19 = length q" using dl r(1) by simp
  have "length q \<le> length (binlog_bytes s2) - (binlog_at s + 19)"
    using r(1) arg_cong [OF r(2), of length] h(2) by simp
  then have "take (length q) (drop (binlog_at s + 19) bs) = take (length q) (drop (binlog_at s + 19) (binlog_bytes s2))"
    unfolding b2 b1 append_assoc [symmetric] by simp
  with r(1,2) h(2) show "q = event_body bs (binlog_at s)" unfolding event_body_def e by simp
qed

section \<open>What an event does\<close>

text \<open>The other fields of the state, over the header and the body of an event.\<close>

lemma header_core:
  assumes "rs_binlog_header_handler s = Some (Ret RS_OK, s1)" and "io_sync s"
  shows "rd_filter_tables s1 = rd_filter_tables s" "rd_dump_file s1 = rd_dump_file s"
    "rd_ringbuf s1 = rd_ringbuf s" "rd_pool s1 = rd_pool s" "io_heap s1 = io_heap s" "io_reader s1 = io_reader s"
  using io_core_fields [OF header_ok(11) [OF assms]] by simp_all

lemma event_number: "unat (scast (19 :: byte) :: u32) = 19" "unat (scast (23 :: byte) :: u32) = 23"
  "unat (scast (24 :: byte) :: u32) = 24" "unat (scast (25 :: byte) :: u32) = 25"
  by code_simp+

lemma finish_quiet:
  assumes "rs_binlog_finish_handler os s = Some (Ret RS_OK, s')"
    and "bi_tran (rd_binlog_info s) \<or> bi_sent (rd_binlog_info s) \<or> bi_filter (rd_binlog_info s)"
    and "\<not> bi_flush (rd_binlog_info s)"
  shows "rd_ringbuf s' = rd_ringbuf s" "io_heap s' = io_heap s" "rd_filter_tables s' = rd_filter_tables s"
    "rd_dump_file s' = rd_dump_file s"
    "rd_binlog_info s' = (rd_binlog_info s)\<lparr>bi_sent := False, bi_skip := False\<rparr>"
proof -
  let ?t = "set_info ((rd_binlog_info s)\<lparr>bi_sent := False\<rparr>) s"
  obtain s1 s2 where "s1 = s" and skip: "if bi_skip (rd_binlog_info s1)
         then skip_event (set_info ((rd_binlog_info s1)\<lparr>bi_sent := False\<rparr>) s1) = Some s2
         else s2 = set_info ((rd_binlog_info s1)\<lparr>bi_sent := False\<rparr>) s1"
    and s': "s' = set_info ((rd_binlog_info s2)\<lparr>bi_skip := False\<rparr>) s2"
    by (rule finish_parts [OF assms(1)]) (use assms(2,3) in \<open>auto intro: that\<close>)
  have two: "rd_ringbuf s2 = rd_ringbuf s \<and> io_heap s2 = io_heap s \<and> rd_filter_tables s2 = rd_filter_tables s \<and>
      rd_dump_file s2 = rd_dump_file s \<and> rd_binlog_info s2 = (rd_binlog_info s)\<lparr>bi_sent := False\<rparr>"
  proof (cases "bi_skip (rd_binlog_info s)")
    case True
    with skip have e: "skip_event ?t = Some s2" by (simp add: \<open>s1 = s\<close>)
    from skip_keeps [OF e] show ?thesis by simp
  next
    case False
    with skip show ?thesis by (simp add: \<open>s1 = s\<close>)
  qed
  then show "rd_ringbuf s' = rd_ringbuf s" "io_heap s' = io_heap s" "rd_filter_tables s' = rd_filter_tables s"
    "rd_dump_file s' = rd_dump_file s"
    "rd_binlog_info s' = (rd_binlog_info s)\<lparr>bi_sent := False, bi_skip := False\<rparr>"
    unfolding s' by simp_all
qed

text \<open>A table map of a transaction: the table is noted and compared with the list of the slave.\<close>

lemma table_map_event:
  assumes event: "binlog_event os s = Some (None, s')" and sync: "io_sync s" "\<not> bi_skip (rd_binlog_info s)"
    and bs: "prefix (binlog_bytes s') bs" and a: "a = binlog_at s"
    and type: "event_type bs a = 19" and len: "19 \<le> event_len bs a"
    and body: "event_body bs a = table_map_body pre db tb ct cm tail" "length pre = 8" "table_ok db tb ct cm"
    and tables: "rd_filter_tables s = Some (comma_list ts @ 0 # r)" "\<forall>t\<in>set ts. 44 \<notin> set t \<and> 0 \<notin> set t"
    and tran: "bi_tran (rd_binlog_info s)" "\<not> bi_flush (rd_binlog_info s)"
  shows "table_info (rd_binlog_info s') db tb ct cm"
    and "bi_filter (rd_binlog_info s') \<longleftrightarrow> db @ [46] @ tb \<notin> set ts"
    and "bi_tran (rd_binlog_info s')" and "\<not> bi_flush (rd_binlog_info s')"
    and "rd_ringbuf s' = rd_ringbuf s" and "io_heap s' = io_heap s" and "rd_dump_file s' = rd_dump_file s"
proof -
  from event obtain s1 s2 where head: "rs_binlog_header_handler s = Some (Ret RS_OK, s1)"
    and func: "rs_binlog_funcs os (unat (scast (bi_t (rd_binlog_info s1)) :: u32)) s1 = Some (Ret RS_OK, s2)"
    and fin: "rs_binlog_finish_handler os s2 = Some (Ret RS_OK, s')"
    by (rule event_parts) (rule that)
  note h = header_ok [OF head sync(1)]
  have i1: "bi_tran (rd_binlog_info s1)" "\<not> bi_flush (rd_binlog_info s1)" "\<not> bi_skip (rd_binlog_info s1)"
    using tran sync(2) by (subst h(10), simp)+
  have pre: "prefix (binlog_bytes s1) bs"
    using funcs_moves [OF func h(1) i1(3)] finish_keeps(1) [OF fin] bs
    by (auto simp: handler_moves_def intro: prefix_order.trans)
  then have t: "bi_t (rd_binlog_info s1) = 19"
    using h(4,8) type a by (auto simp: event_type_def prefix_def nth_append)
  from func have "rs_binlog_table_map_handler s1 = Some (Ret RS_OK, s2)"
    unfolding t event_number(1) by (simp add: rs_binlog_funcs_def)
  then obtain tm u bi db' tb' tables' where
    read: "rs_eof_read_binlog2 s1 (unat (bi_dl (rd_binlog_info s1))) = Some (Ret RS_OK, tm, u)"
    and parse: "parse_table_map tm (rd_binlog_info u) = Some bi"
    and names: "c_contents (arr_str name_cap (bi_db bi)) = Some db'" "c_contents (arr_str name_cap (bi_tb bi)) = Some tb'"
    and tab: "rd_filter_tables u = Some tables'"
    and hit: "\<exists>hit. c_strstr tables' (take 130 (table_key db' tb') @ [0]) = Some hit \<and>
           s2 = set_info (bi\<lparr>bi_filter := (hit = None)\<rparr>) u"
    by (rule table_map_parts) (rule that)
  have u2: "binlog_bytes s2 = binlog_bytes u" using hit by auto
  have pre2: "prefix (binlog_bytes u) bs" using bs finish_keeps(1) [OF fin] u2 by simp
  have tm: "tm = table_map_body pre db tb ct cm tail"
    using body_read(1) [OF head sync(1) read pre2] len a body(1) by simp
  note core = io_core_fields [OF eof_read_ok(5) [OF h(1) read]]
  obtain info: "table_info bi db tb ct cm" 
    using parse parse_table_map_body [OF body(3,2), of tail "rd_binlog_info u"] unfolding tm by auto
  have keeps: "bi_tran bi" "bi_flush bi = bi_flush (rd_binlog_info u)"
    using parse_table_map_keeps [OF parse] core(4) i1 by auto
  have "db' = db" "tb' = tb" using names info by (simp_all add: table_info_def)
  moreover have "tables' = comma_list ts @ 0 # r" using tab core(5) header_core(1) [OF head sync(1)] tables(1) by simp
  ultimately have s2: "s2 = set_info (bi\<lparr>bi_filter := (db @ [46] @ tb \<notin> set ts)\<rparr>) u"
    using hit table_filter [OF body(3) tables(2) refl, of r] by auto
  have q: "bi_tran (rd_binlog_info s2)" "\<not> bi_flush (rd_binlog_info s2)"
    using keeps i1 core(4) by (simp_all add: s2)
  note f = finish_quiet [OF fin disjI1 [OF q(1)] q(2)]
  show "table_info (rd_binlog_info s') db tb ct cm" "bi_filter (rd_binlog_info s') \<longleftrightarrow> db @ [46] @ tb \<notin> set ts"
    "bi_tran (rd_binlog_info s')" "\<not> bi_flush (rd_binlog_info s')"
    using info q unfolding f(5) s2 by (simp_all add: table_info_def)
  show "rd_ringbuf s' = rd_ringbuf s" "io_heap s' = io_heap s" "rd_dump_file s' = rd_dump_file s"
    using f(1-4) core header_core [OF head sync(1)] by (simp_all add: s2)
qed

text \<open>A row event of a table that is not filtered out is published, under the position behind it.\<close>

lemma rows_event:
  assumes event: "binlog_event os s = Some (None, s')" and sync: "io_sync s" "\<not> bi_skip (rd_binlog_info s)"
    and a: "a = binlog_at s" and type: "event_type (binlog_bytes s') a \<in> {23, 24, 25}"
    and len: "19 \<le> event_len (binlog_bytes s') a"
    and filt: "\<not> bi_filter (rd_binlog_info s)" and info: "table_info (rd_binlog_info s) db tb ct cm"
    and ring: "rd_ringbuf s = Some rb" "ring_inv rb"
    and path: "c_contents (arr_str path_cap (rd_dump_file s)) = Some fname"
    and msg: "msg = row_message fname (rd_dump_pos s') (event_type (binlog_bytes s') a) db tb ct cm
          (event_body (binlog_bytes s') a)" and short: "length msg < 2 ^ 32"
  shows "\<exists>k x idx rb'. rd_ringbuf s' = Some rb' \<and> ring_inv rb' \<and> io_heap s' x = Some msg \<and>
    ring_queue rb' = drop k (ring_queue rb) @ [\<lparr>d_len = of_nat (length msg), d_data = Some x, d_id = idx\<rparr>]"
proof -
  let ?mev = "event_type (binlog_bytes s') a"
  from event obtain s1 s2 where head: "rs_binlog_header_handler s = Some (Ret RS_OK, s1)"
    and func: "rs_binlog_funcs os (unat (scast (bi_t (rd_binlog_info s1)) :: u32)) s1 = Some (Ret RS_OK, s2)"
    and fin: "rs_binlog_finish_handler os s2 = Some (Ret RS_OK, s')"
    by (rule event_parts) (rule that)
  note h = header_ok [OF head sync(1)]
  have i1: "\<not> bi_filter (rd_binlog_info s1)" "\<not> bi_skip (rd_binlog_info s1)" "table_info (rd_binlog_info s1) db tb ct cm"
    using filt sync(2) info by (subst h(10), simp add: table_info_def)+
  have pre: "prefix (binlog_bytes s1) (binlog_bytes s')"
    using funcs_moves [OF func h(1) i1(2)] finish_keeps(1) [OF fin]
    by (auto simp: handler_moves_def)
  then have t: "bi_t (rd_binlog_info s1) = ?mev"
    using h(4,8) a by (auto simp: event_type_def prefix_def nth_append)
  have "rows_handler os ?mev s1 = Some (Ret RS_OK, s2)"
    using func type unfolding t by (auto simp: event_number rs_binlog_funcs_def rs_binlog_write_rows_handler_def
        rs_binlog_update_rows_handler_def rs_binlog_delete_rows_handler_def)
  then obtain wr u where
    read: "rs_eof_read_binlog2 s1 (unat (bi_dl (rd_binlog_info s1))) = Some (Ret RS_OK, wr, u)"
    and create: "rs_binlog_create_data os (set_info ((rd_binlog_info u)
              \<lparr>bi_data := Some wr, bi_log_format := True, bi_mev := ?mev\<rparr>) u) = Some (Ret RS_OK, s2)"
    (is "rs_binlog_create_data os ?v = _")
    using i1(1) by (auto simp: rows_handler_def Let_def bind_eq_Some_conv split: if_splits)
  note st = create_data_stream [OF create]
  have pre2: "prefix (binlog_bytes u) (binlog_bytes s')" using finish_keeps(1) [OF fin] st(3) by simp
  note body = body_read [OF head sync(1) read pre2 len [unfolded a]]
  note core = io_core_fields [OF eof_read_ok(5) [OF h(1) read]]
  have pos: "rd_dump_pos s' = rd_dump_pos u" using finish_keeps(2) [OF fin] st(4) by simp
  have ri: "row_info (rd_binlog_info ?v) db tb ct cm (event_body (binlog_bytes s') a)"
    using i1(3) core(4) body(1-3) a by (simp add: row_info_def table_info_def)
  have rv: "rd_ringbuf ?v = Some rb" using core(7) header_core(3) [OF head sync(1)] ring(1) by simp
  have fv: "c_contents (arr_str path_cap (rd_dump_file ?v)) = Some fname"
    using core(3) header_core(2) [OF head sync(1)] path by simp
  have mev: "bi_mev (rd_binlog_info ?v) \<noteq> 0" using type by auto
  have mv: "msg = row_message fname (rd_dump_pos ?v) (bi_mev (rd_binlog_info ?v)) db tb ct cm
      (event_body (binlog_bytes s') a)"
    using msg pos by simp
  from create_data_row_message [OF create rv ring(2) refl mev _ ri fv mv short]
  obtain k x idx rb' where pub: "rd_ringbuf s2 = Some rb'" "ring_inv rb'" "io_heap s2 x = Some msg"
    "ring_queue rb' = drop k (ring_queue rb) @ [\<lparr>d_len = of_nat (length msg), d_data = Some x, d_id = idx\<rparr>]"
    by auto
  have sent: "rd_binlog_info s2 = (rd_binlog_info ?v)\<lparr>bi_skip_n := bi_skip_n (rd_binlog_info ?v),
      bi_flush := False, bi_mev := 0, bi_sent := True\<rparr>"
    by (rule create_data_publishes [OF create rv ring(2) refl]) (use mev in simp_all)
  have "bi_sent (rd_binlog_info s2)" "\<not> bi_flush (rd_binlog_info s2)" unfolding sent by simp_all
  from finish_quiet(1,2) [OF fin disjI2 [OF disjI1 [OF this(1)]] this(2)] pub show ?thesis by auto
qed

text \<open>A row event of a table that is filtered out is not published.\<close>

lemma rows_event_filtered:
  assumes event: "binlog_event os s = Some (None, s')" and sync: "io_sync s" "\<not> bi_skip (rd_binlog_info s)"
    and a: "a = binlog_at s" and type: "event_type (binlog_bytes s') a \<in> {23, 24, 25}"
    and filt: "bi_filter (rd_binlog_info s)" "bi_tran (rd_binlog_info s)" "\<not> bi_flush (rd_binlog_info s)"
  shows "rd_ringbuf s' = rd_ringbuf s" and "io_heap s' = io_heap s" and "bi_filter (rd_binlog_info s')"
proof -
  from event obtain s1 s2 where head: "rs_binlog_header_handler s = Some (Ret RS_OK, s1)"
    and func: "rs_binlog_funcs os (unat (scast (bi_t (rd_binlog_info s1)) :: u32)) s1 = Some (Ret RS_OK, s2)"
    and fin: "rs_binlog_finish_handler os s2 = Some (Ret RS_OK, s')"
    by (rule event_parts) (rule that)
  note h = header_ok [OF head sync(1)]
  have i1: "bi_filter (rd_binlog_info s1)" "bi_tran (rd_binlog_info s1)" "\<not> bi_flush (rd_binlog_info s1)"
    "\<not> bi_skip (rd_binlog_info s1)"
    using filt sync(2) by (subst h(10), simp)+
  have pre: "prefix (binlog_bytes s1) (binlog_bytes s')"
    using funcs_moves [OF func h(1) i1(4)] finish_keeps(1) [OF fin] by (auto simp: handler_moves_def)
  then have t: "bi_t (rd_binlog_info s1) = event_type (binlog_bytes s') a"
    using h(4,8) a by (auto simp: event_type_def prefix_def nth_append)
  have "rows_handler os (event_type (binlog_bytes s') a) s1 = Some (Ret RS_OK, s2)"
    using func type unfolding t by (auto simp: event_number rs_binlog_funcs_def rs_binlog_write_rows_handler_def
        rs_binlog_update_rows_handler_def rs_binlog_delete_rows_handler_def)
  then have s2: "s2 = set_info ((rd_binlog_info s1)\<lparr>bi_filter := True, bi_skip := True\<rparr>) s1"
    using i1(1,2) by (auto simp: rows_handler_def Let_def bind_eq_Some_conv)
  have "bi_filter (rd_binlog_info s2)" "\<not> bi_flush (rd_binlog_info s2)" using i1 by (simp_all add: s2)
  from finish_quiet(1,2,5) [OF fin disjI2 [OF disjI2 [OF this(1)]] this(2)] header_core(3,5) [OF head sync(1)]
  show "rd_ringbuf s' = rd_ringbuf s" "io_heap s' = io_heap s" "bi_filter (rd_binlog_info s')"
    by (simp_all add: s2)
qed

section \<open>Properties\<close>

text \<open>
  C10. After any number of events the position the thread announces is the end of the last event, and
  what it has consumed of the file ends there too, whichever handlers ran, whether they read an
  event or skipped it in the buffer or with a seek, and however much was written to the file
  meanwhile. \<open>event_end\<close> follows the length fields of the file.
\<close>

theorem loop_positions:
  assumes "run_events os n s = Some s'" and "io_at s"
    and "event_end (binlog_bytes s') n (binlog_at s) = Some q"
  shows "binlog_loop os (n + m) s = binlog_loop os m s' \<and> io_sync s' \<and>
    binlog_at s' = q \<and> unat (rd_dump_pos s') = q"
  using run_events_loop [OF assms(1), of m] run_events_at [OF assms] by (simp add: io_at_def)

lemma two_events:
  assumes "run_events os 2 s = Some s'" and "io_at s" and "event_end (binlog_bytes s') 2 (binlog_at s) = Some q"
  obtains s1 where "binlog_event os s = Some (None, s1)" and "binlog_event os s1 = Some (None, s')"
    and "io_at s1" and "binlog_at s1 = binlog_at s + event_len (binlog_bytes s') (binlog_at s)"
    and "io_at s'" and "binlog_at s' = q" and "prefix (binlog_bytes s1) (binlog_bytes s')"
    and "19 \<le> event_len (binlog_bytes s') (binlog_at s)" and "19 \<le> event_len (binlog_bytes s') (binlog_at s1)"
proof -
  let ?bs = "binlog_bytes s'" and ?a = "binlog_at s"
  from assms(1) obtain s1 where ev1: "binlog_event os s = Some (None, s1)" and run1: "run_events os (Suc 0) s1 = Some s'"
    unfolding numeral_2_eq_2 by (rule run_events_Suc)
  from run1 have ev2: "binlog_event os s1 = Some (None, s')"
    by (rule run_events_Suc) (simp add: run_events.simps)
  from assms(3) have len: "19 \<le> event_len ?bs ?a" "?a + event_len ?bs ?a < 4294967296"
    "19 \<le> event_len ?bs (?a + event_len ?bs ?a)"
    by (auto simp: event_end.simps [of _ 2] event_end.simps [of _ "Suc 0"] split: if_splits)
  have sync: "io_sync s" "\<not> bi_skip (rd_binlog_info s)" using assms(2) by (simp_all add: io_at_def)
  note m1 = event_moves [OF ev1 sync]
  note m2 = event_moves [OF ev2 m1(1,2)]
  have "event_len (binlog_bytes s1) ?a = event_len ?bs ?a"
    using m1(4) m2(3) by (auto simp: event_len_def prefix_def)
  with m1(5) [OF assms(2)] len have at1: "io_at s1" "binlog_at s1 = ?a + event_len ?bs ?a" by simp_all
  show thesis
    using that [OF ev1 ev2 at1 _ _ m2(3) len(1)] run_events_at [OF assms] len(3) at1(2) by simp
qed

text \<open>
  C4. Inside a transaction a row event behind its table map is published as one message exactly as the
  file has it, under the position behind the event, when the table is in the list the slave asked
  for.
\<close>

theorem transaction_row_published:
  assumes run: "run_events os 2 s = Some s'" and at: "io_at s" and bs: "bs = binlog_bytes s'" and a: "a = binlog_at s"
    and b: "b = a + event_len bs a" and q: "event_end bs 2 a = Some q"
    and map: "event_type bs a = 19" "event_body bs a = table_map_body pre db tb ct cm tail" "length pre = 8"
      "table_ok db tb ct cm"
    and row: "event_type bs b \<in> {23, 24, 25}"
    and tables: "rd_filter_tables s = Some (comma_list ts @ 0 # r)" "\<forall>t\<in>set ts. 44 \<notin> set t \<and> 0 \<notin> set t"
      "db @ [46] @ tb \<in> set ts"
    and tran: "bi_tran (rd_binlog_info s)" "\<not> bi_flush (rd_binlog_info s)"
    and ring: "rd_ringbuf s = Some rb" "ring_inv rb"
    and path: "c_contents (arr_str path_cap (rd_dump_file s)) = Some fname"
    and msg: "msg = row_message fname (of_nat q) (event_type bs b) db tb ct cm (event_body bs b)" "length msg < 2 ^ 32"
  shows "\<exists>k x idx rb'. rd_ringbuf s' = Some rb' \<and> ring_inv rb' \<and> io_heap s' x = Some msg \<and>
    ring_queue rb' = drop k (ring_queue rb) @ [\<lparr>d_len = of_nat (length msg), d_data = Some x, d_id = idx\<rparr>]"
proof -
  obtain s1 where ev: "binlog_event os s = Some (None, s1)" "binlog_event os s1 = Some (None, s')"
    and at1: "io_at s1" "binlog_at s1 = b" and at2: "io_at s'" "binlog_at s' = q"
    and pre: "prefix (binlog_bytes s1) bs" and len: "19 \<le> event_len bs a" "19 \<le> event_len bs b"
    using two_events [OF run at q [unfolded bs a]] unfolding bs a b by metis
  have sync: "io_sync s" "\<not> bi_skip (rd_binlog_info s)" "io_sync s1" "\<not> bi_skip (rd_binlog_info s1)"
    using at at1 by (simp_all add: io_at_def)
  note tm = table_map_event [OF ev(1) sync(1,2) pre a map(1) len(1) map(2-4) tables(1,2) tran]
  have pos: "rd_dump_pos s' = of_nat q" using at2 by (simp add: io_at_def)
  show ?thesis
    using rows_event [OF ev(2) sync(3,4) at1(2) [symmetric] row [unfolded bs] len(2) [unfolded bs] _ tm(1), of rb fname msg]
      tm ring path msg tables(3) pos bs by simp
qed

text \<open>C11. Inside a transaction nothing is published for a table that is not in the list.\<close>

theorem transaction_row_filtered:
  assumes run: "run_events os 2 s = Some s'" and at: "io_at s" and bs: "bs = binlog_bytes s'" and a: "a = binlog_at s"
    and b: "b = a + event_len bs a" and q: "event_end bs 2 a = Some q"
    and map: "event_type bs a = 19" "event_body bs a = table_map_body pre db tb ct cm tail" "length pre = 8"
      "table_ok db tb ct cm"
    and row: "event_type bs b \<in> {23, 24, 25}"
    and tables: "rd_filter_tables s = Some (comma_list ts @ 0 # r)" "\<forall>t\<in>set ts. 44 \<notin> set t \<and> 0 \<notin> set t"
      "db @ [46] @ tb \<notin> set ts"
    and tran: "bi_tran (rd_binlog_info s)" "\<not> bi_flush (rd_binlog_info s)"
  shows "rd_ringbuf s' = rd_ringbuf s \<and> io_heap s' = io_heap s \<and> bi_filter (rd_binlog_info s')"
proof -
  obtain s1 where ev: "binlog_event os s = Some (None, s1)" "binlog_event os s1 = Some (None, s')"
    and at1: "io_at s1" "binlog_at s1 = b"
    and pre: "prefix (binlog_bytes s1) bs" and len: "19 \<le> event_len bs a"
    using two_events [OF run at q [unfolded bs a]] unfolding bs a b by metis
  have sync: "io_sync s" "\<not> bi_skip (rd_binlog_info s)" "io_sync s1" "\<not> bi_skip (rd_binlog_info s1)"
    using at at1 by (simp_all add: io_at_def)
  note tm = table_map_event [OF ev(1) sync(1,2) pre a map(1) len(1) map(2-4) tables(1,2) tran]
  show ?thesis
    using rows_event_filtered [OF ev(2) sync(3,4) at1(2) [symmetric] row [unfolded bs]] tm tables(3) by simp
qed

text \<open>A transaction that writes one row of one table, with the list of a slave that wants the table ts.\<close>

definition demo_event :: "byte \<Rightarrow> byte list \<Rightarrow> byte list" where
  "demo_event t body = [0, 0, 0, 0, t, 1, 0, 0, 0] @ le_bytes 4 (19 + length body) @ [0, 0, 0, 0, 0, 0] @ body"

definition demo_table :: "byte list" where
  "demo_table = table_map_body (replicate 8 0) (ascii ''test'') (ascii ''t1'') [3, 15] [10, 0] []"

definition demo_tran :: "byte list \<Rightarrow> io_state" where
  "demo_tran t = (demo_pub 0)\<lparr>rd_dump_pos := 0, rd_filter_tables := Some (comma_list [t] @ [0]),
     rd_binlog_fp := Some (demo_file (demo_event 19 demo_table @ demo_event 23 [1, 2, 3, 4, 5]) False),
     rd_binlog_info := (rd_binlog_info blank_slot)\<lparr>bi_tran := True\<rparr>\<rparr>"

lemma demo_tran_runs:
  "run_events (os_grant 7) 2 (demo_tran (ascii ''test.t1'')) =
     Some (the (run_events (os_grant 7) 2 (demo_tran (ascii ''test.t1''))))"
  "run_events (os_grant 7) 2 (demo_tran (ascii ''test.t2'')) =
     Some (the (run_events (os_grant 7) 2 (demo_tran (ascii ''test.t2''))))"
  by (rule computes_Some, code_simp)+

lemma demo_tran_bytes:
  "binlog_bytes (the (run_events (os_grant 7) 2 (demo_tran (ascii ''test.t1'')))) =
     demo_event 19 demo_table @ demo_event 23 [1, 2, 3, 4, 5]"
  "binlog_bytes (the (run_events (os_grant 7) 2 (demo_tran (ascii ''test.t2'')))) =
     demo_event 19 demo_table @ demo_event 23 [1, 2, 3, 4, 5]"
  by code_simp+

lemma demo_tran_at: "io_at (demo_tran (ascii ''test.t1''))" "io_at (demo_tran (ascii ''test.t2''))"
  "binlog_at (demo_tran (ascii ''test.t1'')) = 0" "binlog_at (demo_tran (ascii ''test.t2'')) = 0"
  by code_simp+

lemma demo_tran_stream:
  "event_end (demo_event 19 demo_table @ demo_event 23 [1, 2, 3, 4, 5]) 2 0 = Some 67"
  "event_type (demo_event 19 demo_table @ demo_event 23 [1, 2, 3, 4, 5]) 0 = 19"
  "event_len (demo_event 19 demo_table @ demo_event 23 [1, 2, 3, 4, 5]) 0 = 43"
  "event_type (demo_event 19 demo_table @ demo_event 23 [1, 2, 3, 4, 5]) 43 = 23"
  "event_body (demo_event 19 demo_table @ demo_event 23 [1, 2, 3, 4, 5]) 0 = demo_table"
  "event_body (demo_event 19 demo_table @ demo_event 23 [1, 2, 3, 4, 5]) 43 = [1, 2, 3, 4, 5]"
  "table_ok (ascii ''test'') (ascii ''t1'') [3, 15] [10, 0]"
  "bi_tran (rd_binlog_info (demo_tran t))" "\<not> bi_flush (rd_binlog_info (demo_tran t))"
  "c_contents (arr_str path_cap (rd_dump_file (demo_tran t))) = Some (ascii ''bin.1'')"
  by code_simp+

lemma demo_tran_map: "43 = 0 + event_len (demo_event 19 demo_table @ demo_event 23 [1, 2, 3, 4, 5]) 0"
  "event_body (demo_event 19 demo_table @ demo_event 23 [1, 2, 3, 4, 5]) 0 =
     table_map_body (replicate 8 0) (ascii ''test'') (ascii ''t1'') [3, 15] [10, 0] []"
  "event_type (demo_event 19 demo_table @ demo_event 23 [1, 2, 3, 4, 5]) 43 \<in> {23, 24, 25}"
  by (simp_all add: demo_tran_stream demo_table_def [symmetric])

lemma demo_tran_fields: "rd_ringbuf (demo_tran t) = Some (the (fst made_ring))"
  "rd_filter_tables (demo_tran t) = Some (comma_list [t] @ [0])"
  using demo_pub_ring by (simp_all add: demo_tran_def)

lemma demo_names: "44 \<notin> set (ascii ''test.t1'') \<and> 0 \<notin> set (ascii ''test.t1'')"
  "44 \<notin> set (ascii ''test.t2'') \<and> 0 \<notin> set (ascii ''test.t2'')"
  "ascii ''test'' @ [46] @ ascii ''t1'' = ascii ''test.t1''" "ascii ''test.t1'' \<noteq> ascii ''test.t2''"
  by code_simp+

theorem loop_positions_witness:
  "\<exists>s'. run_events (os_grant 7) 2 (demo_tran (ascii ''test.t1'')) = Some s' \<and>
    binlog_loop (os_grant 7) (2 + 1) (demo_tran (ascii ''test.t1'')) = binlog_loop (os_grant 7) 1 s' \<and>
    binlog_at s' = 67 \<and> unat (rd_dump_pos s') = 67"
  using loop_positions [OF demo_tran_runs(1) demo_tran_at(1), of 67 1] demo_tran_runs(1)
  by (auto simp: demo_tran_bytes demo_tran_at demo_tran_stream)

theorem transaction_row_published_witness:
  "\<exists>s' x rb'. run_events (os_grant 7) 2 (demo_tran (ascii ''test.t1'')) = Some s' \<and> rd_ringbuf s' = Some rb' \<and>
    io_heap s' x = Some (row_message (ascii ''bin.1'') 67 23 (ascii ''test'') (ascii ''t1'') [3, 15] [10, 0] [1, 2, 3, 4, 5])"
proof -
  let ?bs = "demo_event 19 demo_table @ demo_event 23 [1, 2, 3, 4, 5]"
  let ?msg = "row_message (ascii ''bin.1'') (of_nat 67) (event_type ?bs 43) (ascii ''test'') (ascii ''t1'')
      [3, 15] [10, 0] (event_body ?bs 43)"
  have short: "length ?msg < 2 ^ 32"
    using length_fmt_u32 [of 67] by (simp add: row_message_def row_header_def ascii_def demo_tran_stream)
  from transaction_row_published [OF demo_tran_runs(1) demo_tran_at(1) demo_tran_bytes(1) [symmetric]
      demo_tran_at(3) [symmetric] demo_tran_map(1) demo_tran_stream(1,2) demo_tran_map(2) _ demo_tran_stream(7)
      demo_tran_map(3) demo_tran_fields(2) _ _ demo_tran_stream(8,9) demo_tran_fields(1) demo_pub_ring(2) demo_tran_stream(10) refl short]
  obtain x rb' where "rd_ringbuf (the (run_events (os_grant 7) 2 (demo_tran (ascii ''test.t1'')))) = Some rb'"
    "io_heap (the (run_events (os_grant 7) 2 (demo_tran (ascii ''test.t1'')))) x = Some ?msg"
    using demo_names by auto
  with demo_tran_runs(1) show ?thesis by (auto simp: demo_tran_stream)
qed

theorem transaction_row_filtered_witness:
  "\<exists>s'. run_events (os_grant 7) 2 (demo_tran (ascii ''test.t2'')) = Some s' \<and>
    rd_ringbuf s' = rd_ringbuf (demo_tran (ascii ''test.t2''))"
proof -
  have "rd_ringbuf (the (run_events (os_grant 7) 2 (demo_tran (ascii ''test.t2'')))) =
      rd_ringbuf (demo_tran (ascii ''test.t2''))"
    using transaction_row_filtered [OF demo_tran_runs(2) demo_tran_at(2) demo_tran_bytes(2) [symmetric]
      demo_tran_at(4) [symmetric] demo_tran_map(1) demo_tran_stream(1,2) demo_tran_map(2) _ demo_tran_stream(7)
      demo_tran_map(3) demo_tran_fields(2) _ _ demo_tran_stream(8,9)] demo_names
    by auto
  with demo_tran_runs(2) show ?thesis by blast
qed

end
