(* ===== verification/RS_SlaveInfo.thy ===== *)
theory RS_SlaveInfo
  imports RS_ReqDump RS_Conf
begin

text \<open>
  The state of a slave (\<^verbatim>\<open>src/slave/rs_slave_info.h\<close>) and what surrounds its two
  threads: the memory behind the messages and the row data, the connection to the master, redis and
  the file \<^verbatim>\<open>slave.info\<close>. Redis is a library the sources call; it is represented by the
  answers it will give and by the commands it has been given.
\<close>

section \<open>The state\<close>

text \<open>\<^verbatim>\<open>RS_SLAVE_INFO_STR_LEN\<close>: a path, a comma, a number and a NUL.\<close>

abbreviation info_cap :: nat where "info_cap \<equiv> 4108"

text \<open>The growth factor of the pools is kept as the text it is read from.\<close>

record rs_slave_info_t =
  si_listen_port :: int
  si_listen_addr :: "byte list option"
  si_redis_port :: int
  si_redis_addr :: "byte list option"
  si_slave_info :: "byte list option"
  si_ringbuf_num :: u32
  si_pool_factor :: "byte list"
  si_pool_memsize :: u32
  si_pool_initsize :: u32
  si_binlog_save :: u32
  si_cur_binlog_save :: u32
  si_binlog_savesec :: u32
  si_cur_binlog_savesec :: u64
  si_filter_tables :: "byte list option"
  si_recvbuf_size :: u32
  si_svr_rb_esusec :: u32
  si_rb_esusec :: u32
  si_info_fd :: int
  si_svr_fd :: int
  si_cmdn :: u32
  si_dump_info :: "byte list"
  si_c :: bool \<comment> \<open>whether there is a connection to redis\<close>
  si_ringbuf :: "rs_ringbuf_t option"
  si_recv_buf :: "rs_buf_t option"
  si_cf :: "conf_env option"
  si_table_func :: "rs_dm_handler rs_shash_t option"
  si_pool :: "rs_pool_t option"
  si_dpool :: "rs_pool_t option"
  si_id :: int
  si_io_thread :: nat
  si_redis_thread :: nat
  si_io_thread_exit :: bool
  si_redis_thread_exit :: bool

text \<open>The initialisation macro leaves \<^verbatim>\<open>dump_info\<close> and \<^verbatim>\<open>id\<close> as they were.\<close>

definition rs_slave_info_t_init :: "rs_slave_info_t \<Rightarrow> rs_slave_info_t" where
  "rs_slave_info_t_init si =
     \<lparr>si_listen_port = 1919, si_listen_addr = Some (cstr ''localhost''), si_redis_port = 6379,
      si_redis_addr = Some (cstr ''localhost''), si_slave_info = None, si_ringbuf_num = 0,
      si_pool_factor = ascii ''1.5'', si_pool_memsize = 100 * 1024 * 1024, si_pool_initsize = 100,
      si_binlog_save = 0, si_cur_binlog_save = 0, si_binlog_savesec = 0, si_cur_binlog_savesec = 0,
      si_filter_tables = None, si_recvbuf_size = 0, si_svr_rb_esusec = 1000 * 10,
      si_rb_esusec = 1000 * 10, si_info_fd = -1, si_svr_fd = -1, si_cmdn = 0,
      si_dump_info = si_dump_info si, si_c = False, si_ringbuf = None, si_recv_buf = None,
      si_cf = None, si_table_func = None, si_pool = None, si_dpool = None, si_id = si_id si,
      si_io_thread = 0, si_redis_thread = 0, si_io_thread_exit = False, si_redis_thread_exit = False\<rparr>"

section \<open>What surrounds it\<close>

text \<open>
  What redis will answer: to \<^verbatim>\<open>redisConnect\<close>, to \<^verbatim>\<open>redisvAppendCommand\<close> and to
  \<^verbatim>\<open>redisGetReply\<close>, each whether the call succeeds.
\<close>

record slave_state = rs_slave_info_t +
  sl_heap :: "addr \<Rightarrow> byte list option" \<comment> \<open>messages of the ring\<close>
  sl_dheap :: "addr \<Rightarrow> byte list option" \<comment> \<open>columns in the data pool\<close>
  sl_read :: "read_ev list" \<comment> \<open>the connection to the master\<close>
  sl_write :: "write_ev list"
  sl_sent :: "byte list" \<comment> \<open>what has been sent on it\<close>
  sl_connect :: "bool list"
  sl_append :: "bool list"
  sl_reply :: "bool list"
  sl_cmds :: "byte list list list" \<comment> \<open>the commands given to redis, each with its arguments\<close>
  sl_file :: "byte list" \<comment> \<open>what is in \<^verbatim>\<open>slave.info\<close>\<close>
  sl_file_write :: "write_ev list"
  sl_clock :: "u64 option list" \<comment> \<open>the answers of \<^verbatim>\<open>gettimeofday\<close>\<close>
  sl_seek :: bool \<comment> \<open>whether \<^verbatim>\<open>lseek\<close> succeeds\<close>
  sl_trunc :: bool \<comment> \<open>whether \<^verbatim>\<open>truncate\<close> succeeds\<close>

end
