(* ===== verification/RS_SlaveIo.thy ===== *)
theory RS_SlaveIo
  imports RS_SlaveInfo RS_FilterBinlog
begin

text \<open>
  \<^verbatim>\<open>src/slave/rs_io_thread.c\<close>: asking the master for the binlog and receiving its
  messages into the ring. The attempts to connect are a history (\<open>conn_ev\<close>); the thread is
  \<open>Waiting\<close> when the history or the bound on its rounds ends.
\<close>

section \<open>The command\<close>

text \<open>
  The length, \<^verbatim>\<open>"%s\n,%s,%c"\<close> and four bytes of \<^verbatim>\<open>rb_esusec\<close>; the
  terminating NUL of \<^verbatim>\<open>snprintf\<close> is overwritten.
\<close>

definition dumpcmd_body :: "byte list \<Rightarrow> byte list \<Rightarrow> u32 \<Rightarrow> byte list" where
  "dumpcmd_body dump tables esusec = dump @ [10, 44] @ tables @ [44, 0] @ le_bytes 4 (unat esusec)"

definition rs_send_dumpcmd :: "slave_state \<Rightarrow> (rs_code \<times> slave_state) option" where
  "rs_send_dumpcmd s = do {
     dump \<leftarrow> c_contents (arr_str info_cap (si_dump_info s));
     tables \<leftarrow> si_filter_tables s;
     ft \<leftarrow> c_contents tables;
     let l = length dump + 2 + length ft + 2 + 4;
     if 2147483648 \<le> 4 + l then None
     else
       (let buf = le_bytes 4 l @ dumpcmd_body dump ft (si_rb_esusec s);
            (n, fd) = rs_write (sl_write s) (4 + l) in
        Some (if n = Some (4 + l) then RS_OK else RS_ERR,
              s\<lparr>sl_write := fd, sl_sent := sl_sent s @ (case n of None \<Rightarrow> [] | Some k \<Rightarrow> take k buf)\<rparr>)) }"

section \<open>Receiving\<close>

datatype io_next = Again | Full | Retry | Quit

text \<open>Room for a message of the announced length, and the message into it.\<close>

definition recv_payload :: "os_mem \<Rightarrow> slave_state \<Rightarrow> addr \<Rightarrow> u32 \<Rightarrow> (io_next \<times> slave_state) option" where
  "recv_payload os s a len = do {
     ring \<leftarrow> si_ringbuf s;
     pool \<leftarrow> si_pool s;
     buf \<leftarrow> si_recv_buf s;
     idx \<leftarrow> rs_palloc_id pool len;
     (d, pool') \<leftarrow> rs_palloc os pool len idx;
     ring' \<leftarrow> slot_write ring a \<lparr>d_len = len, d_data = d, d_id = idx\<rparr>;
     let s1 = s\<lparr>si_pool := Some pool', si_ringbuf := Some ring'\<rparr>;
     case d of
       None \<Rightarrow> Some (Quit, s1)
     | Some x \<Rightarrow> do {
         (r, msg, buf', fd) \<leftarrow> rs_recv_tmpbuf (sl_read s1) buf len;
         let s2 = s1\<lparr>si_recv_buf := Some buf', sl_read := fd, sl_heap := (sl_heap s1)(x \<mapsto> msg)\<rparr>;
         if chunk_room pool' len idx < length msg then None
         else if r \<noteq> RS_OK then Some (Retry, s2)
         else Some (Again, s2\<lparr>si_ringbuf := Some (rs_ringbuf_set_advance ring')\<rparr>) } }"

text \<open>
  One round of the inner loop. The message the slot had before is released, but the slot keeps its
  address until the length of the next one has arrived.
\<close>

definition recv_message :: "os_mem \<Rightarrow> slave_state \<Rightarrow> (io_next \<times> slave_state) option" where
  "recv_message os s = do {
     ring \<leftarrow> si_ringbuf s;
     case rs_ringbuf_set ring of
       (_, None) \<Rightarrow> Some (Full, s)
     | (_, Some a) \<Rightarrow> do {
         old \<leftarrow> slot_read ring a;
         pool \<leftarrow> si_pool s;
         (pool', heap) \<leftarrow> (case d_data old of
             None \<Rightarrow> Some (pool, sl_heap s)
           | Some x \<Rightarrow> map_option (\<lambda>p. (p, (sl_heap s)(x := None))) (rs_pfree os pool x (d_id old)));
         buf \<leftarrow> si_recv_buf s;
         (r, lb, buf', fd) \<leftarrow> rs_recv_tmpbuf (sl_read s) buf 4;
         let s1 = s\<lparr>si_pool := Some pool', sl_heap := heap, si_recv_buf := Some buf', sl_read := fd\<rparr>;
         if r \<noteq> RS_OK then Some (Retry, s1) else recv_payload os s1 a (set_low 0 lb) } }"

text \<open>
  The inner loop. Each number of the list is how many slots the redis thread releases during one
  sleep on a full ring; none: the thread is still in the loop when its rounds or that history end.
\<close>

fun recv_messages :: "os_mem \<Rightarrow> nat \<Rightarrow> nat list \<Rightarrow> slave_state \<Rightarrow> (io_next option \<times> nat list \<times> slave_state) option" where
  "recv_messages os n ks s =
     (if n = 0 then Some (None, ks, s)
      else do {
        (r, s1) \<leftarrow> recv_message os s;
        case r of
          Again \<Rightarrow> recv_messages os (n - 1) ks s1
        | Full \<Rightarrow> (case ks of
              [] \<Rightarrow> Some (None, [], s1)
            | k # ks' \<Rightarrow> recv_messages os (n - 1) ks'
                (s1\<lparr>si_ringbuf := map_option (reader_takes k) (si_ringbuf s1)\<rparr>))
        | _ \<Rightarrow> Some (Some r, ks, s1) })"

declare recv_messages.simps [simp del]

section \<open>Connecting\<close>

text \<open>
  An attempt: the descriptor of the socket (-1: none), whether the master accepts, what it will send
  and how much it will take.
\<close>

record conn_ev =
  cn_fd :: int
  cn_ok :: bool
  cn_read :: "read_ev list"
  cn_write :: "write_ev list"

text \<open>
  The outer loop over the attempts; \<open>n\<close> bounds the rounds of each inner loop. The thread ends
  (RS_ERR) when there is no socket or no memory.
\<close>

fun connect_loop :: "os_mem \<Rightarrow> nat \<Rightarrow> nat list \<Rightarrow> conn_ev list \<Rightarrow> slave_state \<Rightarrow> (rs_code option \<times> slave_state) option" where
  "connect_loop os n ks [] s = Some (None, s)"
| "connect_loop os n ks (c # cs) s =
     (let s1 = s\<lparr>si_svr_fd := cn_fd c\<rparr>; closed = (\<lambda>t. t\<lparr>si_svr_fd := -1\<rparr>) in
      if cn_fd c = -1 then Some (Some RS_ERR, s1)
      else if \<not> cn_ok c then connect_loop os n ks cs (closed s1)
      else do {
        (r, s2) \<leftarrow> rs_send_dumpcmd (s1\<lparr>sl_read := cn_read c, sl_write := cn_write c, sl_sent := []\<rparr>);
        if r \<noteq> RS_OK then connect_loop os n ks cs (closed s2)
        else do {
          (r, ks', s3) \<leftarrow> recv_messages os n ks s2;
          case r of
            None \<Rightarrow> Some (None, s3)
          | Some Retry \<Rightarrow> connect_loop os n ks' cs (closed s3)
          | Some _ \<Rightarrow> Some (Some RS_ERR, s3) } })"

declare connect_loop.simps [simp del]

text \<open>
  The address must be a dotted quad; \<open>quad\<close> is \<^verbatim>\<open>inet_pton\<close>'s test. At the end the
  cleanup handler \<^verbatim>\<open>rs_free_io_thread\<close> notes the exit.
\<close>

definition slave_free_io_thread :: "slave_state \<Rightarrow> slave_state" where
  "slave_free_io_thread s = s\<lparr>si_io_thread_exit := True\<rparr>"

definition slave_start_io_thread ::
    "os_mem \<Rightarrow> (byte list \<Rightarrow> bool) \<Rightarrow> nat \<Rightarrow> nat list \<Rightarrow> conn_ev list \<Rightarrow> slave_state \<Rightarrow>
     (rs_code option \<times> slave_state) option" where
  "slave_start_io_thread os quad n ks cs s = do {
     addr \<leftarrow> si_listen_addr s;
     if \<not> quad addr then Some (Some RS_ERR, slave_free_io_thread s)
     else do {
       (r, s') \<leftarrow> connect_loop os n ks cs s;
       Some (r, if r = None then s' else slave_free_io_thread s') } }"

section \<open>Messages in the stream\<close>

text \<open>A message in the byte stream: its length in four bytes, then the message.\<close>

definition frame :: "byte list \<Rightarrow> byte list" where
  "frame m = le_bytes 4 (length m) @ m"

lemma le_bytes_le_nat: "le_bytes (length bs) (le_nat bs) = bs"
proof (induction bs)
  case (Cons b bs)
  have b: "unat b < 256" using unsigned_less [of b, where ?'a = nat] by simp
  then have "(unat b + 256 * le_nat bs) mod 256 = unat b" "(unat b + 256 * le_nat bs) div 256 = le_nat bs"
    by simp_all
  with Cons show ?case by simp
qed simp

lemma recv_payload_ok:
  assumes recv: "recv_payload os s a len = Some (Again, s')"
    and ring: "si_ringbuf s = Some ring" "ring_inv ring" "rs_ringbuf_set ring = (RS_OK, Some a)"
    and buf: "si_recv_buf s = Some buf" "buf_ok buf"
  shows "\<exists>msg x idx ring' buf'. si_ringbuf s' = Some ring' \<and> ring_inv ring' \<and>
    ring_queue ring' = ring_queue ring @ [\<lparr>d_len = len, d_data = Some x, d_id = idx\<rparr>] \<and>
    sl_heap s' x = Some msg \<and> si_recv_buf s' = Some buf' \<and> buf_ok buf' \<and> length msg = unat len \<and>
    unread buf @ stream (sl_read s) = msg @ unread buf' @ stream (sl_read s')"
proof -
  from recv ring(1) buf(1) obtain x idx pool' ring1 msg buf' fd where
    slot: "slot_write ring a \<lparr>d_len = len, d_data = Some x, d_id = idx\<rparr> = Some ring1"
    and got: "rs_recv_tmpbuf (sl_read s) buf len = Some (RS_OK, msg, buf', fd)"
    and s': "s' = s\<lparr>si_pool := Some pool', si_recv_buf := Some buf', sl_read := fd, sl_heap := (sl_heap s)(x \<mapsto> msg),
           si_ringbuf := Some (rs_ringbuf_set_advance ring1)\<rparr>"
    by (auto simp: recv_payload_def bind_eq_Some_conv Let_def split: option.splits if_splits)
  from recv_tmpbuf_ok [OF buf(2) got] ring_publish [OF ring(2,3) slot] show ?thesis by (auto simp: s')
qed

lemma recv_message_ok:
  assumes recv: "recv_message os s = Some (Again, s')"
    and ring: "si_ringbuf s = Some ring" "ring_inv ring" and buf: "si_recv_buf s = Some buf" "buf_ok buf"
  shows "\<exists>msg x idx ring' buf'. si_ringbuf s' = Some ring' \<and> ring_inv ring' \<and>
    ring_queue ring' = ring_queue ring @ [\<lparr>d_len = of_nat (length msg), d_data = Some x, d_id = idx\<rparr>] \<and>
    sl_heap s' x = Some msg \<and> si_recv_buf s' = Some buf' \<and> buf_ok buf' \<and> length msg < 2 ^ 32 \<and>
    unread buf @ stream (sl_read s) = frame msg @ unread buf' @ stream (sl_read s')"
proof -
  from recv ring(1) buf(1) obtain a where set: "rs_ringbuf_set ring = (RS_OK, Some a)"
    by (auto simp: recv_message_def rs_ringbuf_set_def split: if_splits)
  from recv ring(1) buf(1) set obtain pool' heap lb buf1 fd1 where
    one: "rs_recv_tmpbuf (sl_read s) buf 4 = Some (RS_OK, lb, buf1, fd1)"
    and pay: "recv_payload os (s\<lparr>si_pool := Some pool', sl_heap := heap, si_recv_buf := Some buf1, sl_read := fd1\<rparr>)
        a (set_low 0 lb) = Some (Again, s')"
    by (auto simp: recv_message_def bind_eq_Some_conv Let_def split: if_splits)
  from recv_tmpbuf_ok [OF buf(2) one] have b1: "buf_ok buf1" and lb: "length lb = 4"
    and st1: "unread buf @ stream (sl_read s) = lb @ unread buf1 @ stream fd1"
    by simp_all
  from recv_payload_ok [OF pay _ ring(2) set _ b1] obtain msg x idx ring' buf' where
    got: "si_ringbuf s' = Some ring'" "ring_inv ring'"
    "ring_queue ring' = ring_queue ring @ [\<lparr>d_len = set_low 0 lb, d_data = Some x, d_id = idx\<rparr>]"
    "sl_heap s' x = Some msg" "si_recv_buf s' = Some buf'" "buf_ok buf'"
    and len: "length msg = unat (set_low 0 lb :: u32)"
    and st2: "unread buf1 @ stream fd1 = msg @ unread buf' @ stream (sl_read s')"
    using ring(1) by auto
  have bound: "le_nat lb < 2 ^ 32" using le_nat_bound [of lb] lb by simp
  then have n: "length msg = le_nat lb" using len by (simp add: set_low_zero unat_of_nat)
  then have "lb = le_bytes 4 (length msg)" using le_bytes_le_nat [of lb] lb by simp
  then have "unread buf @ stream (sl_read s) = frame msg @ unread buf' @ stream (sl_read s')"
    using st1 st2 by (simp add: frame_def)
  moreover have "set_low 0 lb = (of_nat (length msg) :: u32)" using n by (simp add: set_low_zero)
  ultimately show ?thesis using got bound n by auto
qed

section \<open>Properties\<close>


text \<open>A slave with a ring of two slots and a pool whose smallest chunks have 16, 24 and 40 bytes.\<close>

definition demo_pool :: rs_pool_t where
  "demo_pool = the (the (rs_create_pool (os_grant 7) 16 4096 64 200 grow_half RS_POOL_PREALLOC))"

definition demo_ring :: "rs_ringbuf_t option \<times> rs_pool_t" where
  "demo_ring = the (rs_create_ringbuf (os_grant 7) demo_pool 2)"

definition blank_slave :: rs_slave_info_t where
  "blank_slave = \<lparr>si_listen_port = 0, si_listen_addr = None, si_redis_port = 0, si_redis_addr = None,
     si_slave_info = None, si_ringbuf_num = 0, si_pool_factor = [], si_pool_memsize = 0, si_pool_initsize = 0,
     si_binlog_save = 0, si_cur_binlog_save = 0, si_binlog_savesec = 0, si_cur_binlog_savesec = 0,
     si_filter_tables = None, si_recvbuf_size = 0, si_svr_rb_esusec = 0, si_rb_esusec = 0, si_info_fd = 0,
     si_svr_fd = 0, si_cmdn = 0, si_dump_info = [], si_c = False, si_ringbuf = None, si_recv_buf = None,
     si_cf = None, si_table_func = None, si_pool = None, si_dpool = None, si_id = 0, si_io_thread = 0,
     si_redis_thread = 0, si_io_thread_exit = False, si_redis_thread_exit = False\<rparr>"

definition demo_slave :: "byte list \<Rightarrow> slave_state" where
  "demo_slave dump = rs_slave_info_t.extend
     ((rs_slave_info_t_init blank_slave)\<lparr>si_filter_tables := Some (cstr ''test.t1''), si_dump_info := dump,
        si_ringbuf := fst demo_ring, si_pool := Some (snd demo_ring), si_dpool := Some demo_pool,
        si_recv_buf := Some \<lparr>b_mem = replicate 64 0, b_pos = 0, b_last = 0, b_size = 64\<rparr>\<rparr>)
     (slave_state.fields (\<lambda>_. None) (\<lambda>_. None) [] [] [] [] [] [] [] [] [] [] True True)"

definition demo_conn :: "read_ev list \<Rightarrow> conn_ev" where
  "demo_conn rd = \<lparr>cn_fd = 3, cn_ok = True, cn_read = rd, cn_write = [Wr_acc 100]\<rparr>"

text \<open>The messages that wait in the ring, with their addresses.\<close>

definition ring_messages :: "slave_state \<Rightarrow> (addr option \<times> byte list option) list" where
  "ring_messages s = (case si_ringbuf s of None \<Rightarrow> []
     | Some ring \<Rightarrow> map (\<lambda>d. (d_data d, d_data d \<bind> sl_heap s)) (ring_queue ring))"

lemma demo_slave_ring: "si_ringbuf (demo_slave dump) = Some (the (fst demo_ring))" "ring_inv (the (fst demo_ring))"
proof -
  have c: "\<not> Option.is_none (rs_create_ringbuf (os_grant 7) demo_pool 2)" "\<not> Option.is_none (fst demo_ring)"
    by code_simp+
  then have e: "rs_create_ringbuf (os_grant 7) demo_pool 2 = Some (Some (the (fst demo_ring)), snd demo_ring)"
    by (metis computes_Some demo_ring_def prod.collapse)
  have "(2 :: u32) \<noteq> 0" by simp
  from create_ringbuf_rep(1) [OF e this] show "ring_inv (the (fst demo_ring))" by (auto simp: ring_inv_def)
  show "si_ringbuf (demo_slave dump) = Some (the (fst demo_ring))"
    using computes_Some [OF c(2)] by (simp add: demo_slave_def rs_slave_info_t.defs slave_state.defs)
qed



text \<open>
  The receive buffer survives a broken connection: the bytes of a cut message are put in front of
  what the next connection brings, and the slave takes a message the master has never sent.
\<close>

theorem reconnect_keeps_stale_bytes:
  "map_option (\<lambda>(r, s). (r, ring_messages s))
     (connect_loop (os_grant 7) 9 []
       [demo_conn [Rd_data [8, 0, 0, 0], Rd_data [2, 0, 0, 0]],
        demo_conn [Rd_data (frame [1, 2, 3, 4, 5, 6, 7])]]
       (demo_slave (cstr ''bin.1,4''))) =
   Some (None, [(Some 12927, Some [7, 0])])"
  by code_simp

end
