(* ===== verification/RS_DumpThread.thy ===== *)
theory RS_DumpThread
  imports RS_SlaveIo
begin

text \<open>
  The dump thread of a connection (\<^verbatim>\<open>rs_start_dump_thread\<close> and
  \<^verbatim>\<open>rs_parse_dumpcmd\<close> of \<^verbatim>\<open>src/master/rs_request_dump.c\<close>): it reads the
  command of the slave and then moves the messages of the ring into the send buffer, each behind its
  length. What the I/O thread does to the ring while this thread waits is a history.
\<close>

section \<open>State\<close>

record dump_state = io_state +
  ds_read :: "read_ev list"
  ds_write :: "write_ev list"
  ds_sent :: "byte list"
  ds_io :: "(rs_ringbuf_t \<times> (addr \<Rightarrow> byte list option)) list"
    \<comment> \<open>ring and messages as the I/O thread leaves them at the look that ends each spin wait\<close>
  ds_select :: "select_ev list"

section \<open>The command of the slave\<close>

text \<open>
  Pointers into the command are offsets; the filter is the rest of the object from its pointer on.
\<close>

definition dumpcmd_fields :: "byte list \<Rightarrow> dump_state \<Rightarrow> (rs_code \<times> dump_state) option" where
  "dumpcmd_fields cbuf s = do {
     comma \<leftarrow> c_strchr 44 cbuf;
     case comma of
       None \<Rightarrow> Some (RS_ERR, s)
     | Some k \<Rightarrow> do {
         name \<leftarrow> arr_write path_cap (rd_dump_file s) 0 (take k cbuf);
         num \<leftarrow> (if k = 0 then None else rs_estr_to_uint32 cbuf (k - 1));
         pos \<leftarrow> rs_str_to_uint32 (drop (k + 1) cbuf);
         let s1 = s\<lparr>rd_dump_file := name, rd_dump_num := num, rd_dump_pos := pos\<rparr>;
         newline \<leftarrow> c_strchr 10 (drop k cbuf);
         case newline of
           None \<Rightarrow> Some (RS_ERR, s1)
         | Some j \<Rightarrow> do {
             let q = k + j + 1;
             c \<leftarrow> mem_get cbuf q;
             if c \<noteq> 44 then Some (RS_ERR, s1)
             else do {
               let tables = drop q cbuf;
               let s2 = s1\<lparr>rd_filter_tables := Some tables\<rparr>;
               comma \<leftarrow> c_strrchr 44 tables;
               case comma of
                 None \<Rightarrow> Some (RS_ERR, s2)
               | Some m \<Rightarrow>
                   if m < 2 then Some (RS_ERR, s2)
                   else do {
                     es \<leftarrow> mem_read tables (m + 2) 4;
                     all \<leftarrow> c_strncmp_eq 2 [44, 44, 0] tables;
                     Some (RS_OK, s2\<lparr>rd_rb_esusec := set_low (rd_rb_esusec s2) es,
                       rd_filter_tables := (if all then None else Some tables)\<rparr>) } } } } }"

definition rs_parse_dumpcmd :: "os_mem \<Rightarrow> dump_state \<Rightarrow> (rs_code \<times> dump_state) option" where
  "rs_parse_dumpcmd os s =
     (let (r, pl, fd1) = rs_size_read (ds_read s) 4; s0 = s\<lparr>ds_read := fd1\<rparr> in
      if r = RS_ERR then Some (RS_ERR, s0)
      else do {
        let pack_len = set_low 0 pl;
        pool \<leftarrow> rd_pool s0;
        idx \<leftarrow> rs_palloc_id pool pack_len;
        (a, pool') \<leftarrow> rs_palloc os pool pack_len idx;
        let s1 = s0\<lparr>rd_pool := Some pool'\<rparr>;
        case a of
          None \<Rightarrow> Some (RS_ERR, s1\<lparr>rd_cbuf := None\<rparr>)
        | Some x \<Rightarrow>
            (let (r, cbuf, fd2) = rs_size_read fd1 (unat pack_len);
                 s2 = s1\<lparr>ds_read := fd2, rd_cbuf := Some cbuf\<rparr> in
             if chunk_room pool' pack_len idx < length cbuf then None
             else if r = RS_ERR then Some (RS_ERR, s2)
             else dumpcmd_fields cbuf s2) })"

section \<open>The loop\<close>

datatype dump_next = D_again | D_quit | D_wait

definition dump_send :: "dump_state \<Rightarrow> (rs_code \<times> dump_state) option" where
  "dump_send s = do {
     b \<leftarrow> rd_send_buf s;
     (r, out, b', wr) \<leftarrow> rs_send_tmpbuf (ds_write s) b;
     Some (r, s\<lparr>rd_send_buf := Some b', ds_write := wr, ds_sent := ds_sent s @ out\<rparr>) }"

text \<open>
  The element at a: into the buffer when there is room for it, otherwise the buffer is sent. The
  length is an \<^verbatim>\<open>int\<close>.
\<close>

definition dump_put :: "dump_state \<Rightarrow> addr \<Rightarrow> (dump_next \<times> dump_state) option" where
  "dump_put s a = do {
     ring \<leftarrow> rd_ringbuf s;
     d \<leftarrow> slot_read ring a;
     b \<leftarrow> rd_send_buf s;
     let len = sint (4 + d_len d);
     if len \<le> int (length (b_mem b)) - int (b_last b) then do {
       x \<leftarrow> d_data d;
       bs \<leftarrow> io_heap s x;
       data \<leftarrow> mem_read bs 0 (unat (d_len d));
       mem \<leftarrow> mem_write (b_mem b) (b_last b) (le_bytes 4 (unat (d_len d)) @ data);
       Some (D_again, s\<lparr>rd_send_buf := Some (b\<lparr>b_mem := mem, b_last := nat (int (b_last b) + len)\<rparr>),
                       rd_ringbuf := Some (rs_ringbuf_get_advance ring)\<rparr>) }
     else do {
       (r, s1) \<leftarrow> dump_send s;
       Some (if r = RS_OK then D_again else D_quit, s1) } }"

text \<open>
  One round. After an interrupt the timed select never comes back, with any fuel; a readable
  connection means that the slave is gone or has sent something it should not.
\<close>

definition dump_round :: "dump_state \<Rightarrow> (dump_next \<times> dump_state) option" where
  "dump_round s = do {
     ring \<leftarrow> rd_ringbuf s;
     case rs_ringbuf_get ring of
       (_, Some a) \<Rightarrow> dump_put s a
     | (_, None) \<Rightarrow> do {
         (r, s1) \<leftarrow> dump_send s;
         if r \<noteq> RS_OK then Some (D_quit, s1)
         else case ds_io s1 of
             [] \<Rightarrow> Some (D_wait, s1)
           | (ring', heap') # ios \<Rightarrow>
               (let s2 = s1\<lparr>rd_ringbuf := Some ring', io_heap := heap', ds_io := ios\<rparr> in
                case rs_ringbuf_spin_wait (\<lambda>_. ring') of
                  (_, Some a) \<Rightarrow> dump_put s2 a
                | (_, None) \<Rightarrow>
                    (case ds_select s2 of
                       [] \<Rightarrow> Some (D_wait, s2)
                     | e # es \<Rightarrow>
                         (let s3 = s2\<lparr>ds_select := es\<rparr> in
                          case timed_select_loop 1 e of
                            None \<Rightarrow> Some (D_wait, s3)
                          | Some r \<Rightarrow>
                              if r = RS_ERR then Some (D_quit, s3)
                              else if r = RS_OK
                                then Some (D_quit, s3\<lparr>ds_read := snd (rs_read (ds_read s3) 1)\<rparr>)
                              else Some (D_again, s3)))) } }"

text \<open>The bound counts the rounds.\<close>

fun dump_loop :: "nat \<Rightarrow> dump_state \<Rightarrow> (dump_next \<times> dump_state) option" where
  "dump_loop n s =
     (if n = 0 then Some (D_wait, s)
      else do {
        (r, s1) \<leftarrow> dump_round s;
        if r = D_again then dump_loop (n - 1) s1 else Some (r, s1) })"

declare dump_loop.simps [simp del]

text \<open>Starting the I/O thread may fail.\<close>

definition rs_start_dump_thread :: "os_mem \<Rightarrow> bool \<Rightarrow> nat \<Rightarrow> dump_state \<Rightarrow> (dump_next \<times> dump_state) option" where
  "rs_start_dump_thread os created n s = do {
     (r, s1) \<leftarrow> rs_parse_dumpcmd os s;
     if r \<noteq> RS_OK \<or> \<not> created then Some (D_quit, s1) else dump_loop n s1 }"

section \<open>The command\<close>

lemma size_read_available:
  "sz \<le> length got + length (stream fd) \<Longrightarrow> length got \<le> sz \<Longrightarrow>
   \<exists>fd'. size_read_loop fd got sz = (RS_OK, take sz (got @ stream fd), fd') \<and> stream fd' = drop (sz - length got) (stream fd)"
proof (induction fd got sz rule: size_read_loop.induct)
  case (1 fd got sz)
  show ?case
  proof (cases "length got < sz")
    case False
    with 1 show ?thesis by (subst size_read_loop.simps) simp
  next
    case True
    obtain res fd1 where rd: "rs_read fd (sz - length got) = (res, fd1)" by fastforce
    have "stream fd \<noteq> []" using "1.prems" True by auto
    then have "\<exists>b bs. res = Some (b # bs)"
      using rd True
    proof (induction fd "sz - length got" rule: rs_read.induct)
      case (4 xs fd)
      then show ?case by (cases xs) (auto simp: neq_Nil_conv take_Cons' split: if_splits)
    qed auto
    then obtain b bs where res: "res = Some (b # bs)" by blast
    have st: "stream fd = (b # bs) @ stream fd1" and len: "length (b # bs) \<le> sz - length got"
      using rs_read_stream [of fd "sz - length got" "b # bs" fd1] rd res by simp_all
    have pre: "sz \<le> length (got @ b # bs) + length (stream fd1)" "length (got @ b # bs) \<le> sz"
      using "1.prems" st len True by simp_all
    from "1.IH" [OF True rd [symmetric] res refl pre] obtain fd' where
      "size_read_loop fd1 (got @ b # bs) sz = (RS_OK, take sz ((got @ b # bs) @ stream fd1), fd')"
      "stream fd' = drop (sz - length (got @ b # bs)) (stream fd1)" by blast
    moreover have "size_read_loop fd got sz = size_read_loop fd1 (got @ b # bs) sz"
      using True rd res by (subst size_read_loop.simps) simp
    moreover have "drop (sz - length got) (stream fd) = drop (sz - length (got @ b # bs)) (stream fd1)"
      by (simp only: st drop_append) (use len in simp)
    ultimately show ?thesis using st by simp
  qed
qed

lemma rs_size_read_available:
  "sz \<le> length (stream fd) \<Longrightarrow>
   \<exists>fd'. rs_size_read fd sz = (RS_OK, take sz (stream fd), fd') \<and> stream fd' = drop sz (stream fd)"
  using size_read_available [of sz "[]" fd] by (simp add: rs_size_read_def)

text \<open>A file name with its number, and the position behind the comma.\<close>

definition binlog_name :: "byte list \<Rightarrow> u32 \<Rightarrow> bool" where
  "binlog_name fname num \<longleftrightarrow> (\<exists>pre t. fname = pre @ t # fmt_u (unat num) \<and> \<not> is_digit t) \<and>
     0 \<notin> set fname \<and> 10 \<notin> set fname \<and> 44 \<notin> set fname \<and> length fname \<le> 4096"

lemma fmt_u_bytes: "0 \<notin> set (fmt_u n)" "10 \<notin> set (fmt_u n)" "44 \<notin> set (fmt_u n)"
  using fmt_u_digits [of 0 n] fmt_u_digits [of 10 n] fmt_u_digits [of 44 n] by (auto simp: is_digit_uint)

lemma dumpcmd_fields_body:
  assumes name: "binlog_name fname num" and s: "rd_dump_file s = []"
    and tables: "0 \<notin> set ft"
  shows "dumpcmd_fields (dumpcmd_body (fname @ [44] @ fmt_u (unat pos)) ft es) s =
     (let tab = [44] @ ft @ [44, 0] @ le_bytes 4 (unat es);
          s' = s\<lparr>rd_dump_file := fname, rd_dump_num := num, rd_dump_pos := pos, rd_filter_tables := Some tab\<rparr> in
      if ft = [] then Some (RS_ERR, s')
      else Some (RS_OK, s'\<lparr>rd_rb_esusec := es, rd_filter_tables := (if hd ft = 44 then None else Some tab)\<rparr>))"
proof -
  let ?tab = "[44] @ ft @ [44, 0] @ le_bytes 4 (unat es)"
  let ?c = "fname @ 44 # fmt_u (unat pos) @ 10 # ?tab"
  have body: "dumpcmd_body (fname @ [44] @ fmt_u (unat pos)) ft es = ?c" by (simp add: dumpcmd_body_def)
  obtain pre t where f: "fname = pre @ t # fmt_u (unat num)" "\<not> is_digit t"
    and z: "0 \<notin> set fname" "10 \<notin> set fname" "44 \<notin> set fname" "length fname \<le> 4096"
    using name by (auto simp: binlog_name_def)
  have pos_num: "length fname \<noteq> 0" using f(1) by simp
  have c1: "c_strchr 44 ?c = Some (Some (length fname))" using z by (intro c_strchr_append)
  have c2: "rs_estr_to_uint32 ?c (length fname - 1) = Some num"
    using estr_to_uint32_value [OF f(2), of pre num "44 # fmt_u (unat pos) @ 10 # ?tab"] by (simp add: f(1))
  have c3: "rs_str_to_uint32 (drop (length fname + 1) ?c) = Some pos"
    using str_to_uint32_value [of "fmt_u (unat pos)" 10 ?tab] fmt_u_digits by (auto simp: is_digit_uint)
  have c4: "c_strchr 10 (drop (length fname) ?c) = Some (Some (Suc (length (fmt_u (unat pos)))))"
    using c_strchr_append [of "44 # fmt_u (unat pos)" 10 ?tab] fmt_u_bytes by simp
  let ?q = "length fname + Suc (length (fmt_u (unat pos))) + 1"
  have d: "drop ?q ?c = ?tab" by simp
  have c5: "mem_get ?c ?q = Some 44"
  proof -
    have "?q < length ?c" by simp
    moreover have "?c ! ?q = 44" by (rule nth_via_drop [of _ _ _ "ft @ [44, 0] @ le_bytes 4 (unat es)"]) (simp add: d)
    ultimately show ?thesis by (simp add: mem_get_def)
  qed
  have c6: "c_strrchr 44 ?tab = Some (Some (length (44 # ft)))"
    using c_strrchr_append [of "44 # ft" 44 "[]" "le_bytes 4 (unat es)"] tables by simp
  have c7: "mem_read ?tab (length (44 # ft) + 2) 4 = Some (le_bytes 4 (unat es))"
    by (rule mem_read_split [of _ "[44] @ ft @ [44, 0]" _ "[]"]) simp_all
  have c8: "ft \<noteq> [] \<Longrightarrow> c_strncmp_eq 2 [44, 44, 0] ?tab = Some (hd ft = 44)"
    unfolding numeral_2_eq_2 append_Cons append_Nil c_strncmp_eq_rec by (cases ft) simp_all
  have es: "set_low (rd_rb_esusec t) (le_bytes 4 (unat es)) = es" for t :: dump_state
    by (simp add: set_low_u32 le_nat_bytes_u32)
  have w: "arr_write path_cap [] 0 fname = Some fname" using z(4) by (simp add: arr_write_start)
  show ?thesis
    unfolding body
    by (simp only: dumpcmd_fields_def c1 bind.bind_lunit option.case Let_def pos_num if_False c2 c3 c4 c5 s take_append
          take_all order_refl diff_self_eq_0 take_0 append_Nil2 w d c6 c7 simp_thms)
      (auto simp: c8 [unfolded append_Cons append_Nil] es)
qed

text \<open>What the slave sends, and where the master finds room for it.\<close>

lemma send_dumpcmd_bytes:
  assumes "rs_send_dumpcmd sl = Some (RS_OK, sl')"
    and "c_contents (arr_str info_cap (si_dump_info sl)) = Some dump" and "si_filter_tables sl = Some tables"
    and "c_contents tables = Some ft"
  shows "sl_sent sl' = sl_sent sl @ le_bytes 4 (length (dumpcmd_body dump ft (si_rb_esusec sl))) @
      dumpcmd_body dump ft (si_rb_esusec sl)"
    and "length (dumpcmd_body dump ft (si_rb_esusec sl)) < 2147483648"
proof -
  let ?l = "length dump + 2 + length ft + 2 + 4"
  let ?body = "dumpcmd_body dump ft (si_rb_esusec sl)"
  have l: "length ?body = ?l" by (simp add: dumpcmd_body_def)
  obtain n fd where w: "rs_write (sl_write sl) (4 + ?l) = (n, fd)" by fastforce
  from assms w have n: "n = Some (4 + ?l)"
    and s: "sl' = sl\<lparr>sl_write := fd, sl_sent := sl_sent sl @ take (4 + ?l) (le_bytes 4 ?l @ ?body)\<rparr>"
    by (auto simp: rs_send_dumpcmd_def Let_def split: if_splits)
  show "sl_sent sl' = sl_sent sl @ le_bytes 4 (length ?body) @ ?body" unfolding s l [symmetric] by simp
  show "length ?body < 2147483648" using assms unfolding l by (auto simp: rs_send_dumpcmd_def Let_def split: if_splits)
qed

lemma parse_dumpcmd_stream:
  assumes "stream (ds_read s) = le_bytes 4 (length body) @ body @ rest" and "length body < 2147483648"
    and "rd_pool s = Some pool" and "rs_palloc_id pool (of_nat (length body)) = Some idx"
    and "rs_palloc os pool (of_nat (length body)) idx = Some (Some x, pool')"
    and "length body \<le> chunk_room pool' (of_nat (length body)) idx"
  shows "\<exists>fd. stream fd = rest \<and> rs_parse_dumpcmd os s =
    dumpcmd_fields body (s\<lparr>rd_pool := Some pool', ds_read := fd, rd_cbuf := Some body\<rparr>)"
proof -
  obtain fd1 where fd1: "rs_size_read (ds_read s) 4 = (RS_OK, le_bytes 4 (length body), fd1)" "stream fd1 = body @ rest"
    using rs_size_read_available [of 4 "ds_read s"] by (auto simp: assms(1))
  obtain fd2 where fd2: "rs_size_read fd1 (length body) = (RS_OK, body, fd2)" "stream fd2 = rest"
    using rs_size_read_available [of "length body" fd1] by (auto simp: fd1)
  have len: "set_low 0 (le_bytes 4 (length body)) = (of_nat (length body) :: u32)"
    "unat (of_nat (length body) :: u32) = length body"
    using assms(2) by (simp_all add: set_low_zero le_nat_le_bytes unat_of_nat)
  have "rs_parse_dumpcmd os s = dumpcmd_fields body (s\<lparr>rd_pool := Some pool', ds_read := fd2, rd_cbuf := Some body\<rparr>)"
    using assms(3-6) by (simp add: rs_parse_dumpcmd_def fd1 fd2 len)
  with fd2(2) show ?thesis by blast
qed

section \<open>The loop\<close>

text \<open>What the connection has been given and will be given from the buffer.\<close>

definition ds_stream :: "dump_state \<Rightarrow> byte list" where
  "ds_stream s = ds_sent s @ (case rd_send_buf s of None \<Rightarrow> [] | Some b \<Rightarrow> unread b)"

lemma send_loop_mem: "send_loop fd b sent = Some (r, out, b', fd') \<Longrightarrow> b_mem b' = b_mem b"
proof (induction fd b sent rule: send_loop.induct)
  case (1 fd b sent)
  note unf = send_loop.simps [of fd b sent]
  show ?case
  proof (cases "b_last b - b_pos b = 0")
    case True
    with "1.prems" show ?thesis by (subst (asm) unf) auto
  next
    case False
    obtain res fd1 where wr: "rs_write fd (b_last b - b_pos b) = (res, fd1)" by fastforce
    show ?thesis
    proof (cases "res = None \<or> res = Some 0")
      case True
      with False wr "1.prems" show ?thesis by (subst (asm) unf) auto
    next
      case nz: False
      then obtain n where res: "res = Some n" "n \<noteq> 0" by auto
      with False wr "1.prems" obtain bs where bs: "mem_read (b_mem b) (b_pos b) n = Some bs"
        and rec: "send_loop fd1 (b\<lparr>b_pos := b_pos b + n\<rparr>) (sent @ bs) = Some (r, out, b', fd')"
        by (subst (asm) unf) (auto simp: bind_eq_Some_conv)
      from "1.IH" [OF False wr [symmetric] res(1,2) bs rec] show ?thesis by simp
    qed
  qed
qed

lemma send_tmpbuf_stream:
  assumes "rs_send_tmpbuf fd b = Some (r, out, b', fd')" and "buf_ok b"
  shows "buf_ok b'" and "unread b = out @ unread b'" and "r = RS_OK \<Longrightarrow> unread b' = []"
    and "b_mem b' = b_mem b"
proof -
  have "buf_ok b' \<and> unread b = out @ unread b' \<and> (r = RS_OK \<longrightarrow> unread b' = [])"
  proof (cases "b_last b - b_pos b = 0")
    case True
    with assms show ?thesis by (auto simp: rs_send_tmpbuf_def unread_def)
  next
    case False
    with send_loop_result [OF assms(2), of fd "[]"] assms show ?thesis
      by (auto simp: rs_send_tmpbuf_def unread_def)
  qed
  then show "buf_ok b'" "unread b = out @ unread b'" "r = RS_OK \<Longrightarrow> unread b' = []" by blast+
  show "b_mem b' = b_mem b"
    using assms(1) send_loop_mem [of fd b "[]" r out b' fd'] by (auto simp: rs_send_tmpbuf_def split: if_splits)
qed

text \<open>The send buffer is smaller than 2 GB.\<close>

definition ds_ok :: "dump_state \<Rightarrow> bool" where
  "ds_ok s \<longleftrightarrow> (case rd_send_buf s of Some b \<Rightarrow> buf_ok b \<and> length (b_mem b) < 2147483648 | None \<Rightarrow> False)"

lemma dump_send_stream:
  assumes "dump_send s = Some (r, s')" and "ds_ok s"
  shows "ds_ok s'" and "ds_stream s' = ds_stream s" and "rd_ringbuf s' = rd_ringbuf s" and "io_heap s' = io_heap s"
    and "ds_io s' = ds_io s" and "r = RS_OK \<Longrightarrow> \<exists>b. rd_send_buf s' = Some b \<and> unread b = []"
proof -
  from assms obtain b out b' wr where b: "rd_send_buf s = Some b" "buf_ok b" "length (b_mem b) < 2147483648"
    and send: "rs_send_tmpbuf (ds_write s) b = Some (r, out, b', wr)"
    and s': "s' = s\<lparr>rd_send_buf := Some b', ds_write := wr, ds_sent := ds_sent s @ out\<rparr>"
    by (auto simp: dump_send_def ds_ok_def bind_eq_Some_conv split: option.splits)
  note st = send_tmpbuf_stream [OF send b(2)]
  show "ds_ok s'" "ds_stream s' = ds_stream s" "rd_ringbuf s' = rd_ringbuf s" "io_heap s' = io_heap s"
    "ds_io s' = ds_io s" "r = RS_OK \<Longrightarrow> \<exists>b. rd_send_buf s' = Some b \<and> unread b = []"
    using st b by (simp_all add: s' ds_ok_def ds_stream_def)
qed

text \<open>Either the message at the head of the ring joins the stream, or nothing but the buffer moves.\<close>

definition put_effect :: "dump_state \<Rightarrow> addr \<Rightarrow> dump_state \<Rightarrow> bool" where
  "put_effect s a s' \<longleftrightarrow> ds_ok s' \<and> io_heap s' = io_heap s \<and>
     (ds_stream s' = ds_stream s \<and> rd_ringbuf s' = rd_ringbuf s \<or>
      (\<exists>ring d x bs. rd_ringbuf s = Some ring \<and> slot_read ring a = Some d \<and> d_data d = Some x \<and>
         io_heap s x = Some bs \<and> unat (d_len d) \<le> length bs \<and>
         rd_ringbuf s' = Some (rs_ringbuf_get_advance ring) \<and>
         ds_stream s' = ds_stream s @ frame (take (unat (d_len d)) bs)))"

lemma sint_len: "4 + unat (n :: u32) < 2147483648 \<Longrightarrow> sint (4 + n) = 4 + int (unat n)"
proof -
  assume n: "4 + unat n < 2147483648"
  then have e: "unat (4 + n) = 4 + unat n" by (simp add: unat_word_ariths)
  have u: "uint (4 + n) = 4 + int (unat n)"
    by (subst uint_nat) (simp only: e of_nat_add of_nat_numeral)
  have "int (unat n) < 2147483644" using n by linarith
  then show ?thesis unfolding sint_uint u by (intro signed_take_bit_int_eq_self) simp_all
qed

lemma dump_put_effect:
  assumes put: "dump_put s a = Some (r, s')" and ok: "ds_ok s"
  shows "put_effect s a s'"
proof -
  from put obtain ring d b where rdb: "rd_ringbuf s = Some ring" "slot_read ring a = Some d" "rd_send_buf s = Some b"
    by (auto simp: dump_put_def bind_eq_Some_conv)
  have b: "buf_ok b" "length (b_mem b) < 2147483648" using ok rdb(3) by (simp_all add: ds_ok_def)
  show ?thesis
  proof (cases "sint (4 + d_len d) \<le> int (length (b_mem b)) - int (b_last b)")
    case False
    with put rdb obtain r0 where send: "dump_send s = Some (r0, s')"
      by (auto simp: dump_put_def bind_eq_Some_conv Let_def)
    from dump_send_stream [OF send ok] show ?thesis by (simp add: put_effect_def)
  next
    case True
    with put rdb obtain x bs data mem where d: "d_data d = Some x" "io_heap s x = Some bs"
      "mem_read bs 0 (unat (d_len d)) = Some data"
      and mem: "mem_write (b_mem b) (b_last b) (le_bytes 4 (unat (d_len d)) @ data) = Some mem"
      and s': "s' = s\<lparr>rd_send_buf := Some (b\<lparr>b_mem := mem, b_last := nat (int (b_last b) + sint (4 + d_len d))\<rparr>),
                       rd_ringbuf := Some (rs_ringbuf_get_advance ring)\<rparr>"
      by (auto simp: dump_put_def bind_eq_Some_conv Let_def)
    have data: "data = take (unat (d_len d)) bs" "unat (d_len d) \<le> length bs"
      using d(3) by (auto simp: mem_read_def split: if_splits)
    let ?f = "le_bytes 4 (unat (d_len d)) @ data"
    have f: "?f = frame (take (unat (d_len d)) bs)" "length ?f = 4 + unat (d_len d)"
      using data by (simp_all add: frame_def min_def)
    have "b_last b + length ?f \<le> length (b_mem b)" using mem by (auto simp: mem_write_def split: if_splits)
    then have "4 + unat (d_len d) < 2147483648" using b(2) f(2) by linarith
    then have len: "nat (int (b_last b) + sint (4 + d_len d)) = b_last b + length ?f"
      unfolding sint_len [OF \<open>4 + unat (d_len d) < 2147483648\<close>] f(2) by linarith
    note app = unread_append [OF b(1) mem]
    have "ds_ok s'" using app(1) b(2) mem_write_length [OF mem] by (simp add: s' ds_ok_def len)
    moreover have "ds_stream s' = ds_stream s @ frame (take (unat (d_len d)) bs)"
      using app(2) rdb(3) by (simp add: s' ds_stream_def len f(1))
    ultimately show ?thesis using rdb d data(2) by (simp add: put_effect_def s')
  qed
qed

text \<open>
  A round in terms of the stream: the ring is the one the round looks at, its own or what the I/O
  thread has made of it during the spin.
\<close>

lemma ringbuf_get_first: "rs_ringbuf_get rb = (r, Some a) \<Longrightarrow> a = rb_rp rb"
  by (auto simp: rs_ringbuf_get_def split: if_splits)

lemma spin_get: "rs_ringbuf_spin_wait (\<lambda>_. rb) = (r, Some a) \<Longrightarrow> rs_ringbuf_get rb = (RS_OK, Some a)"
proof -
  have "spin_loop rbs k err = (r, Some a) \<Longrightarrow> rbs = (\<lambda>_. rb) \<Longrightarrow> rs_ringbuf_get rb = (RS_OK, Some a)" for rbs k err
  proof (induction rbs k err rule: spin_loop.induct)
    case (1 rbs k err)
    then show ?case
      by (subst (asm) (2) spin_loop.simps)
        (auto split: if_splits prod.splits simp: rs_ringbuf_get_def)
  qed
  then show "rs_ringbuf_spin_wait (\<lambda>_. rb) = (r, Some a) \<Longrightarrow> rs_ringbuf_get rb = (RS_OK, Some a)"
    by (auto simp: rs_ringbuf_spin_wait_def)
qed

definition took_head :: "rs_ringbuf_t \<Rightarrow> (addr \<Rightarrow> byte list option) \<Rightarrow> dump_state \<Rightarrow> dump_state \<Rightarrow> bool" where
  "took_head ring heap s s' \<longleftrightarrow> rd_ringbuf s' = Some (rs_ringbuf_get_advance ring) \<and> io_heap s' = heap \<and>
     (\<exists>d x bs. slot_read ring (rb_rp ring) = Some d \<and> d_data d = Some x \<and> heap x = Some bs \<and>
        unat (d_len d) \<le> length bs \<and> ds_stream s' = ds_stream s @ frame (take (unat (d_len d)) bs))"

lemma put_took:
  "put_effect s (rb_rp ring) s' \<Longrightarrow> rd_ringbuf s = Some ring \<Longrightarrow>
     ds_ok s' \<and> (ds_stream s' = ds_stream s \<or> took_head ring (io_heap s) s s')"
  unfolding put_effect_def took_head_def by auto

lemma dump_round_effect:
  assumes round: "dump_round s = Some (r, s')" and ok: "ds_ok s"
  shows "ds_ok s' \<and> (ds_stream s' = ds_stream s \<or>
    (\<exists>ring heap. (rd_ringbuf s = Some ring \<and> heap = io_heap s \<or> (ring, heap) \<in> set (ds_io s)) \<and>
       took_head ring heap s s'))"
proof -
  from round obtain ring where ring: "rd_ringbuf s = Some ring" by (cases "rd_ringbuf s") (auto simp: dump_round_def)
  obtain e oa where get: "rs_ringbuf_get ring = (e, oa)" by fastforce
  show ?thesis
  proof (cases oa)
    case (Some a)
    with round ring get have put: "dump_put s a = Some (r, s')" by (simp add: dump_round_def)
    have "a = rb_rp ring" using get Some ringbuf_get_first by blast
    with put_took [of s ring s'] dump_put_effect [OF put ok] ring show ?thesis by blast
  next
    case None
    with round ring get obtain r1 s1 where send: "dump_send s = Some (r1, s1)"
      and rest: "(if r1 \<noteq> RS_OK then Some (D_quit, s1)
         else case ds_io s1 of
             [] \<Rightarrow> Some (D_wait, s1)
           | (ring', heap') # ios \<Rightarrow>
               (let s2 = s1\<lparr>rd_ringbuf := Some ring', io_heap := heap', ds_io := ios\<rparr> in
                case rs_ringbuf_spin_wait (\<lambda>_. ring') of
                  (_, Some a) \<Rightarrow> dump_put s2 a
                | (_, None) \<Rightarrow>
                    (case ds_select s2 of
                       [] \<Rightarrow> Some (D_wait, s2)
                     | e # es \<Rightarrow>
                         (let s3 = s2\<lparr>ds_select := es\<rparr> in
                          case timed_select_loop 1 e of
                            None \<Rightarrow> Some (D_wait, s3)
                          | Some r \<Rightarrow>
                              if r = RS_ERR then Some (D_quit, s3)
                              else if r = RS_OK
                                then Some (D_quit, s3\<lparr>ds_read := snd (rs_read (ds_read s3) 1)\<rparr>)
                              else Some (D_again, s3))))) = Some (r, s')"
      by (auto simp: dump_round_def bind_eq_Some_conv)
    note snd = dump_send_stream [OF send ok]
    show ?thesis
    proof (cases "r1 = RS_OK \<and> ds_io s1 \<noteq> []")
      case False
      with rest snd show ?thesis by (auto split: if_splits list.splits)
    next
      case True
      then obtain ring' heap' ios where io: "ds_io s1 = (ring', heap') # ios" by (cases "ds_io s1") auto
      let ?s2 = "s1\<lparr>rd_ringbuf := Some ring', io_heap := heap', ds_io := ios\<rparr>"
      have ok2: "ds_ok ?s2" and st2: "ds_stream ?s2 = ds_stream s" using snd(1,2) by (simp_all add: ds_ok_def ds_stream_def)
      have mem: "(ring', heap') \<in> set (ds_io s)" using io snd(5) by simp
      obtain e2 oa2 where spin: "rs_ringbuf_spin_wait (\<lambda>_. ring') = (e2, oa2)" by fastforce
      show ?thesis
      proof (cases oa2)
        case (Some a)
        with rest True io spin have put: "dump_put ?s2 a = Some (r, s')" by simp
        have "a = rb_rp ring'" using spin_get [of ring' e2 a] spin Some ringbuf_get_first by blast
        with put_took [of ?s2 ring' s'] dump_put_effect [OF put ok2]
        have "ds_ok s' \<and> (ds_stream s' = ds_stream ?s2 \<or> took_head ring' heap' ?s2 s')" by simp
        moreover have "took_head ring' heap' ?s2 s' = took_head ring' heap' s s'"
          unfolding took_head_def st2 ..
        ultimately show ?thesis using mem st2 by metis
      next
        case None
        with rest True io spin have
          "s' = ?s2 \<or> (\<exists>es. s' = ?s2\<lparr>ds_select := es\<rparr> \<or> (\<exists>fd. s' = ?s2\<lparr>ds_select := es, ds_read := fd\<rparr>))"
          by (auto simp: Let_def split: list.splits option.splits if_splits)
        with ok2 st2 show ?thesis by (auto simp: ds_ok_def ds_stream_def)
      qed
    qed
  qed
qed

section \<open>Properties\<close>


text \<open>
  With an empty list, which the code means to be a request for all tables, the command is refused.
\<close>

theorem dumpcmd_empty_list_refused:
  assumes "binlog_name fname num" and "rd_dump_file s = []"
    and "stream (ds_read s) = frame (dumpcmd_body (fname @ [44] @ fmt_u (unat (pos :: u32))) [] es) @ rest"
    and "rd_pool s = Some pool" and "rs_palloc_id pool len = Some idx"
    and "rs_palloc os pool len idx = Some (Some x, pool')" and "unat len \<le> chunk_room pool' len idx"
    and "len = of_nat (length (dumpcmd_body (fname @ [44] @ fmt_u (unat pos)) [] es))"
  shows "\<exists>s'. rs_parse_dumpcmd os s = Some (RS_ERR, s')"
proof -
  let ?body = "dumpcmd_body (fname @ [44] @ fmt_u (unat pos)) [] es"
  have "length fname \<le> 4096" using assms(1) by (simp add: binlog_name_def)
  then have short: "length ?body < 2147483648" using length_fmt_u32 [of pos] by (simp add: dumpcmd_body_def)
  then have "unat len = length ?body" using assms(8) by (simp add: unat_of_nat)
  with parse_dumpcmd_stream [of s ?body rest pool idx os x pool'] assms short
  obtain fd where "rs_parse_dumpcmd os s =
      dumpcmd_fields ?body (s\<lparr>rd_pool := Some pool', ds_read := fd, rd_cbuf := Some ?body\<rparr>)"
    by (auto simp: frame_def)
  then show ?thesis using assms(2) by (subst (asm) dumpcmd_fields_body [OF assms(1)]) (simp_all add: Let_def)
qed


text \<open>
  C37. A message that is longer than the send buffer is never sent: once the buffer is empty every round
  leaves everything as it is and asks for another one, so the thread spins for ever.
\<close>

theorem long_message_spins:
  assumes "rd_ringbuf s = Some ring" and "rs_ringbuf_get ring = (RS_OK, Some a)" and "slot_read ring a = Some d"
    and "rd_send_buf s = Some b" and "buf_ok b" and "b_pos b = b_last b"
    and "length (b_mem b) < 4 + unat (d_len d)" and "4 + unat (d_len d) < 2147483648"
  shows "dump_round s = Some (D_again, s) \<and> dump_loop n s = Some (D_wait, s)"
proof -
  have send: "dump_send s = Some (RS_OK, s)"
    using assms(4,6) by (simp add: dump_send_def rs_send_tmpbuf_def)
  have room: "\<not> sint (4 + d_len d) \<le> int (length (b_mem b)) - int (b_last b)"
    unfolding sint_len [OF assms(8)] using assms(7) by linarith
  have round: "dump_round s = Some (D_again, s)"
    using assms(1-4) send room by (simp add: dump_round_def dump_put_def Let_def)
  have "dump_loop n s = Some (D_wait, s)"
    by (induction n) (simp add: dump_loop.simps, subst dump_loop.simps, simp add: round)
  with round show ?thesis by blast
qed

text \<open>The thread of a connection that has just been accepted.\<close>

definition demo_dump :: "byte list \<Rightarrow> dump_state" where
  "demo_dump cmd = io_state.extend ((demo_pub 0)\<lparr>rd_dump_file := [],
       rd_send_buf := Some \<lparr>b_mem = replicate 8 0, b_pos = 0, b_last = 0, b_size = 8\<rparr>\<rparr>)
     (dump_state.fields [Rd_data cmd] [Wr_acc 100] [] [] [])"

definition demo_cmd :: "byte list \<Rightarrow> byte list" where
  "demo_cmd ft = frame (dumpcmd_body (ascii ''bin.1'' @ [44] @ fmt_u (unat (4 :: u32))) ft 10000)"

lemma demo_name: "binlog_name (ascii ''bin.1'') 1"
  unfolding binlog_name_def
  by (intro conjI exI [of _ "ascii ''bin''"] exI [of _ 46]) (simp_all add: ascii_def fmt_u.simps is_digit_uint)

lemma demo_dump_fields: "rd_dump_file (demo_dump cmd) = []" "ds_read (demo_dump cmd) = [Rd_data cmd]"
  "rd_pool (demo_dump cmd) = Some (snd made_ring)" "rd_ringbuf (demo_dump cmd) = fst made_ring"
  "rd_send_buf (demo_dump cmd) = Some \<lparr>b_mem = replicate 8 0, b_pos = 0, b_last = 0, b_size = 8\<rparr>"
  by (simp_all add: demo_dump_def demo_pub_def io_state.defs dump_state.defs)

lemma demo_room:
  "rs_palloc_id (snd made_ring) 22 = Some 0" "rs_palloc_id (snd made_ring) 15 = Some 0"
  "rs_palloc (os_grant 7) (snd made_ring) 22 0 =
     Some (Some (the (fst (the (rs_palloc (os_grant 7) (snd made_ring) 22 0)))), snd (the (rs_palloc (os_grant 7) (snd made_ring) 22 0)))"
  "rs_palloc (os_grant 7) (snd made_ring) 15 0 =
     Some (Some (the (fst (the (rs_palloc (os_grant 7) (snd made_ring) 15 0)))), snd (the (rs_palloc (os_grant 7) (snd made_ring) 15 0)))"
  "unat (22 :: u32) \<le> chunk_room (snd (the (rs_palloc (os_grant 7) (snd made_ring) 22 0))) 22 0"
  "unat (15 :: u32) \<le> chunk_room (snd (the (rs_palloc (os_grant 7) (snd made_ring) 15 0))) 15 0"
proof -
  have c: "\<not> Option.is_none (rs_palloc (os_grant 7) (snd made_ring) 22 0)"
    "\<not> Option.is_none (fst (the (rs_palloc (os_grant 7) (snd made_ring) 22 0)))"
    "\<not> Option.is_none (rs_palloc (os_grant 7) (snd made_ring) 15 0)"
    "\<not> Option.is_none (fst (the (rs_palloc (os_grant 7) (snd made_ring) 15 0)))" by code_simp+
  show "rs_palloc (os_grant 7) (snd made_ring) 22 0 =
     Some (Some (the (fst (the (rs_palloc (os_grant 7) (snd made_ring) 22 0)))), snd (the (rs_palloc (os_grant 7) (snd made_ring) 22 0)))"
    using computes_Some [OF c(1)] computes_Some [OF c(2)] by (metis prod.collapse)
  show "rs_palloc (os_grant 7) (snd made_ring) 15 0 =
     Some (Some (the (fst (the (rs_palloc (os_grant 7) (snd made_ring) 15 0)))), snd (the (rs_palloc (os_grant 7) (snd made_ring) 15 0)))"
    using computes_Some [OF c(3)] computes_Some [OF c(4)] by (metis prod.collapse)
qed code_simp+


theorem dumpcmd_empty_list_refused_witness:
  "\<exists>s'. rs_parse_dumpcmd (os_grant 7) (demo_dump (demo_cmd [])) = Some (RS_ERR, s')"
proof -
  have c: "stream [Rd_data (demo_cmd [])] = demo_cmd [] @ []"
    "15 = (of_nat (length (dumpcmd_body (ascii ''bin.1'' @ [44] @ fmt_u (unat (4 :: u32))) [] 10000)) :: u32)"
    by code_simp+
  show ?thesis
    by (rule dumpcmd_empty_list_refused [OF demo_name demo_dump_fields(1) _ demo_dump_fields(3) demo_room(2,4,6) c(2), of _ "[]"])
      (use c(1) in \<open>simp add: demo_dump_fields demo_cmd_def\<close>)
qed

text \<open>With a message of three bytes, and with one that is too long for the buffer.\<close>

definition demo_msg :: "u32 \<Rightarrow> dump_state" where
  "demo_msg n = (demo_dump [])\<lparr>rd_ringbuf := Some (the (the (ring_put (the (fst made_ring))
       \<lparr>d_len = n, d_data = Some 500, d_id = 0\<rparr>))), io_heap := [500 \<mapsto> replicate (unat n) 7]\<rparr>"

lemma demo_msg_buf:
  "rd_send_buf (demo_msg n) = Some \<lparr>b_mem = replicate 8 0, b_pos = 0, b_last = 0, b_size = 8\<rparr>"
  by (simp add: demo_msg_def demo_dump_fields)


theorem long_message_spins_witness:
  "dump_round (demo_msg 5) = Some (D_again, demo_msg 5) \<and> dump_loop 1000 (demo_msg 5) = Some (D_wait, demo_msg 5)"
proof -
  let ?ring = "the (the (ring_put (the (fst made_ring)) \<lparr>d_len = 5, d_data = Some 500, d_id = 0\<rparr>))"
  have c: "rs_ringbuf_get ?ring = (RS_OK, Some (the (snd (rs_ringbuf_get ?ring))))"
    "slot_read ?ring (the (snd (rs_ringbuf_get ?ring))) = Some \<lparr>d_len = 5, d_data = Some 500, d_id = 0\<rparr>" by code_simp+
  show ?thesis
    by (rule long_message_spins [OF _ c demo_msg_buf]) (simp_all add: demo_msg_def buf_ok_def)
qed

end
