(* ===== verification/RS_BinlogRow.thy ===== *)
theory RS_BinlogRow
  imports RS_SlaveIo
begin

text \<open>
  \<^verbatim>\<open>src/slave/rs_binlog_row.c\<close>: taking the rows out of a row event and handing each to the
  handlers of its table. Pointers into the event and into the column metadata are offsets. The
  struct a row is read into is its bytes, with its pool strings apart (\<open>dm_obj\<close>).
\<close>

section \<open>Columns\<close>

datatype rs_binlog_parse_func =
    Parse_def | Parse_varchar | Parse_bit | Parse_blob | Parse_varstring | Parse_string | Parse_decimal

record rs_binlog_column_meta_t =
  meta_len :: u32
  fixed_len :: u32
  parse_handle :: "rs_binlog_parse_func option"

definition column_meta :: "u32 \<Rightarrow> u32 \<Rightarrow> rs_binlog_parse_func option \<Rightarrow> rs_binlog_column_meta_t" where
  "column_meta ml fl h = \<lparr>meta_len = ml, fixed_len = fl, parse_handle = h\<rparr>"

text \<open>The table has an entry for each of the 256 types.\<close>

definition rs_column_meta :: "byte \<Rightarrow> rs_binlog_column_meta_t" where
  "rs_column_meta t =
     (if t = 1 then column_meta 0 1 (Some Parse_def)
      else if t = 2 then column_meta 0 2 (Some Parse_def)
      else if t = 3 then column_meta 0 4 (Some Parse_def)
      else if t = 4 then column_meta 1 4 (Some Parse_def)
      else if t = 5 then column_meta 1 8 (Some Parse_def)
      else if t = 7 then column_meta 0 4 (Some Parse_def)
      else if t = 8 then column_meta 0 8 (Some Parse_def)
      else if t = 9 then column_meta 0 3 (Some Parse_def)
      else if t = 10 then column_meta 0 3 (Some Parse_def)
      else if t = 11 then column_meta 0 3 (Some Parse_def)
      else if t = 12 then column_meta 0 8 (Some Parse_def)
      else if t = 13 then column_meta 0 1 (Some Parse_def)
      else if t = 15 then column_meta 2 0 (Some Parse_varchar)
      else if t = 16 then column_meta 2 0 (Some Parse_bit)
      else if t = 246 then column_meta 2 0 (Some Parse_decimal)
      else if t = 252 then column_meta 1 0 (Some Parse_blob)
      else if t = 253 then column_meta 2 0 (Some Parse_varstring)
      else if t = 254 then column_meta 2 0 (Some Parse_string)
      else if t = 255 then column_meta 1 0 (Some Parse_blob)
      else column_meta 0 0 None)"

text \<open>
  The length of a value: n bytes at offset p go over the low bytes of the zeroed \<^verbatim>\<open>dl\<close>,
  which has 4.
\<close>

definition length_prefix :: "byte list \<Rightarrow> nat \<Rightarrow> nat \<Rightarrow> (nat \<times> u32) option" where
  "length_prefix data p n = (if 4 < n then None else map_option (\<lambda>b. (p + n, set_low 0 b)) (mem_read data p n))"

definition rs_binlog_parse_def :: "nat \<Rightarrow> u32 \<Rightarrow> (nat \<times> u32) option" where
  "rs_binlog_parse_def p fl = Some (p, fl)"

definition rs_binlog_parse_varchar :: "byte list \<Rightarrow> nat \<Rightarrow> byte list \<Rightarrow> u32 \<Rightarrow> (nat \<times> u32) option" where
  "rs_binlog_parse_varchar data p cm ml = do {
     m \<leftarrow> mem_read cm 0 (unat ml);
     let max = (set_low 0 m :: u32);
     length_prefix data p (if max < 256 then 1 else 2) }"

definition rs_binlog_parse_bit :: "nat \<Rightarrow> byte list \<Rightarrow> (nat \<times> u32) option" where
  "rs_binlog_parse_bit p cm = do { m \<leftarrow> mem_read cm 0 1; Some (p, set_low 0 m div 8) }"

definition rs_binlog_parse_blob :: "byte list \<Rightarrow> nat \<Rightarrow> byte list \<Rightarrow> u32 \<Rightarrow> (nat \<times> u32) option" where
  "rs_binlog_parse_blob data p cm ml = do {
     m \<leftarrow> mem_read cm 0 (unat ml);
     length_prefix data p (unat (set_low 0 m :: u32)) }"

definition rs_binlog_parse_varstring :: "byte list \<Rightarrow> nat \<Rightarrow> byte list \<Rightarrow> (nat \<times> u32) option" where
  "rs_binlog_parse_varstring data p cm = do {
     m \<leftarrow> mem_read cm 1 1;
     length_prefix data p (unat (set_low 0 m :: u32)) }"

text \<open>The real type of the column is computed but not used.\<close>

definition rs_binlog_parse_string :: "byte list \<Rightarrow> nat \<Rightarrow> byte list \<Rightarrow> (nat \<times> u32) option" where
  "rs_binlog_parse_string data p cm = do {
     c0 \<leftarrow> mem_get cm 0;
     c1 \<leftarrow> mem_get cm 1;
     let max_len = (if c0 AND 0x30 \<noteq> 0x30
                    then (ucast c1 :: u32) OR push_bit 4 (ucast ((c0 AND 0x30) XOR 0x30))
                    else ucast c1);
     length_prefix data p (if max_len < 256 then 1 else 2) }"

definition dig2bytes :: "u32 list" where "dig2bytes = [0, 1, 1, 2, 2, 3, 3, 4, 4, 4]"

definition rs_binlog_decimal_binsize :: "u32 \<Rightarrow> u32 \<Rightarrow> u32 option" where
  "rs_binlog_decimal_binsize decimal precision = do {
     let intg = decimal - precision;
     let intg0 = intg div 9;
     let frac0 = precision div 9;
     let intg0x = intg - intg0 * 9;
     let frac0x = precision - frac0 * 9;
     i \<leftarrow> mem_get dig2bytes (unat intg0x);
     f \<leftarrow> mem_get dig2bytes (unat frac0x);
     Some (intg0 * 4 + i + frac0 * 4 + f) }"

definition rs_binlog_parse_decimal :: "nat \<Rightarrow> byte list \<Rightarrow> (nat \<times> u32) option" where
  "rs_binlog_parse_decimal p cm = do {
     d \<leftarrow> mem_get cm 0;
     r \<leftarrow> mem_get cm 1;
     n \<leftarrow> rs_binlog_decimal_binsize (ucast d) (ucast r);
     Some (p, n) }"

definition run_parse_handle ::
    "rs_binlog_parse_func \<Rightarrow> byte list \<Rightarrow> nat \<Rightarrow> byte list \<Rightarrow> u32 \<Rightarrow> u32 \<Rightarrow> (nat \<times> u32) option" where
  "run_parse_handle h data p cm ml fl =
     (case h of
        Parse_def \<Rightarrow> rs_binlog_parse_def p fl
      | Parse_varchar \<Rightarrow> rs_binlog_parse_varchar data p cm ml
      | Parse_bit \<Rightarrow> rs_binlog_parse_bit p cm
      | Parse_blob \<Rightarrow> rs_binlog_parse_blob data p cm ml
      | Parse_varstring \<Rightarrow> rs_binlog_parse_varstring data p cm
      | Parse_string \<Rightarrow> rs_binlog_parse_string data p cm
      | Parse_decimal \<Rightarrow> rs_binlog_parse_decimal p cm)"

section \<open>The struct of a row\<close>

record rs_pstr_t =
  ps_len :: u64
  ps_data :: "addr option"
  ps_id :: int

record rs_dm_pos_alloc_t =
  pa_pos :: int
  pa_alloc :: int
  pa_type :: int

definition RS_DM_DATA_STACK :: int where "RS_DM_DATA_STACK = 0"
definition RS_DM_DATA_POOL :: int where "RS_DM_DATA_POOL = 1"
definition RS_DM_TYPE_HEX :: int where "RS_DM_TYPE_HEX = 1"

text \<open>
  The bytes of the struct and, by offset, its pool strings of 24 bytes each. Bytes written outside
  the struct or over one of the strings, and a string written anywhere else, are undefined.
\<close>

record dm_obj =
  ob_mem :: "byte list"
  ob_pstr :: "(nat \<times> rs_pstr_t) list"

definition obj_write :: "dm_obj \<Rightarrow> nat \<Rightarrow> byte list \<Rightarrow> dm_obj option" where
  "obj_write ob pos bs =
     (if \<exists>(o', q) \<in> set (ob_pstr ob). pos < o' + 24 \<and> o' < pos + length bs then None
      else map_option (\<lambda>m. ob\<lparr>ob_mem := m\<rparr>) (mem_write (ob_mem ob) pos bs))"

definition obj_pstr :: "dm_obj \<Rightarrow> nat \<Rightarrow> rs_pstr_t \<Rightarrow> dm_obj option" where
  "obj_pstr ob pos q =
     (if map_of (ob_pstr ob) pos = None then None
      else Some (ob\<lparr>ob_pstr := map (\<lambda>(o', q'). (o', if o' = pos then q else q')) (ob_pstr ob)\<rparr>))"

text \<open>Storing the dl bytes of a value at offset p of the event.\<close>

definition dm_value ::
    "os_mem \<Rightarrow> rs_dm_pos_alloc_t \<Rightarrow> byte list \<Rightarrow> nat \<Rightarrow> u32 \<Rightarrow> slave_state \<Rightarrow> dm_obj \<Rightarrow>
     (rs_code \<times> slave_state \<times> dm_obj) option" where
  "dm_value os pa data p dl s ob =
     (if pa_pos pa = -1 then Some (RS_OK, s, ob)
      else if pa_alloc pa = RS_DM_DATA_STACK then do {
        v \<leftarrow> mem_read data p (unat dl);
        ob' \<leftarrow> obj_write ob (nat (pa_pos pa))
                 (if pa_type pa = RS_DM_TYPE_HEX then le_bytes 4 (unat dl) @ v else v);
        Some (RS_OK, s, ob') }
      else if pa_alloc pa = RS_DM_DATA_POOL then do {
        pool \<leftarrow> si_dpool s;
        idx \<leftarrow> rs_palloc_id pool dl;
        (d, pool') \<leftarrow> rs_palloc os pool dl idx;
        ob' \<leftarrow> obj_pstr ob (nat (pa_pos pa)) \<lparr>ps_len = ucast dl, ps_data = d, ps_id = idx\<rparr>;
        let s' = s\<lparr>si_dpool := Some pool'\<rparr>;
        case d of
          None \<Rightarrow> Some (RS_ERR, s', ob')
        | Some x \<Rightarrow> do {
            v \<leftarrow> mem_read data p (unat dl);
            if chunk_room pool' dl idx < unat dl then None
            else Some (RS_OK, s'\<lparr>sl_dheap := (sl_dheap s')(x \<mapsto> v)\<rparr>, ob') } }
      else Some (RS_ERR, s, ob))"

section \<open>Rows\<close>

text \<open>Bit i of a bitmap.\<close>

definition bitmap :: "byte list \<Rightarrow> nat \<Rightarrow> bool option" where
  "bitmap bs i = map_option (\<lambda>b. bit b (i mod 8)) (mem_get bs (i div 8))"

text \<open>
  One column. \<open>meta\<close> is the entry of the last column that had a value; the metadata pointer moves
  on by its length, also behind a column without a value, so that is undefined when there was none.
  The index of the bit in the NULL bitmap, \<^verbatim>\<open>j\<close>, is always \<^verbatim>\<open>i\<close>.
\<close>

record dm_cur =
  dc_p :: nat
  dc_cmp :: nat
  dc_meta :: "rs_binlog_column_meta_t option"

definition next_col :: "dm_cur \<Rightarrow> dm_cur option" where
  "next_col c = map_option (\<lambda>m. c\<lparr>dc_cmp := dc_cmp c + unat (meta_len m)\<rparr>) (dc_meta c)"

definition dm_column ::
    "os_mem \<Rightarrow> rs_dm_pos_alloc_t list \<Rightarrow> byte list \<Rightarrow> byte list \<Rightarrow> byte list \<Rightarrow> byte list \<Rightarrow> byte list \<Rightarrow> nat \<Rightarrow>
     dm_cur \<Rightarrow> slave_state \<Rightarrow> dm_obj \<Rightarrow> (rs_code \<times> dm_cur \<times> slave_state \<times> dm_obj) option" where
  "dm_column os pas data ct cm used nulls i c s ob = do {
     t \<leftarrow> mem_get ct i;
     u \<leftarrow> bitmap used i;
     n \<leftarrow> (if u then bitmap nulls i else Some False);
     if \<not> u \<or> n then do { c' \<leftarrow> next_col c; Some (RS_OK, c', s, ob) }
     else do {
       let m = rs_column_meta t;
       case parse_handle m of
         None \<Rightarrow> Some (RS_ERR, c, s, ob)
       | Some h \<Rightarrow> do {
           (p, dl) \<leftarrow> run_parse_handle h data (dc_p c) (drop (dc_cmp c) cm) (meta_len m) (fixed_len m);
           pa \<leftarrow> mem_get pas i;
           (r, s', ob') \<leftarrow> dm_value os pa data p dl s ob;
           if r \<noteq> RS_OK then Some (r, c, s', ob')
           else do {
             c' \<leftarrow> next_col (c\<lparr>dc_p := p + unat dl, dc_meta := Some m\<rparr>);
             Some (RS_OK, c', s', ob') } } } }"

fun dm_columns ::
    "os_mem \<Rightarrow> rs_dm_pos_alloc_t list \<Rightarrow> byte list \<Rightarrow> byte list \<Rightarrow> byte list \<Rightarrow> byte list \<Rightarrow> byte list \<Rightarrow> nat list \<Rightarrow>
     dm_cur \<Rightarrow> slave_state \<Rightarrow> dm_obj \<Rightarrow> (rs_code \<times> dm_cur \<times> slave_state \<times> dm_obj) option" where
  "dm_columns os pas data ct cm used nulls [] c s ob = Some (RS_OK, c, s, ob)"
| "dm_columns os pas data ct cm used nulls (i # is) c s ob = do {
     (r, c', s', ob') \<leftarrow> dm_column os pas data ct cm used nulls i c s ob;
     if r \<noteq> RS_OK then Some (r, c', s', ob')
     else dm_columns os pas data ct cm used nulls is c' s' ob' }"

text \<open>The functions of a table; a pointer may be NULL.\<close>

type_synonym rs_binlog_dm_func = "slave_state \<Rightarrow> dm_obj \<Rightarrow> (rs_code \<times> slave_state \<times> dm_obj) option"

record rs_dm_handlers =
  dh_before_parse :: "(dm_obj \<Rightarrow> dm_obj) option"
  dh_after_parse :: "(dm_obj \<Rightarrow> dm_obj) option"
  dh_write :: "rs_binlog_dm_func option"
  dh_before_update :: "rs_binlog_dm_func option"
  dh_update :: "rs_binlog_dm_func option"
  dh_delete :: "rs_binlog_dm_func option"
  dh_free :: "rs_binlog_dm_func option"

text \<open>A NULL handler does nothing.\<close>

definition call_dm :: "rs_binlog_dm_func option \<Rightarrow> rs_binlog_dm_func" where
  "call_dm h s ob = (case h of None \<Rightarrow> Some (RS_OK, s, ob) | Some f \<Rightarrow> f s ob)"

text \<open>The handler for the row and the next value of \<^verbatim>\<open>before\<close>; none for another event type.\<close>

definition pick_handler ::
    "rs_dm_handlers \<Rightarrow> byte \<Rightarrow> nat \<Rightarrow> (rs_binlog_dm_func option \<times> nat) option" where
  "pick_handler hs type before =
     (if type = 23 then Some (dh_write hs, before)
      else if type = 24
        then (if before = 1 then Some (dh_update hs, 0) else Some (dh_before_update hs, before + 1))
      else if type = 25 then Some (dh_delete hs, before)
      else None)"

definition dm_row ::
    "os_mem \<Rightarrow> rs_dm_handlers \<Rightarrow> rs_dm_pos_alloc_t list \<Rightarrow> byte list \<Rightarrow> byte list \<Rightarrow> byte list \<Rightarrow> byte list \<Rightarrow> byte list \<Rightarrow>
     u32 \<Rightarrow> u32 \<Rightarrow> byte \<Rightarrow> nat \<Rightarrow> nat \<Rightarrow> rs_binlog_column_meta_t option \<Rightarrow> slave_state \<Rightarrow> dm_obj \<Rightarrow>
     (rs_code \<times> nat \<times> nat \<times> rs_binlog_column_meta_t option \<times> slave_state \<times> dm_obj) option" where
  "dm_row os hs pas data ct cm used used2 un cn type p before meta s ob = do {
     let nn = (un * 8 + 7) div 8;
     nulls \<leftarrow> mem_read data p (unat nn);
     let ub = (if type \<noteq> 24 \<or> before = 0 then used else used2);
     let ob1 = (case dh_before_parse hs of None \<Rightarrow> ob | Some f \<Rightarrow> f ob);
     (r, c, s1, ob2) \<leftarrow> dm_columns os pas data ct cm ub nulls [0..<unat cn]
                          \<lparr>dc_p = p + unat nn, dc_cmp = 0, dc_meta = meta\<rparr> s ob1;
     if r \<noteq> RS_OK then Some (RS_ERR, dc_p c, before, dc_meta c, s1, ob2)
     else do {
       let ob3 = (case dh_after_parse hs of None \<Rightarrow> ob2 | Some f \<Rightarrow> f ob2);
       case pick_handler hs type before of
         None \<Rightarrow> Some (RS_ERR, dc_p c, before, dc_meta c, s1, ob3)
       | Some (h, before') \<Rightarrow> do {
           (r, s2, ob4) \<leftarrow> call_dm h s1 ob3;
           if r = RS_ERR then Some (RS_ERR, dc_p c, before', dc_meta c, s2, ob4)
           else do {
             (r, s3, ob5) \<leftarrow> call_dm (dh_free hs) s2 ob4;
             Some (if r = RS_ERR then RS_ERR else RS_OK, dc_p c, before', dc_meta c, s3, ob5) } } } }"

text \<open>
  The loop over the rows. A row that takes no bytes (no columns) makes it run for ever; the bound is
  then used up, which is None as well.
\<close>

fun dm_rows ::
    "nat \<Rightarrow> os_mem \<Rightarrow> rs_dm_handlers \<Rightarrow> rs_dm_pos_alloc_t list \<Rightarrow> byte list \<Rightarrow> nat \<Rightarrow> byte list \<Rightarrow> byte list \<Rightarrow> byte list \<Rightarrow> byte list \<Rightarrow>
     u32 \<Rightarrow> u32 \<Rightarrow> byte \<Rightarrow> nat \<Rightarrow> nat \<Rightarrow> rs_binlog_column_meta_t option \<Rightarrow> slave_state \<Rightarrow> dm_obj \<Rightarrow>
     (rs_code \<times> slave_state \<times> dm_obj) option" where
  "dm_rows n os hs pas data len ct cm used used2 un cn type p before meta s ob =
     (if \<not> p < len then Some (RS_OK, s, ob)
      else if n = 0 then None
      else do {
        (r, p', before', meta', s', ob') \<leftarrow>
          dm_row os hs pas data ct cm used used2 un cn type p before meta s ob;
        if r \<noteq> RS_OK then Some (r, s', ob')
        else dm_rows (n - 1) os hs pas data len ct cm used used2 un cn type p' before' meta' s' ob' })"

declare dm_rows.simps [simp del]

text \<open>Every row takes a byte at least, so len rounds are enough.\<close>

definition rs_dm_binlog_row ::
    "os_mem \<Rightarrow> slave_state \<Rightarrow> byte list \<Rightarrow> u32 \<Rightarrow> byte \<Rightarrow> rs_dm_handlers \<Rightarrow> rs_dm_pos_alloc_t list \<Rightarrow> dm_obj \<Rightarrow>
     (rs_code \<times> slave_state \<times> dm_obj) option" where
  "rs_dm_binlog_row os s data len type hs pas ob = do {
     b \<leftarrow> mem_read data 0 4;
     let cn = (set_low 0 b :: u32);
     ct \<leftarrow> mem_read data 4 (unat cn);
     let p = 4 + unat cn;
     b \<leftarrow> mem_read data p 4;
     let ml = (set_low 0 b :: u32);
     let p = p + 4;
     cm \<leftarrow> mem_read data p (unat ml);
     let p = p + unat ml + 8;
     (n, cl) \<leftarrow> rs_parse_packed_integer (drop p data);
     let cn = (ucast n :: u32);
     let p = p + unat cl;
     let un = (cn + 7) div 8;
     used \<leftarrow> mem_read data p (unat un);
     let p = p + unat un;
     used2 \<leftarrow> (if type = 24 then mem_read data p (unat un) else Some []);
     let p = (if type = 24 then p + unat un else p);
     dm_rows (unat len) os hs pas data (unat len) ct cm used used2 un cn type p 0 None s ob }"

section \<open>Columns as the server writes them\<close>

text \<open>
  A column is its type, its metadata and its value; these are the types whose values the parser
  takes as the server writes them.
\<close>

definition col_prefix :: "byte \<Rightarrow> byte list \<Rightarrow> byte list \<Rightarrow> byte list" where
  "col_prefix t m v =
     (if t = 15 then le_bytes (if le_nat m < 256 then 1 else 2) (length v)
      else if t = 252 \<or> t = 255 then le_bytes (le_nat m) (length v)
      else if t = 254 then le_bytes 1 (length v)
      else [])"

definition col_ok :: "byte \<Rightarrow> byte list \<Rightarrow> byte list \<Rightarrow> bool" where
  "col_ok t m v \<longleftrightarrow> length m = unat (meta_len (rs_column_meta t)) \<and>
     (case parse_handle (rs_column_meta t) of
        Some Parse_def \<Rightarrow> length v = unat (fixed_len (rs_column_meta t))
      | Some Parse_varchar \<Rightarrow> length v \<le> le_nat m
      | Some Parse_blob \<Rightarrow> le_nat m \<in> {1, 2, 3, 4} \<and> length v < 256 ^ le_nat m
      | Some Parse_string \<Rightarrow> m ! 0 = 254 \<and> length v \<le> unat (m ! 1)
      | Some Parse_decimal \<Rightarrow>
          rs_binlog_decimal_binsize (ucast (m ! 0)) (ucast (m ! 1)) = Some (of_nat (length v)) \<and> length v < 2 ^ 32
      | _ \<Rightarrow> False)"

lemma length_prefix_ok:
  assumes "data = a @ le_bytes n k @ b" and "n \<le> 4" and "k < 256 ^ n"
  shows "length_prefix data (length a) n = Some (length a + n, of_nat k)"
  using assms mem_read_append [of a "length a" "le_bytes n k" n b]
  by (simp add: length_prefix_def set_low_zero le_nat_le_bytes)

lemma column_types:
  "parse_handle (rs_column_meta t) = Some Parse_varchar \<longleftrightarrow> t = 15"
  "parse_handle (rs_column_meta t) = Some Parse_blob \<longleftrightarrow> t = 252 \<or> t = 255"
  "parse_handle (rs_column_meta t) = Some Parse_string \<longleftrightarrow> t = 254"
  "parse_handle (rs_column_meta t) = Some Parse_decimal \<longleftrightarrow> t = 246"
  by (simp_all add: rs_column_meta_def column_meta_def)

lemma def_no_prefix: "parse_handle (rs_column_meta t) \<notin> {Some Parse_varchar, Some Parse_blob, Some Parse_string} \<Longrightarrow> col_prefix t m v = []"
  by (auto simp: col_prefix_def column_types)

lemma meta_lens: "meta_len (rs_column_meta 15) = 2" "meta_len (rs_column_meta 252) = 1" "meta_len (rs_column_meta 255) = 1"
  "meta_len (rs_column_meta 254) = 2" "meta_len (rs_column_meta 246) = 2"
  by (simp_all add: rs_column_meta_def column_meta_def)

lemma two_bytes: "length m = 2 \<Longrightarrow> \<exists>x y. m = [x, y]"
  by (cases m; cases "tl m") auto

lemma parse_col:
  assumes ok: "col_ok t m v" and data: "data = a @ col_prefix t m v @ v @ b"
  shows "\<exists>h. parse_handle (rs_column_meta t) = Some h \<and>
    run_parse_handle h data (length a) (m @ r) (meta_len (rs_column_meta t)) (fixed_len (rs_column_meta t)) =
      Some (length a + length (col_prefix t m v), of_nat (length v)) \<and> length v < 2 ^ 32"
proof -
  let ?c = "rs_column_meta t"
  have len: "length m = unat (meta_len ?c)" using ok by (simp add: col_ok_def)
  show ?thesis
  proof (cases "parse_handle ?c")
    case None
    with ok show ?thesis by (simp add: col_ok_def)
  next
    case (Some h)
    show ?thesis
    proof (cases h)
      case Parse_def
      with ok Some have "length v = unat (fixed_len ?c)" by (simp add: col_ok_def)
      moreover have "col_prefix t m v = []" by (rule def_no_prefix) (simp add: Some Parse_def)
      ultimately show ?thesis using Some Parse_def unsigned_less [of "fixed_len ?c", where ?'a = nat]
        by (simp add: run_parse_handle_def rs_binlog_parse_def_def)
    next
      case Parse_varchar
      with Some have t: "t = 15" using column_types(1) [of t] by simp
      have l: "length v \<le> le_nat m" "length m = 2" using ok Some Parse_varchar len t meta_lens by (simp_all add: col_ok_def)
      have big: "le_nat m < 65536" using le_nat_bound [of m] l(2) by simp
      let ?n = "if le_nat m < 256 then 1 else (2 :: nat)"
      have max: "set_low 0 m < (256 :: u32) \<longleftrightarrow> le_nat m < 256"
        using big by (simp add: set_low_zero word_less_nat_alt unat_of_nat)
      have "length_prefix data (length a) ?n = Some (length a + ?n, of_nat (length v))"
        by (rule length_prefix_ok [of _ _ _ _ "v @ b"]) (use data t l big in \<open>auto simp: col_prefix_def\<close>)
      then show ?thesis using Some Parse_varchar l big max t
        by (simp add: run_parse_handle_def rs_binlog_parse_varchar_def mem_read_def meta_lens col_prefix_def Let_def)
    next
      case Parse_bit
      with ok Some show ?thesis by (simp add: col_ok_def)
    next
      case Parse_blob
      with Some have t: "t = 252 \<or> t = 255" using column_types(2) [of t] by simp
      then have ml: "meta_len ?c = 1" using meta_lens by auto
      have l: "le_nat m \<in> {1, 2, 3, 4}" "length v < 256 ^ le_nat m" using ok Some Parse_blob by (auto simp: col_ok_def)
      have lm: "length m = 1" using len ml by simp
      have "length_prefix data (length a) (le_nat m) = Some (length a + le_nat m, of_nat (length v))"
        by (rule length_prefix_ok [of _ _ _ _ "v @ b"]) (use data t l in \<open>auto simp: col_prefix_def\<close>)
      moreover have "unat (set_low 0 m :: u32) = le_nat m" using l(1) by (auto simp: set_low_zero unat_of_nat)
      moreover have "col_prefix t m v = le_bytes (le_nat m) (length v)" using t by (auto simp: col_prefix_def)
      moreover have "length v < 2 ^ 32"
      proof -
        have "(256 :: nat) ^ le_nat m \<le> 256 ^ 4" using l(1) by (intro power_increasing) auto
        with l(2) show ?thesis by simp
      qed
      ultimately show ?thesis using Some Parse_blob lm ml
        by (simp add: run_parse_handle_def rs_binlog_parse_blob_def mem_read_def)
    next
      case Parse_varstring
      with ok Some show ?thesis by (simp add: col_ok_def)
    next
      case Parse_string
      with Some have t: "t = 254" using column_types(3) [of t] by simp
      have l: "m ! 0 = 254" "length v \<le> unat (m ! 1)" "length m = 2"
        using ok Some Parse_string len t meta_lens by (simp_all add: col_ok_def)
      then obtain y where m: "m = [254, y]" using two_bytes [of m] by auto
      have y: "unat y < 256" using unsigned_less [of y, where ?'a = nat] by simp
      have "length_prefix data (length a) 1 = Some (length a + 1, of_nat (length v))"
        by (rule length_prefix_ok [of _ _ _ _ "v @ b"]) (use data t l m y in \<open>auto simp: col_prefix_def\<close>)
      moreover have "(254 :: byte) AND 0x30 = 0x30" by simp
      moreover have "(ucast y :: u32) < 256" using y by (simp add: word_less_nat_alt unsigned_ucast_eq take_bit_nat_eq_self)
      ultimately show ?thesis using Some Parse_string l m y t
        by (simp add: run_parse_handle_def rs_binlog_parse_string_def mem_get_def col_prefix_def Let_def)
    next
      case Parse_decimal
      with Some have t: "t = 246" using column_types(4) [of t] by simp
      have l: "rs_binlog_decimal_binsize (ucast (m ! 0)) (ucast (m ! 1)) = Some (of_nat (length v))"
        "length v < 2 ^ 32" "length m = 2"
        using ok Some Parse_decimal len t meta_lens by (simp_all add: col_ok_def)
      then obtain x y where m: "m = [x, y]" using two_bytes [of m] by auto
      have "col_prefix t m v = []" by (rule def_no_prefix) (simp add: Some Parse_decimal)
      with l m Some Parse_decimal show ?thesis
        by (simp add: run_parse_handle_def rs_binlog_parse_decimal_def mem_get_def)
    qed
  qed
qed

section \<open>Rows as the server writes them\<close>

type_synonym column = "byte \<times> byte list \<times> byte list"

definition col_bytes :: "column \<Rightarrow> byte list" where
  "col_bytes c = (case c of (t, m, v) \<Rightarrow> col_prefix t m v @ v)"

definition cols_ok :: "column list \<Rightarrow> bool" where
  "cols_ok cols \<longleftrightarrow> (\<forall>(t, m, v) \<in> set cols. col_ok t m v)"

text \<open>What the program should do with the values of a row: store each where the table wants it.\<close>

fun store_columns ::
    "os_mem \<Rightarrow> rs_dm_pos_alloc_t list \<Rightarrow> column list \<Rightarrow> slave_state \<Rightarrow> dm_obj \<Rightarrow> (rs_code \<times> slave_state \<times> dm_obj) option" where
  "store_columns os pas [] s ob = Some (RS_OK, s, ob)"
| "store_columns os pas ((t, m, v) # cs) s ob =
     (case pas of
        [] \<Rightarrow> None
      | pa # pas' \<Rightarrow> do {
          (r, s', ob') \<leftarrow> dm_value os pa v 0 (of_nat (length v)) s ob;
          if r \<noteq> RS_OK then Some (r, s', ob') else store_columns os pas' cs s' ob' })"

text \<open>Where a value is read from does not matter.\<close>

lemma dm_value_cong:
  assumes "mem_read data p (unat dl) = mem_read data' p' (unat dl)"
  shows "dm_value os pa data p dl s ob = dm_value os pa data' p' dl s ob"
  by (simp only: dm_value_def assms Let_def cong: option.case_cong)

lemma dm_value_at:
  assumes "data = a @ v @ b" and "length v < 2 ^ 32"
  shows "dm_value os pa data (length a) (of_nat (length v)) s ob = dm_value os pa v 0 (of_nat (length v)) s ob"
proof -
  have n: "unat (of_nat (length v) :: u32) = length v" using assms(2) by (simp add: unat_of_nat)
  have "mem_read data (length a) (length v) = Some v" "mem_read v 0 (length v) = Some v"
    using mem_read_append [of a "length a" v "length v" b] assms(1) by (simp_all add: mem_read_def)
  then show ?thesis by (intro dm_value_cong) (simp add: n)
qed

lemma dm_columns_store:
  assumes "cols_ok cols" and "data = a @ concat (map col_bytes cols) @ b"
    and "ct = ct1 @ map fst cols @ ct2" and "cm = cm1 @ concat (map (\<lambda>(t, m, v). m) cols) @ cm2"
    and "length ct1 = i" and "i + length cols \<le> n"
    and "\<forall>j<n. bitmap used j = Some True" and "\<forall>j<n. bitmap nulls j = Some False"
  shows "\<exists>c'. dm_columns os pas data ct cm used nulls [i..<i + length cols] \<lparr>dc_p = length a, dc_cmp = length cm1, dc_meta = mt\<rparr> s ob =
      map_option (\<lambda>(r, s', ob'). (r, c', s', ob')) (store_columns os (drop i pas) cols s ob) \<and>
    (\<forall>s' ob'. store_columns os (drop i pas) cols s ob = Some (RS_OK, s', ob') \<longrightarrow>
      dc_p c' = length a + length (concat (map col_bytes cols)))"
  using assms
proof (induction cols arbitrary: a ct1 cm1 i mt s ob)
  case Nil
  then show ?case by (intro exI) auto
next
  case (Cons col cols)
  obtain t m v where col: "col = (t, m, v)" by (cases col)
  let ?c = "rs_column_meta t" and ?b = "concat (map col_bytes cols) @ b"
  have ok: "col_ok t m v" "cols_ok cols" using Cons.prems(1) by (auto simp: cols_ok_def col)
  have data: "data = a @ col_prefix t m v @ v @ ?b" using Cons.prems(2) by (simp add: col col_bytes_def [of "(t, m, v)"])
  have i: "i < n" using Cons.prems(6) by simp
  have ct: "mem_get ct i = Some t" using Cons.prems(3,5) by (auto simp: mem_get_def col nth_append)
  have bits: "bitmap used i = Some True" "bitmap nulls i = Some False" using Cons.prems(7,8) i by simp_all
  let ?cm2 = "concat (map (\<lambda>(t, m, v). m) cols) @ cm2"
  have cm: "drop (length cm1) cm = m @ ?cm2" using Cons.prems(4) by (simp add: col)
  from parse_col [OF ok(1) data, of ?cm2] obtain h where h: "parse_handle ?c = Some h"
    and run: "run_parse_handle h data (length a) (m @ ?cm2) (meta_len ?c) (fixed_len ?c) =
      Some (length a + length (col_prefix t m v), of_nat (length v))" and short: "length v < 2 ^ 32" by blast
  let ?a' = "a @ col_prefix t m v"
  have val: "dm_value os pa data (length ?a') (of_nat (length v)) s ob = dm_value os pa v 0 (of_nat (length v)) s ob" for pa
    by (rule dm_value_at [OF _ short, of _ _ ?b]) (simp add: data)
  have n: "unat (of_nat (length v) :: u32) = length v" using short by (simp add: unat_of_nat)
  have ml: "unat (meta_len ?c) = length m" using ok(1) by (simp add: col_ok_def)
  let ?from = "\<lparr>dc_p = length a, dc_cmp = length cm1, dc_meta = mt\<rparr>"
  let ?to = "\<lparr>dc_p = length (?a' @ v), dc_cmp = length (cm1 @ m), dc_meta = Some ?c\<rparr>"
  have column: "dm_column os pas data ct cm used nulls i ?from s ob = do {
       pa \<leftarrow> mem_get pas i;
       (r, s', ob') \<leftarrow> dm_value os pa v 0 (of_nat (length v)) s ob;
       Some (if r \<noteq> RS_OK then (r, ?from, s', ob') else (RS_OK, ?to, s', ob')) }"
    using val unfolding dm_column_def
    by (simp add: ct bits h run cm n ml next_col_def cong: if_cong)
      (auto intro!: Option.bind_cong simp: add.assoc)
  have idx: "[i..<i + length (col # cols)] = i # [Suc i..<Suc i + length cols]"
    using upt_conv_Cons [of i "i + length (col # cols)"] by simp
  show ?case
  proof (cases "drop i pas")
    case Nil
    then have "mem_get pas i = None" by (simp add: mem_get_def)
    then show ?thesis unfolding idx unfolding col Nil by (simp add: column)
  next
    case (Cons pa pas')
    then have pa: "mem_get pas i = Some pa" and rest: "drop (Suc i) pas = pas'"
      by (auto simp: mem_get_def nth_via_drop drop_Suc tl_drop [symmetric] dest: arg_cong [of _ _ length])
    show ?thesis
    proof (cases "dm_value os pa v 0 (of_nat (length v)) s ob")
      case None
      then show ?thesis unfolding idx unfolding col Cons by (simp add: column pa)
    next
      case (Some x)
      obtain r s1 ob1 where x: "x = (r, s1, ob1)" by (cases x)
      show ?thesis
      proof (cases "r = RS_OK")
        case False
        then show ?thesis unfolding idx unfolding col Cons by (simp add: column pa Some x)
      next
        case True
        have "\<exists>c'. dm_columns os pas data ct cm used nulls [Suc i..<Suc i + length cols] ?to s1 ob1 =
            map_option (\<lambda>(r, s', ob'). (r, c', s', ob')) (store_columns os (drop (Suc i) pas) cols s1 ob1) \<and>
          (\<forall>s' ob'. store_columns os (drop (Suc i) pas) cols s1 ob1 = Some (RS_OK, s', ob') \<longrightarrow>
            dc_p c' = length (?a' @ v) + length (concat (map col_bytes cols)))"
          by (rule Cons.IH [of "?a' @ v" "ct1 @ [t]" "cm1 @ m" "Suc i"])
            (use Cons.prems ok data col in \<open>simp_all del: upt_Suc\<close>)
        then obtain c' where tail: "dm_columns os pas data ct cm used nulls [Suc i..<Suc i + length cols] ?to s1 ob1 =
            map_option (\<lambda>(r, s', ob'). (r, c', s', ob')) (store_columns os (drop (Suc i) pas) cols s1 ob1)"
          and pos: "\<And>s' ob'. store_columns os (drop (Suc i) pas) cols s1 ob1 = Some (RS_OK, s', ob') \<Longrightarrow>
            dc_p c' = length (?a' @ v) + length (concat (map col_bytes cols))" by blast
        have head: "dm_columns os pas data ct cm used nulls (i # [Suc i..<Suc i + length cols]) ?from s ob =
            map_option (\<lambda>(r, s', ob'). (r, c', s', ob')) (store_columns os (drop i pas) ((t, m, v) # cols) s ob)"
          using tail unfolding Cons by (simp add: column pa Some x True rest del: upt_Suc)
        have "dc_p c' = length a + length (concat (map col_bytes ((t, m, v) # cols)))"
          if "store_columns os (drop i pas) ((t, m, v) # cols) s ob = Some (RS_OK, s', ob')" for s' ob'
          using pos [of s' ob'] that by (simp add: Cons Some x True rest col_bytes_def [of "(t, m, v)"])
        with head show ?thesis unfolding idx unfolding col by blast
      qed
    qed
  qed
qed

section \<open>Rows as the server writes them: the event\<close>

text \<open>A row is its NULL bitmap and its columns.\<close>

type_synonym row = "byte list \<times> column list"

definition row_ok :: "byte list \<Rightarrow> byte list \<Rightarrow> row \<Rightarrow> bool" where
  "row_ok ct cm r \<longleftrightarrow> (case r of (nulls, cols) \<Rightarrow>
     cols_ok cols \<and> map fst cols = ct \<and> concat (map (\<lambda>(t, m, v). m) cols) = cm \<and>
     length nulls = (length ct + 7) div 8 \<and> (\<forall>j<length ct. bitmap nulls j = Some False))"

definition row_image :: "row \<Rightarrow> byte list" where
  "row_image r = fst r @ concat (map col_bytes (snd r))"

text \<open>
  What is promised for a row: its values are stored, its handler runs on the struct, what the
  struct holds is freed. For several rows, in their order, up to the first that fails.
\<close>

definition deliver ::
    "os_mem \<Rightarrow> rs_dm_handlers \<Rightarrow> rs_dm_pos_alloc_t list \<Rightarrow> rs_binlog_dm_func option \<Rightarrow> column list \<Rightarrow>
     slave_state \<Rightarrow> dm_obj \<Rightarrow> (rs_code \<times> slave_state \<times> dm_obj) option" where
  "deliver os hs pas h cols s ob = do {
     (r, s1, ob1) \<leftarrow> store_columns os pas cols s (case dh_before_parse hs of None \<Rightarrow> ob | Some f \<Rightarrow> f ob);
     if r \<noteq> RS_OK then Some (RS_ERR, s1, ob1)
     else do {
       (r, s2, ob2) \<leftarrow> call_dm h s1 (case dh_after_parse hs of None \<Rightarrow> ob1 | Some f \<Rightarrow> f ob1);
       if r = RS_ERR then Some (RS_ERR, s2, ob2)
       else do {
         (r, s3, ob3) \<leftarrow> call_dm (dh_free hs) s2 ob2;
         Some (if r = RS_ERR then RS_ERR else RS_OK, s3, ob3) } } }"

fun deliver_all ::
    "os_mem \<Rightarrow> rs_dm_handlers \<Rightarrow> rs_dm_pos_alloc_t list \<Rightarrow> (rs_binlog_dm_func option \<times> column list) list \<Rightarrow>
     slave_state \<Rightarrow> dm_obj \<Rightarrow> (rs_code \<times> slave_state \<times> dm_obj) option" where
  "deliver_all os hs pas [] s ob = Some (RS_OK, s, ob)"
| "deliver_all os hs pas ((h, cols) # rest) s ob = do {
     (r, s', ob') \<leftarrow> deliver os hs pas h cols s ob;
     if r \<noteq> RS_OK then Some (r, s', ob') else deliver_all os hs pas rest s' ob' }"

text \<open>The handler of each row of an event.\<close>

fun assign_handlers ::
    "rs_dm_handlers \<Rightarrow> byte \<Rightarrow> nat \<Rightarrow> row list \<Rightarrow> (rs_binlog_dm_func option \<times> column list) list" where
  "assign_handlers hs type before [] = []"
| "assign_handlers hs type before (r # rs) =
     (case pick_handler hs type before of
        None \<Rightarrow> []
      | Some (h, before') \<Rightarrow> (h, snd r) # assign_handlers hs type before' rs)"

lemma bitmap_width: "length ct \<le> 250 \<Longrightarrow> unat ((of_nat (length ct) + 7) div 8 :: u32) = (length ct + 7) div 8"
  by (simp add: unat_div_distrib unat_word_ariths unat_of_nat)

lemma null_width: "length ct \<le> 250 \<Longrightarrow> unat (((of_nat (length ct) + 7) div 8 * 8 + 7) div 8 :: u32) = (length ct + 7) div 8"
  by (simp add: unat_div_distrib unat_word_ariths bitmap_width unat_of_nat)

lemma handlers_out:
  "do { (q, s2, ob2) \<leftarrow> call_dm h s1 ob1;
        if q = RS_ERR then Some (RS_ERR, p, b, m, s2, ob2)
        else do {
          (q, s3, ob3) \<leftarrow> call_dm f s2 ob2;
          Some (if q = RS_ERR then RS_ERR else RS_OK, p, b, m, s3, ob3) } } =
   map_option (\<lambda>(q, s', ob'). (q, p, b, m, s', ob'))
     (do { (q, s2, ob2) \<leftarrow> call_dm h s1 ob1;
        if q = RS_ERR then Some (RS_ERR, s2, ob2)
        else do {
          (q, s3, ob3) \<leftarrow> call_dm f s2 ob2;
          Some (if q = RS_ERR then RS_ERR else RS_OK, s3, ob3) } })"
  by (auto split: Option.bind_splits)

lemma dm_row_deliver:
  assumes row: "row_ok ct cm r" and data: "data = a @ row_image r @ b" and cn: "length ct \<le> 250"
    and used: "\<forall>j<length ct. bitmap used j = Some True" "type = 24 \<Longrightarrow> \<forall>j<length ct. bitmap used2 j = Some True"
    and h: "pick_handler hs type before = Some (h, before')"
  shows "\<exists>p' b' m'. dm_row os hs pas data ct cm used used2 ((of_nat (length ct) + 7) div 8) (of_nat (length ct))
        type (length a) before mt s ob =
      map_option (\<lambda>(q, s', ob'). (q, p', b', m', s', ob')) (deliver os hs pas h (snd r) s ob) \<and>
    (\<forall>s' ob'. deliver os hs pas h (snd r) s ob = Some (RS_OK, s', ob') \<longrightarrow>
      p' = length (a @ row_image r) \<and> b' = before')"
proof -
  obtain nulls cols where r: "r = (nulls, cols)" by (cases r)
  have ok: "cols_ok cols" "map fst cols = ct" "concat (map (\<lambda>(t, m, v). m) cols) = cm"
    "length nulls = (length ct + 7) div 8" "\<forall>j<length ct. bitmap nulls j = Some False"
    using row by (simp_all add: row_ok_def r)
  let ?ub = "if type \<noteq> 24 \<or> before = 0 then used else used2"
  let ?ob = "case dh_before_parse hs of None \<Rightarrow> ob | Some f \<Rightarrow> f ob"
  have n: "length cols = length ct" using ok(2) by (metis length_map)
  have ub: "\<forall>j<length ct. bitmap ?ub j = Some True" using used by simp
  have cnu: "unat (of_nat (length ct) :: u32) = length ct" using cn by (simp add: unat_of_nat)
  have nr: "mem_read data (length a) ((length ct + 7) div 8) = Some nulls"
    by (rule mem_read_split) (use data ok in \<open>simp_all add: row_image_def r\<close>)
  have "data = (a @ nulls) @ concat (map col_bytes cols) @ b" using data by (simp add: row_image_def r)
  from dm_columns_store [OF ok(1) this, of ct "[]" "[]" cm "[]" "[]" 0 "length ct" ?ub nulls os pas mt s ?ob,
      OF _ _ _ _ ub ok(5)] ok(2,3) n
  have "\<exists>c. dm_columns os pas data ct cm ?ub nulls [0..<length ct] \<lparr>dc_p = length (a @ nulls), dc_cmp = 0, dc_meta = mt\<rparr> s ?ob =
      map_option (\<lambda>(r, s', ob'). (r, c, s', ob')) (store_columns os pas cols s ?ob) \<and>
    (\<forall>s' ob'. store_columns os pas cols s ?ob = Some (RS_OK, s', ob') \<longrightarrow>
      dc_p c = length (a @ nulls) + length (concat (map col_bytes cols)))"
    by (simp del: length_append)
  then obtain c where c: "dm_columns os pas data ct cm ?ub nulls [0..<length ct]
        \<lparr>dc_p = length (a @ nulls), dc_cmp = 0, dc_meta = mt\<rparr> s ?ob =
      map_option (\<lambda>(r, s', ob'). (r, c, s', ob')) (store_columns os pas cols s ?ob)"
    and pos: "\<And>s' ob'. store_columns os pas cols s ?ob = Some (RS_OK, s', ob') \<Longrightarrow>
      dc_p c = length (a @ nulls) + length (concat (map col_bytes cols))"
    by blast
  have run: "dm_row os hs pas data ct cm used used2 ((of_nat (length ct) + 7) div 8) (of_nat (length ct))
        type (length a) before mt s ob = do {
      (q, s1, ob1) \<leftarrow> store_columns os pas cols s ?ob;
      if q \<noteq> RS_OK then Some (RS_ERR, dc_p c, before, dc_meta c, s1, ob1)
      else do {
        (q, s2, ob2) \<leftarrow> call_dm h s1 (case dh_after_parse hs of None \<Rightarrow> ob1 | Some f \<Rightarrow> f ob1);
        if q = RS_ERR then Some (RS_ERR, dc_p c, before', dc_meta c, s2, ob2)
        else do {
          (q, s3, ob3) \<leftarrow> call_dm (dh_free hs) s2 ob2;
          Some (if q = RS_ERR then RS_ERR else RS_OK, dc_p c, before', dc_meta c, s3, ob3) } } }"
    unfolding dm_row_def using c
    by (simp add: null_width [OF cn] cnu nr ok(4) h Let_def cong: if_cong) (cases "store_columns os pas cols s ?ob"; auto)
  show ?thesis
  proof (cases "store_columns os pas cols s ?ob")
    case None
    then show ?thesis by (simp add: run deliver_def r)
  next
    case (Some x)
    obtain q s1 ob1 where x: "x = (q, s1, ob1)" by (cases x)
    show ?thesis
    proof (cases "q = RS_OK")
      case False
      then show ?thesis using Some x by (auto simp: run deliver_def r)
    next
      case True
      then have "dc_p c = length (a @ row_image r)" using pos Some x by (simp add: row_image_def r)
      then show ?thesis using Some x True
        by (simp add: run deliver_def r handlers_out) blast
    qed
  qed
qed

lemma row_image_nonempty:
  assumes "row_ok ct cm r" and "0 < length ct"
  shows "0 < length (row_image r)"
proof -
  have "length (fst r) = (length ct + 7) div 8" using assms(1) by (auto simp: row_ok_def)
  moreover have "0 < (length ct + 7) div 8"
    by (subst div_greater_zero_iff) (intro conjI; use assms(2) in linarith)
  ultimately show ?thesis by (simp add: row_image_def)
qed

text \<open>Every row takes a byte at least, so a bound of the number of rows is enough.\<close>

lemma dm_rows_deliver:
  assumes "\<forall>r \<in> set rows. row_ok ct cm r" and "data = a @ concat (map row_image rows)"
    and ct: "0 < length ct" "length ct \<le> 250" and "length rows \<le> n" and type: "type \<in> {23, 24, 25}"
    and used: "\<forall>j<length ct. bitmap used j = Some True" "type = 24 \<Longrightarrow> \<forall>j<length ct. bitmap used2 j = Some True"
  shows "dm_rows n os hs pas data (length data) ct cm used used2 ((of_nat (length ct) + 7) div 8) (of_nat (length ct))
      type (length a) before mt s ob = deliver_all os hs pas (assign_handlers hs type before rows) s ob"
  using assms(1,2,5)
proof (induction rows arbitrary: a n before mt s ob)
  case Nil
  then show ?case by (simp add: dm_rows.simps)
next
  case (Cons r rows)
  let ?b = "concat (map row_image rows)"
  have row: "row_ok ct cm r" and data: "data = a @ row_image r @ ?b" and n: "n \<noteq> 0" "length rows \<le> n - 1"
    using Cons.prems by auto
  have "0 < length (row_image r)" using row ct by (intro row_image_nonempty)
  then have more: "length a < length data" by (simp add: data)
  obtain h before' where h: "pick_handler hs type before = Some (h, before')"
    using type by (cases "pick_handler hs type before") (auto simp: pick_handler_def split: if_splits)
  obtain p' b' m' where run: "dm_row os hs pas data ct cm used used2 ((of_nat (length ct) + 7) div 8) (of_nat (length ct))
        type (length a) before mt s ob =
      map_option (\<lambda>(q, s', ob'). (q, p', b', m', s', ob')) (deliver os hs pas h (snd r) s ob)"
    and after: "\<And>s' ob'. deliver os hs pas h (snd r) s ob = Some (RS_OK, s', ob') \<Longrightarrow>
      p' = length (a @ row_image r) \<and> b' = before'"
    using dm_row_deliver [OF row data ct(2) used h] by blast
  show ?case
  proof (cases "deliver os hs pas h (snd r) s ob")
    case None
    then show ?thesis using more n by (simp add: dm_rows.simps [of n] h run)
  next
    case (Some x)
    obtain q s' ob' where x: "x = (q, s', ob')" by (cases x)
    show ?thesis
    proof (cases "q = RS_OK")
      case False
      then show ?thesis using more n Some x by (simp add: dm_rows.simps [of n] h run)
    next
      case True
      have p: "p' = length (a @ row_image r)" "b' = before'" using after Some x True by blast+
      have "dm_rows (n - 1) os hs pas data (length data) ct cm used used2 ((of_nat (length ct) + 7) div 8)
          (of_nat (length ct)) type (length (a @ row_image r)) before' m' s' ob' =
        deliver_all os hs pas (assign_handlers hs type before' rows) s' ob'"
        by (rule Cons.IH) (use Cons.prems data n in simp_all)
      then show ?thesis using more n Some x True p by (simp add: dm_rows.simps [of n] h run)
    qed
  qed
qed

text \<open>
  A row event as the master sends it: the types and the metadata of the columns, then the event's
  table id and flags, the number of columns, the bitmaps of the columns used and the rows.
\<close>

definition rows_message :: "byte list \<Rightarrow> byte list \<Rightarrow> byte list \<Rightarrow> byte list \<Rightarrow> byte list \<Rightarrow> row list \<Rightarrow> byte list" where
  "rows_message ct cm pre used used2 rows =
     le_bytes 4 (length ct) @ ct @ le_bytes 4 (length cm) @ cm @ pre @ of_nat (length ct) # used @ used2 @
     concat (map row_image rows)"

definition rows_event_ok :: "byte \<Rightarrow> byte list \<Rightarrow> byte list \<Rightarrow> byte list \<Rightarrow> byte list \<Rightarrow> byte list \<Rightarrow> row list \<Rightarrow> bool" where
  "rows_event_ok type ct cm pre used used2 rows \<longleftrightarrow>
     type \<in> {23, 24, 25} \<and> 0 < length ct \<and> length ct \<le> 250 \<and> length cm < 2 ^ 32 \<and> length pre = 8 \<and>
     length used = (length ct + 7) div 8 \<and> (\<forall>j<length ct. bitmap used j = Some True) \<and>
     (if type = 24 then length used2 = (length ct + 7) div 8 \<and> (\<forall>j<length ct. bitmap used2 j = Some True)
      else used2 = []) \<and>
     (\<forall>r \<in> set rows. row_ok ct cm r) \<and> length (rows_message ct cm pre used used2 rows) < 2 ^ 32"

lemma rows_fit: "\<forall>r \<in> set rows. row_ok ct cm r \<Longrightarrow> 0 < length ct \<Longrightarrow> length rows \<le> length (concat (map row_image rows))"
proof (induction rows)
  case (Cons r rows)
  then show ?case using row_image_nonempty [of ct cm r] by (simp del: length_greater_0_conv)
qed simp

lemma row_event_header:
  assumes ok: "rows_event_ok type ct cm pre used used2 []"
    and data: "data = rows_message ct cm pre used used2 [] @ body" "length data < 2 ^ 32"
  shows "rs_dm_binlog_row os s data (of_nat (length data)) type hs pas ob =
    dm_rows (length data) os hs pas data (length data) ct cm used used2 ((of_nat (length ct) + 7) div 8)
      (of_nat (length ct)) type (length (rows_message ct cm pre used used2 [])) 0 None s ob"
proof -
  note o = ok [unfolded rows_event_ok_def]
  have cn: "length ct < 2 ^ 32" "length ct \<le> 250" "length cm < 2 ^ 32" "length pre = 8" using o by auto
  let ?un = "(length ct + 7) div 8"
  have d: "data = le_bytes 4 (length ct) @ ct @ le_bytes 4 (length cm) @ cm @ pre @ [of_nat (length ct)] @ used @ used2 @ body"
    by (simp add: data rows_message_def)
  have u: "unat (of_nat (length ct) :: u32) = length ct" "unat (of_nat (length cm) :: u32) = length cm"
    using cn by (simp_all add: unat_of_nat)
  have s: "set_low 0 (le_bytes 4 (length ct)) = (of_nat (length ct) :: u32)"
    "set_low 0 (le_bytes 4 (length cm)) = (of_nat (length cm) :: u32)"
    using cn by (simp_all add: set_low_zero le_nat_le_bytes)
  let ?q = "4 + length ct + 4 + length cm + 8"
  have r: "mem_read data 0 4 = Some (le_bytes 4 (length ct))" "mem_read data 4 (length ct) = Some ct"
    "mem_read data (4 + length ct) 4 = Some (le_bytes 4 (length cm))"
    "mem_read data (4 + length ct + 4) (length cm) = Some cm"
    "mem_read data (?q + 1) ?un = Some used"
    subgoal by (rule mem_read_split [of _ "[]"], subst d) auto
    subgoal by (rule mem_read_split [of _ "le_bytes 4 (length ct)"], subst d) auto
    subgoal by (rule mem_read_split [of _ "le_bytes 4 (length ct) @ ct"], subst d) auto
    subgoal by (rule mem_read_split [of _ "le_bytes 4 (length ct) @ ct @ le_bytes 4 (length cm)"], subst d) auto
    subgoal by (rule mem_read_split [of _ "le_bytes 4 (length ct) @ ct @ le_bytes 4 (length cm) @ cm @ pre @ [of_nat (length ct)]"],
        subst d) (use o in auto)
    done
  have r2: "(if type = 24 then mem_read data (?q + 1 + ?un) ?un else Some []) = Some used2"
    using o by (cases "type = 24")
      (auto intro!: mem_read_split [of _ "le_bytes 4 (length ct) @ ct @ le_bytes 4 (length cm) @ cm @ pre @ [of_nat (length ct)] @ used"] simp: d)
  have "drop ?q data = of_nat (length ct) # used @ used2 @ body"
    by (rule drop_split [of _ "le_bytes 4 (length ct) @ ct @ le_bytes 4 (length cm) @ cm @ pre"]) (simp_all add: d cn)
  then have p: "rs_parse_packed_integer (drop ?q data) = Some (of_nat (length ct), 1)"
    using packed_small [OF cn(2)] by simp
  have c: "(ucast (of_nat (length ct) :: u64) :: u32) = of_nat (length ct)"
    by (rule word_unat_eq_iff [THEN iffD2]) (use cn in \<open>simp add: unsigned_ucast_eq unat_of_nat take_bit_eq_mod\<close>)
  have at: "(if type = 24 then ?q + 1 + ?un + ?un else ?q + 1 + ?un) = length (rows_message ct cm pre used used2 [])"
    using o by (cases "type = 24") (simp_all add: rows_message_def)
  have dl: "unat (of_nat (length data) :: u32) = length data" using data(2) by (simp add: unat_of_nat)
  show ?thesis
    unfolding rs_dm_binlog_row_def Let_def
    by (simp only: r s u Option.bind.bind_lunit p prod.case c bitmap_width [OF cn(2)] r2 at dl unat_1)
qed

lemma rows_delivered:
  assumes ok: "rows_event_ok type ct cm pre used used2 rows"
    and data: "data = rows_message ct cm pre used used2 rows"
  shows "rs_dm_binlog_row os s data (of_nat (length data)) type hs pas ob =
    deliver_all os hs pas (assign_handlers hs type 0 rows) s ob"
proof -
  note o = ok [unfolded rows_event_ok_def]
  have d: "data = rows_message ct cm pre used used2 [] @ concat (map row_image rows)"
    by (simp add: data rows_message_def)
  have "rows_event_ok type ct cm pre used used2 []" using o by (simp add: rows_event_ok_def rows_message_def)
  then have "rs_dm_binlog_row os s data (of_nat (length data)) type hs pas ob =
    dm_rows (length data) os hs pas data (length data) ct cm used used2 ((of_nat (length ct) + 7) div 8)
      (of_nat (length ct)) type (length (rows_message ct cm pre used used2 [])) 0 None s ob"
    by (rule row_event_header [OF _ d]) (use o data in simp)
  also have "\<dots> = deliver_all os hs pas (assign_handlers hs type 0 rows) s ob"
    by (rule dm_rows_deliver) (use o d rows_fit [of rows ct cm] in \<open>auto split: if_splits\<close>)
  finally show ?thesis .
qed



text \<open>
  C40. A row whose first column is NULL: the metadata pointer moves on by the entry of the column
  before, and there is none.
\<close>

theorem null_first_column_undefined:
  assumes "rows_event_ok type ct cm pre used used2 []"
    and "data = rows_message ct cm pre used used2 [] @ nulls @ body" and "length data < 2 ^ 32"
    and "length nulls = (length ct + 7) div 8" and "bitmap nulls 0 = Some True"
  shows "rs_dm_binlog_row os s data (of_nat (length data)) type hs pas ob = None"
proof -
  note o = assms(1) [unfolded rows_event_ok_def]
  let ?h = "rows_message ct cm pre used used2 []"
  have ct: "0 < length ct" "length ct \<le> 250" using o by auto
  then have "0 < length nulls" unfolding assms(4) by (subst div_greater_zero_iff) (intro conjI; linarith)
  then have more: "length ?h < length data" "length data \<noteq> 0" unfolding assms(2) by simp_all
  have nr: "mem_read data (length ?h) ((length ct + 7) div 8) = Some nulls"
    by (rule mem_read_split [OF assms(2)]) (simp_all add: assms(4))
  have us: "bitmap used 0 = Some True" using o ct by auto
  have cnu: "unat (of_nat (length ct) :: u32) = length ct" using ct by (simp add: unat_of_nat)
  have up: "[0..<length ct] = 0 # [1..<length ct]" using ct by (simp add: upt_conv_Cons)
  have t: "mem_get ct 0 = Some (ct ! 0)" using ct by (simp add: mem_get_def)
  have c: "dm_columns os pas data ct cm used nulls [0..<length ct] \<lparr>dc_p = p, dc_cmp = 0, dc_meta = None\<rparr> s ob' = None" for p ob'
    unfolding up dm_columns.simps dm_column_def by (simp add: t us assms(5) next_col_def)
  have "dm_rows (length data) os hs pas data (length data) ct cm used used2 ((of_nat (length ct) + 7) div 8)
      (of_nat (length ct)) type (length ?h) 0 None s ob = None"
    by (subst dm_rows.simps) (use more in \<open>simp add: dm_row_def null_width [OF ct(2)] cnu nr c Let_def\<close>)
  then show ?thesis using row_event_header [OF assms(1-3)] by simp
qed

text \<open>A row whose first column is an empty pool string: the class of size 0 is -1.\<close>

theorem empty_string_column_undefined:
  assumes "rows_event_ok type ct cm pre used used2 (r # rows)" and "data = rows_message ct cm pre used used2 (r # rows)"
    and "snd r = (t, m, []) # cols" and "pa_alloc pa = RS_DM_DATA_POOL" and "pa_pos pa \<noteq> -1"
  shows "rs_dm_binlog_row os s data (of_nat (length data)) type hs (pa # pas) ob = None"
proof -
  have "rs_palloc os p 0 (rs_code_val RS_ERR) = None" for p
    by (simp add: rs_palloc_def pool_class_def)
  then have "dm_value os pa [] 0 0 s ob' = None" for ob'
    using assms(4,5) by (simp add: dm_value_def rs_palloc_id_def RS_DM_DATA_POOL_def RS_DM_DATA_STACK_def split: Option.bind_splits)
  moreover obtain h b where "pick_handler hs type 0 = Some (h, b)"
    using assms(1) by (cases "pick_handler hs type 0") (auto simp: rows_event_ok_def pick_handler_def split: if_splits)
  ultimately show ?thesis using rows_delivered [OF assms(1,2)] assms(3) by (simp add: deliver_def)
qed

section \<open>The functions of a table\<close>

text \<open>
  What a table promises: a relation between the state before and after that storing a value keeps
  and that each of its functions keeps. Then a whole event keeps it.
\<close>

locale row_table =
  fixes hs :: rs_dm_handlers
    and keeps :: "slave_state \<Rightarrow> slave_state \<Rightarrow> bool"
  assumes keeps_refl: "keeps s s"
    and keeps_trans: "keeps s s' \<Longrightarrow> keeps s' s'' \<Longrightarrow> keeps s s''"
    and value_keeps: "dm_value os pa data p dl s ob = Some (r, s', ob') \<Longrightarrow> keeps s s'"
    and funcs_keep: "h \<in> {dh_write hs, dh_before_update hs, dh_update hs, dh_delete hs, dh_free hs} \<Longrightarrow>
      call_dm h s ob = Some (r, s', ob') \<Longrightarrow> keeps s s'"
begin

lemma column_keeps:
  "dm_column os pas data ct cm used nulls i c s ob = Some (r, c', s', ob') \<Longrightarrow> keeps s s'"
  by (auto simp: dm_column_def bind_eq_Some_conv Let_def intro: keeps_refl dest: value_keeps
      split: if_splits option.splits)

lemma columns_keep:
  "dm_columns os pas data ct cm used nulls is c s ob = Some (r, c', s', ob') \<Longrightarrow> keeps s s'"
proof (induction "is" arbitrary: c s ob)
  case Nil
  then show ?case by (auto intro: keeps_refl)
next
  case (Cons i "is")
  then obtain r1 c1 s1 ob1 where one: "dm_column os pas data ct cm used nulls i c s ob = Some (r1, c1, s1, ob1)"
    and rest: "(r1 \<noteq> RS_OK \<and> s' = s1) \<or> dm_columns os pas data ct cm used nulls is c1 s1 ob1 = Some (r, c', s', ob')"
    by (auto simp: bind_eq_Some_conv split: if_splits)
  from rest column_keeps [OF one] show ?case using Cons.IH keeps_trans by blast
qed

lemma handler_keeps:
  "pick_handler hs type before = Some (h, b) \<Longrightarrow> call_dm h s ob = Some (r, s', ob') \<Longrightarrow> keeps s s'"
  by (rule funcs_keep) (auto simp: pick_handler_def split: if_splits)

lemma row_keeps:
  assumes "dm_row os hs pas data ct cm used used2 un cn type p before mt s ob = Some (r, p', b', m', s', ob')"
  shows "keeps s s'"
proof -
  from assms obtain q c s1 ob1 ob2 where cols: "dm_columns os pas data ct cm
      (if type \<noteq> 24 \<or> before = 0 then used else used2) (the (mem_read data p (unat ((un * 8 + 7) div 8)))) [0..<unat cn]
      \<lparr>dc_p = p + unat ((un * 8 + 7) div 8), dc_cmp = 0, dc_meta = mt\<rparr> s ob1 = Some (q, c, s1, ob2)"
    and rest: "s' = s1 \<or> (\<exists>h b ob3 r2 s2 ob4. pick_handler hs type before = Some (h, b) \<and>
      call_dm h s1 ob3 = Some (r2, s2, ob4) \<and>
      (s' = s2 \<or> (\<exists>r3 ob5. call_dm (dh_free hs) s2 ob4 = Some (r3, s', ob5))))"
    by (fastforce simp: dm_row_def bind_eq_Some_conv Let_def split: if_splits option.splits)
  note k = columns_keep [OF cols]
  from rest show ?thesis
  proof (elim disjE exE conjE)
    fix h b ob3 r2 s2 ob4 r3 ob5
    assume h: "pick_handler hs type before = Some (h, b)" "call_dm h s1 ob3 = Some (r2, s2, ob4)"
      and f: "call_dm (dh_free hs) s2 ob4 = Some (r3, s', ob5)"
    have "keeps s2 s'" by (rule funcs_keep [OF _ f]) simp
    with k handler_keeps [OF h] show ?thesis by (blast intro: keeps_trans)
  qed (use k handler_keeps keeps_trans in blast)+
qed

lemma rows_keep:
  "dm_rows n os hs pas data len ct cm used used2 un cn type p before mt s ob = Some (r, s', ob') \<Longrightarrow> keeps s s'"
proof (induction n arbitrary: p before mt s ob)
  case 0
  then show ?case by (subst (asm) dm_rows.simps) (auto intro: keeps_refl split: if_splits)
next
  case (Suc n)
  show ?case
  proof (cases "p < len")
    case False
    with Suc.prems show ?thesis by (subst (asm) dm_rows.simps) (auto intro: keeps_refl)
  next
    case True
    with Suc.prems obtain r1 p1 b1 m1 s1 ob1 where
      one: "dm_row os hs pas data ct cm used used2 un cn type p before mt s ob = Some (r1, p1, b1, m1, s1, ob1)"
      and rest: "s' = s1 \<or> dm_rows n os hs pas data len ct cm used used2 un cn type p1 b1 m1 s1 ob1 = Some (r, s', ob')"
      by (subst (asm) dm_rows.simps) (auto simp: bind_eq_Some_conv split: if_splits)
    from rest row_keeps [OF one] show ?thesis using Suc.IH keeps_trans by blast
  qed
qed

lemma binlog_row_keeps:
  "rs_dm_binlog_row os s data len type hs pas ob = Some (r, s', ob') \<Longrightarrow> keeps s s'"
  by (auto simp: rs_dm_binlog_row_def bind_eq_Some_conv Let_def intro: rows_keep split: if_splits)

end

section \<open>Examples\<close>

text \<open>Handlers that write down the struct they are given.\<close>

definition note_row :: "rs_binlog_dm_func" where
  "note_row s ob = Some (RS_OK, s\<lparr>sl_cmds := sl_cmds s @ [[ob_mem ob]]\<rparr>, ob)"

definition demo_handlers :: rs_dm_handlers where
  "demo_handlers = \<lparr>dh_before_parse = None, dh_after_parse = None, dh_write = Some note_row,
     dh_before_update = None, dh_update = Some note_row, dh_delete = None, dh_free = None\<rparr>"

definition demo_obj :: dm_obj where "demo_obj = \<lparr>ob_mem = replicate 12 0, ob_pstr = []\<rparr>"

definition demo_pas :: "int \<Rightarrow> rs_dm_pos_alloc_t list" where
  "demo_pas alloc = [\<lparr>pa_pos = 0, pa_alloc = RS_DM_DATA_STACK, pa_type = 0\<rparr>,
     \<lparr>pa_pos = 4, pa_alloc = alloc, pa_type = RS_DM_TYPE_HEX\<rparr>]"

text \<open>Rows of an int and a varchar(20).\<close>

definition demo_row :: "byte \<Rightarrow> byte list \<Rightarrow> row" where
  "demo_row n v = ([0], [(3, [], [n, 0, 0, 0]), (15, [20, 0], v)])"



theorem null_first_column_undefined_witness:
  "rs_dm_binlog_row (os_grant 7) (demo_slave []) (rows_message [3, 15] [20, 0] (replicate 8 0) [3] [] [] @ [1, 1, 97]) 25 23
     demo_handlers (demo_pas RS_DM_DATA_STACK) demo_obj = None"
proof -
  have o: "rows_event_ok 23 [3, 15] [20, 0] (replicate 8 0) [3] [] []" by code_simp
  let ?d = "rows_message [3, 15] [20, 0] (replicate 8 0) [3] [] [] @ [1, 1, 97]"
  have l: "length ?d = 25" and b: "bitmap [1] 0 = Some True" by code_simp+
  from null_first_column_undefined [OF o, of ?d "[1]" "[1, 97]"] b l show ?thesis by simp
qed

theorem empty_string_column_undefined_witness:
  "rs_dm_binlog_row (os_grant 7) (demo_slave []) (rows_message [15] [20, 0] (replicate 8 0) [1] [] [([0], [(15, [20, 0], [])])]) 23 23
     demo_handlers [\<lparr>pa_pos = 0, pa_alloc = RS_DM_DATA_POOL, pa_type = 0\<rparr>] demo_obj = None"
proof -
  let ?rows = "[([0], [(15, [20, 0], [])])] :: row list"
  have o: "rows_event_ok 23 [15] [20, 0] (replicate 8 0) [1] [] ?rows" by code_simp
  have l: "of_nat (length (rows_message [15] [20, 0] (replicate 8 0) [1] [] ?rows)) = (23 :: u32)" by code_simp
  from empty_string_column_undefined [OF o refl, of 15 "[20, 0]" "[]" "\<lparr>pa_pos = 0, pa_alloc = RS_DM_DATA_POOL, pa_type = 0\<rparr>"]
  show ?thesis unfolding l by simp
qed

end
