(* ===== verification/RS_RedisThread.thy ===== *)
theory RS_RedisThread
  imports RS_BinlogRow
begin

text \<open>
  The redis thread of the slave: \<^verbatim>\<open>src/slave/rs_redis_thread.c\<close>,
  \<^verbatim>\<open>rs_redis.c\<close> and the handlers of the table test.test,
  \<^verbatim>\<open>rs_mysql_test_test.c\<close>. The library hiredis is represented by its answers; behind
  the end of a list of answers every call fails.
\<close>

section \<open>Commands to redis\<close>

definition next_answer :: "bool list \<Rightarrow> bool \<times> bool list" where
  "next_answer as = (case as of [] \<Rightarrow> (False, []) | a # as' \<Rightarrow> (a, as'))"

text \<open>The replies to the commands given since the last time; n is \<^verbatim>\<open>cmdn\<close>.\<close>

fun get_replies_loop :: "nat \<Rightarrow> slave_state \<Rightarrow> rs_code \<times> slave_state" where
  "get_replies_loop n s =
     (if n = 0 then (RS_OK, s)
      else (let (ok, as) = next_answer (sl_reply s); s1 = s\<lparr>sl_reply := as\<rparr> in
        if \<not> ok then (RS_ERR, s1) else get_replies_loop (n - 1) (s1\<lparr>si_cmdn := si_cmdn s1 - 1\<rparr>)))"

declare get_replies_loop.simps [simp del]

definition rs_redis_get_replies :: "slave_state \<Rightarrow> rs_code \<times> slave_state" where
  "rs_redis_get_replies s = get_replies_loop (unat (si_cmdn s)) s"

text \<open>Connecting is tried again until it succeeds; if it never does, the call does not return.\<close>

fun redis_connect_loop :: "bool list \<Rightarrow> bool list option" where
  "redis_connect_loop [] = None"
| "redis_connect_loop (ok # as) = (if ok then Some as else redis_connect_loop as)"

text \<open>A command is its arguments, as the format string builds them.\<close>

definition rs_redis_append_command :: "slave_state \<Rightarrow> byte list list \<Rightarrow> (rs_code \<times> slave_state) option" where
  "rs_redis_append_command s args = do {
     as \<leftarrow> (if si_c s then Some (sl_connect s) else redis_connect_loop (sl_connect s));
     let (ok, ans) = next_answer (sl_append s);
     let s1 = s\<lparr>sl_connect := as, sl_append := ans, si_c := True\<rparr>;
     if \<not> ok then Some (RS_ERR, s1)
     else Some (RS_OK, s1\<lparr>sl_cmds := sl_cmds s1 @ [args], si_cmdn := si_cmdn s1 + 1\<rparr>) }"

section \<open>The handlers of test.test\<close>

text \<open>\<^verbatim>\<open>%d\<close>\<close>

definition fmt_d :: "u32 \<Rightarrow> byte list" where
  "fmt_d x = (if sint x < 0 then 45 # fmt_u (nat (- sint x)) else fmt_u (nat (sint x)))"

text \<open>The struct: \<^verbatim>\<open>id\<close> at 0, \<^verbatim>\<open>col\<close> at 8, 32 bytes in all.\<close>

definition rs_mysql_test_pas :: "rs_dm_pos_alloc_t list" where
  "rs_mysql_test_pas =
     [\<lparr>pa_pos = 0, pa_alloc = RS_DM_DATA_STACK, pa_type = 0\<rparr>,
      \<lparr>pa_pos = 8, pa_alloc = RS_DM_DATA_POOL, pa_type = 0\<rparr>]"

text \<open>The id of the pool string is left as it was.\<close>

definition rs_init_test_test :: "dm_obj \<Rightarrow> dm_obj" where
  "rs_init_test_test ob =
     ob\<lparr>ob_mem := [0, 0, 0, 0] @ drop 4 (ob_mem ob),
        ob_pstr := map (\<lambda>(p, q). (p, if p = 8 then q\<lparr>ps_len := 0, ps_data := None\<rparr> else q)) (ob_pstr ob)\<rparr>"

text \<open>It only writes to the log.\<close>

definition rs_print_test_test :: "dm_obj \<Rightarrow> dm_obj" where
  "rs_print_test_test ob = ob"

text \<open>
  \<^verbatim>\<open>SET test_%d %s\<close>. The string ends at its first NUL; what the pool has behind the bytes
  of the column is unknown.
\<close>

definition rs_insert_test_test :: "rs_binlog_dm_func" where
  "rs_insert_test_test s ob = do {
     b \<leftarrow> mem_read (ob_mem ob) 0 4;
     q \<leftarrow> map_of (ob_pstr ob) 8;
     x \<leftarrow> ps_data q;
     v \<leftarrow> sl_dheap s x;
     col \<leftarrow> c_contents v;
     (r, s') \<leftarrow> rs_redis_append_command s [ascii ''SET'', ascii ''test_'' @ fmt_d (set_low 0 b), col];
     Some (if r \<noteq> RS_OK then RS_ERR else RS_OK, s', ob) }"

definition rs_before_update_test_test :: "rs_binlog_dm_func" where
  "rs_before_update_test_test s ob = Some (RS_OK, s, ob)"

definition rs_update_test_test :: "rs_binlog_dm_func" where
  "rs_update_test_test s ob = rs_insert_test_test s ob"

definition rs_delete_test_test :: "rs_binlog_dm_func" where
  "rs_delete_test_test s ob = Some (RS_OK, s, ob)"

definition rs_free_test_test :: "os_mem \<Rightarrow> rs_binlog_dm_func" where
  "rs_free_test_test os s ob = do {
     q \<leftarrow> map_of (ob_pstr ob) 8;
     case ps_data q of
       None \<Rightarrow> Some (RS_OK, s, ob)
     | Some x \<Rightarrow> do {
         pool \<leftarrow> si_dpool s;
         pool' \<leftarrow> rs_pfree os pool x (ps_id q);
         Some (RS_OK, s\<lparr>si_dpool := Some pool', sl_dheap := (sl_dheap s)(x := None)\<rparr>, ob) } }"

definition test_handlers :: "os_mem \<Rightarrow> rs_dm_handlers" where
  "test_handlers os =
     \<lparr>dh_before_parse = Some rs_init_test_test, dh_after_parse = Some rs_print_test_test,
      dh_write = Some rs_insert_test_test, dh_before_update = Some rs_before_update_test_test,
      dh_update = Some rs_update_test_test, dh_delete = Some rs_delete_test_test,
      dh_free = Some (rs_free_test_test os)\<rparr>"

text \<open>\<open>test\<close> is what the stack has where the struct will be.\<close>

definition rs_dm_test_test ::
    "os_mem \<Rightarrow> dm_obj \<Rightarrow> slave_state \<Rightarrow> byte list \<Rightarrow> u32 \<Rightarrow> byte \<Rightarrow> (rs_code \<times> slave_state) option" where
  "rs_dm_test_test os test s r rl t =
     map_option (\<lambda>(err, s', _). (err, s')) (rs_dm_binlog_row os s r rl t (test_handlers os) rs_mysql_test_pas test)"

definition call_table_func ::
    "rs_dm_handler \<Rightarrow> os_mem \<Rightarrow> dm_obj \<Rightarrow> slave_state \<Rightarrow> byte list \<Rightarrow> u32 \<Rightarrow> byte \<Rightarrow> (rs_code \<times> slave_state) option" where
  "call_table_func h = (case h of Rs_dm_test_test \<Rightarrow> rs_dm_test_test)"

section \<open>The redis thread\<close>

text \<open>
  \<open>buf\<close> is the message from its newline on: the event type, a comma, the name of the table and the
  event.
\<close>

definition rs_redis_dml_data ::
    "os_mem \<Rightarrow> dm_obj \<Rightarrow> slave_state \<Rightarrow> byte list \<Rightarrow> u32 \<Rightarrow> (rs_code \<times> slave_state) option" where
  "rs_redis_dml_data os test s buf len = do {
     t \<leftarrow> mem_get buf 1;
     if t = 0 then Some (RS_OK, s)
     else if t = 23 \<or> t = 24 \<or> t = 25 then do {
       let p = drop 3 buf;
       tl \<leftarrow> c_strlen p;
       let rl = len - 4 - of_nat tl;
       h \<leftarrow> si_table_func s;
       f \<leftarrow> rs_shash_get h p;
       case f of
         None \<Rightarrow> Some (RS_ERR, s)
       | Some f \<Rightarrow> do {
           (r, s') \<leftarrow> call_table_func f os test s (drop (tl + 1) p) rl t;
           Some (if r \<noteq> RS_OK then RS_ERR else RS_OK, s') } }
     else Some (RS_ERR, s) }"

text \<open>The file is written from its beginning and cut behind what has been written.\<close>

definition rs_flush_slave_info :: "slave_state \<Rightarrow> (rs_code \<times> slave_state) option" where
  "rs_flush_slave_info s =
     (let (now, clock) = (case sl_clock s of [] \<Rightarrow> (None, []) | t # ts \<Rightarrow> (t, ts)); s1 = s\<lparr>sl_clock := clock\<rparr> in
      case now of
        None \<Rightarrow> Some (RS_ERR, s1)
      | Some sec \<Rightarrow>
          if si_cur_binlog_save s1 < si_binlog_save s1 \<and> sec - si_cur_binlog_savesec s1 < ucast (si_binlog_savesec s1)
          then Some (RS_OK, s1)
          else if \<not> sl_seek s1 then Some (RS_ERR, s1)
          else do {
            dump \<leftarrow> c_contents (arr_str info_cap (si_dump_info s1));
            let (n, fd) = rs_write (sl_file_write s1) (length dump);
            let k = (case n of None \<Rightarrow> 0 | Some k \<Rightarrow> k);
            let s2 = s1\<lparr>si_cur_binlog_save := 1, si_cur_binlog_savesec := sec, sl_file_write := fd,
                        sl_file := take k dump @ drop k (sl_file s1)\<rparr>;
            if n \<noteq> Some (length dump) then Some (RS_ERR, s2)
            else if \<not> sl_trunc s2 then Some (RS_ERR, s2)
            else Some (RS_OK, s2\<lparr>sl_file := take (length dump) (sl_file s2)\<rparr>) })"

datatype redis_next = R_again | R_wait | R_quit

definition RS_REDIS_CMD_COMMIT_NUM :: u32 where "RS_REDIS_CMD_COMMIT_NUM = 36"

text \<open>The element at a: it leaves the ring when everything has succeeded.\<close>

definition redis_apply :: "os_mem \<Rightarrow> dm_obj \<Rightarrow> slave_state \<Rightarrow> addr \<Rightarrow> (redis_next \<times> slave_state) option" where
  "redis_apply os test s a = do {
     let s1 = s\<lparr>si_cur_binlog_save := si_cur_binlog_save s + 1\<rparr>;
     ring \<leftarrow> si_ringbuf s1;
     d \<leftarrow> slot_read ring a;
     x \<leftarrow> d_data d;
     bs \<leftarrow> sl_heap s1 x;
     nl \<leftarrow> c_strchr 10 bs;
     case nl of
       None \<Rightarrow> Some (R_quit, s1)
     | Some k \<Rightarrow> do {
         di \<leftarrow> arr_write info_cap (si_dump_info s1) 0 (take k bs @ [0]);
         (r, s2) \<leftarrow> rs_redis_dml_data os test (s1\<lparr>si_dump_info := di\<rparr>) (drop k bs) (d_len d - of_nat k);
         if r \<noteq> RS_OK then Some (R_quit, s2)
         else
           (let (r, s3) = (if RS_REDIS_CMD_COMMIT_NUM \<le> si_cmdn s2 then rs_redis_get_replies s2 else (RS_OK, s2)) in
            if r \<noteq> RS_OK then Some (R_quit, s3)
            else do {
              (r, s4) \<leftarrow> rs_flush_slave_info s3;
              if r \<noteq> RS_OK then Some (R_quit, s4)
              else do {
                ring \<leftarrow> si_ringbuf s4;
                Some (R_again, s4\<lparr>si_ringbuf := Some (rs_ringbuf_get_advance ring)\<rparr>) } }) } }"

text \<open>
  One round. The history has the ring and the messages as the I/O thread leaves them during each
  wait; the thread is still waiting when it ends.
\<close>

definition redis_round ::
    "os_mem \<Rightarrow> dm_obj \<Rightarrow> (rs_ringbuf_t \<times> (addr \<Rightarrow> byte list option)) list \<Rightarrow> slave_state \<Rightarrow>
     (redis_next \<times> (rs_ringbuf_t \<times> (addr \<Rightarrow> byte list option)) list \<times> slave_state) option" where
  "redis_round os test ios s = do {
     ring \<leftarrow> si_ringbuf s;
     case rs_ringbuf_get ring of
       (_, Some a) \<Rightarrow> map_option (\<lambda>(r, s'). (r, ios, s')) (redis_apply os test s a)
     | (_, None) \<Rightarrow>
         (let (r, s1) = rs_redis_get_replies s in
          if r \<noteq> RS_OK then Some (R_quit, ios, s1)
          else
            (case ios of
               [] \<Rightarrow> Some (R_wait, [], s1\<lparr>si_cmdn := 0\<rparr>)
             | (ring', heap') # ios' \<Rightarrow>
                 (let s2 = s1\<lparr>si_cmdn := 0, si_ringbuf := Some ring', sl_heap := heap'\<rparr> in
                  case rs_ringbuf_spin_wait (\<lambda>_. ring') of
                    (_, Some a) \<Rightarrow> map_option (\<lambda>(r, s'). (r, ios', s')) (redis_apply os test s2 a)
                  | (_, None) \<Rightarrow> do {
                      (r, s3) \<leftarrow> rs_flush_slave_info s2;
                      Some (if r \<noteq> RS_OK then R_quit else R_again, ios', s3) }))) }"

definition slave_free_redis_thread :: "slave_state \<Rightarrow> slave_state" where
  "slave_free_redis_thread s = s\<lparr>si_redis_thread_exit := True\<rparr>"

text \<open>The bound counts the rounds.\<close>

fun redis_loop ::
    "nat \<Rightarrow> os_mem \<Rightarrow> dm_obj \<Rightarrow> (rs_ringbuf_t \<times> (addr \<Rightarrow> byte list option)) list \<Rightarrow> slave_state \<Rightarrow>
     (redis_next \<times> slave_state) option" where
  "redis_loop n os test ios s =
     (if n = 0 then Some (R_wait, s)
      else do {
        (r, ios', s1) \<leftarrow> redis_round os test ios s;
        if r = R_again then redis_loop (n - 1) os test ios' s1 else Some (r, s1) })"

declare redis_loop.simps [simp del]

definition rs_start_redis_thread ::
    "nat \<Rightarrow> os_mem \<Rightarrow> dm_obj \<Rightarrow> (rs_ringbuf_t \<times> (addr \<Rightarrow> byte list option)) list \<Rightarrow> slave_state \<Rightarrow>
     (redis_next \<times> slave_state) option" where
  "rs_start_redis_thread n os test ios s =
     map_option (\<lambda>(r, s'). (r, if r = R_quit then slave_free_redis_thread s' else s')) (redis_loop n os test ios s)"

section \<open>What a row leaves alone\<close>

text \<open>Rows change the data pool, the commands to redis and its connection only.\<close>

definition row_frame :: "slave_state \<Rightarrow> slave_state \<Rightarrow> bool" where
  "row_frame s s' \<longleftrightarrow> si_dump_info s' = si_dump_info s \<and> si_ringbuf s' = si_ringbuf s \<and> sl_file s' = sl_file s \<and>
     sl_heap s' = sl_heap s"

lemma row_frame_refl: "row_frame s s"
  by (simp add: row_frame_def)

lemma row_frame_trans: "row_frame s s' \<Longrightarrow> row_frame s' s'' \<Longrightarrow> row_frame s s''"
  by (simp add: row_frame_def)

lemma append_command_result:
  assumes "rs_redis_append_command s args = Some (r, s')"
  shows "row_frame s s'" and "r = RS_OK \<Longrightarrow> sl_cmds s' = sl_cmds s @ [args] \<and> si_cmdn s' = si_cmdn s + 1"
  using assms by (cases "next_answer (sl_append s)";
    auto simp: rs_redis_append_command_def bind_eq_Some_conv Let_def row_frame_def split: if_splits)+

lemma insert_frame: "rs_insert_test_test s ob = Some (r, s', ob') \<Longrightarrow> row_frame s s'"
  by (auto simp: rs_insert_test_test_def bind_eq_Some_conv dest: append_command_result(1))

lemma free_frame: "rs_free_test_test os s ob = Some (r, s', ob') \<Longrightarrow> row_frame s s'"
  by (auto simp: rs_free_test_test_def bind_eq_Some_conv row_frame_def split: option.splits)

lemma dm_value_frame: "dm_value os pa data p dl s ob = Some (r, s', ob') \<Longrightarrow> row_frame s s'"
  by (auto simp: dm_value_def bind_eq_Some_conv Let_def row_frame_def split: if_splits option.splits)

interpretation test_table: row_table "test_handlers os" row_frame for os
proof
  show "row_frame s s" for s by (rule row_frame_refl)
  show "row_frame s s' \<Longrightarrow> row_frame s' s'' \<Longrightarrow> row_frame s s''" for s s' s'' by (rule row_frame_trans)
  show "dm_value os' pa data p dl s ob = Some (r, s', ob') \<Longrightarrow> row_frame s s'" for os' pa data p dl s ob r s' ob'
    by (rule dm_value_frame)
  show "h \<in> {dh_write (test_handlers os), dh_before_update (test_handlers os), dh_update (test_handlers os),
      dh_delete (test_handlers os), dh_free (test_handlers os)} \<Longrightarrow>
    call_dm h s ob = Some (r, s', ob') \<Longrightarrow> row_frame s s'" for h s ob r s' ob'
    by (auto simp: test_handlers_def call_dm_def rs_before_update_test_test_def rs_update_test_test_def
        rs_delete_test_test_def intro: row_frame_refl dest: insert_frame free_frame)
qed

lemma dml_data_frame:
  assumes "rs_redis_dml_data os test s buf len = Some (r, s')"
  shows "row_frame s s'"
proof -
  have "call_table_func f os test s p rl t = Some (r', s'') \<Longrightarrow> row_frame s s''" for f p rl t r' s''
    by (cases f) (auto simp: call_table_func_def rs_dm_test_test_def intro: test_table.binlog_row_keeps)
  with assms show ?thesis
    by (auto simp: rs_redis_dml_data_def bind_eq_Some_conv Let_def intro: row_frame_refl split: if_splits option.splits)
qed

lemma replies_frame: "get_replies_loop n s = (r, s') \<Longrightarrow> row_frame s s'"
proof (induction n arbitrary: s)
  case 0
  then show ?case by (subst (asm) get_replies_loop.simps) (simp add: row_frame_refl)
next
  case (Suc n)
  obtain ok as where a: "next_answer (sl_reply s) = (ok, as)" by fastforce
  let ?s = "s\<lparr>sl_reply := as\<rparr>"
  have one: "row_frame s ?s" "row_frame s (?s\<lparr>si_cmdn := si_cmdn ?s - 1\<rparr>)" by (simp_all add: row_frame_def)
  show ?case
  proof (cases ok)
    case True
    with Suc.prems a have "get_replies_loop n (?s\<lparr>si_cmdn := si_cmdn ?s - 1\<rparr>) = (r, s')"
      by (subst (asm) get_replies_loop.simps) simp
    from Suc.IH [OF this] show ?thesis by (rule row_frame_trans [OF one(2)])
  next
    case False
    with Suc.prems a one show ?thesis by (subst (asm) get_replies_loop.simps) auto
  qed
qed

section \<open>The file\<close>

text \<open>Whether a flush is due at the time \<open>sec\<close>.\<close>

definition flush_due :: "slave_state \<Rightarrow> u64 \<Rightarrow> bool" where
  "flush_due s sec \<longleftrightarrow>
     \<not> (si_cur_binlog_save s < si_binlog_save s \<and> sec - si_cur_binlog_savesec s < ucast (si_binlog_savesec s))"

lemma flush_result:
  assumes "rs_flush_slave_info s = Some (RS_OK, s')" and "c_contents (arr_str info_cap (si_dump_info s)) = Some dump"
  shows "si_dump_info s' = si_dump_info s" and "si_ringbuf s' = si_ringbuf s" and "sl_heap s' = sl_heap s"
    and "\<exists>sec ts. sl_clock s = Some sec # ts \<and> sl_file s' = (if flush_due s sec then dump else sl_file s)"
proof -
  from assms(1) obtain sec ts where c: "sl_clock s = Some sec # ts"
    by (auto simp: rs_flush_slave_info_def Let_def split: list.splits option.splits)
  obtain n fd where w: "rs_write (sl_file_write s) (length dump) = (n, fd)" by fastforce
  have "si_dump_info s' = si_dump_info s \<and> si_ringbuf s' = si_ringbuf s \<and> sl_heap s' = sl_heap s \<and>
      sl_file s' = (if flush_due s sec then dump else sl_file s)"
    using assms by (auto simp: rs_flush_slave_info_def c w flush_due_def Let_def split: if_splits)
  with c show "si_dump_info s' = si_dump_info s" and "si_ringbuf s' = si_ringbuf s" and "sl_heap s' = sl_heap s"
    and "\<exists>sec ts. sl_clock s = Some sec # ts \<and> sl_file s' = (if flush_due s sec then dump else sl_file s)"
    by blast+
qed

text \<open>
  C13. When a flush is due and succeeds, the file holds exactly the position of the last message, however
  long it was before; when none is due it is unchanged.
\<close>

theorem flush_saves_position:
  assumes "rs_flush_slave_info s = Some (RS_OK, s')" and "c_contents (arr_str info_cap (si_dump_info s)) = Some dump"
    and "sl_clock s = Some sec # ts"
  shows "sl_file s' = (if flush_due s sec then dump else sl_file s)"
  using flush_result(4) [OF assms(1,2)] assms(3) by auto

section \<open>Messages\<close>

lemma apply_result:
  assumes run: "redis_apply os test s a = Some (R_again, s')" and ring: "si_ringbuf s = Some ring"
    and slot: "slot_read ring a = Some d" "d_data d = Some x" "sl_heap s x = Some (hdr @ 10 # rest)"
    and hdr: "0 \<notin> set hdr" "10 \<notin> set hdr"
  shows "si_ringbuf s' = Some (rs_ringbuf_get_advance ring) \<and> c_contents (arr_str info_cap (si_dump_info s')) = Some hdr \<and>
    sl_file s' \<in> {sl_file s, hdr}"
proof -
  have nl: "c_strchr 10 (hdr @ 10 # rest) = Some (Some (length hdr))" using hdr by (rule c_strchr_append)
  let ?s1 = "s\<lparr>si_cur_binlog_save := si_cur_binlog_save s + 1\<rparr>"
  from run obtain di r2 s2 r3 s3 s4 ring' where
    di: "arr_write info_cap (si_dump_info s) 0 (hdr @ [0]) = Some di"
    and dml: "rs_redis_dml_data os test (?s1\<lparr>si_dump_info := di\<rparr>) (10 # rest) (d_len d - of_nat (length hdr)) = Some (RS_OK, s2)"
    and rep: "(if RS_REDIS_CMD_COMMIT_NUM \<le> si_cmdn s2 then rs_redis_get_replies s2 else (RS_OK, s2)) = (r3, s3)"
    and fl: "rs_flush_slave_info s3 = Some (RS_OK, s4)" and r4: "si_ringbuf s4 = Some ring'"
    and s': "s' = s4\<lparr>si_ringbuf := Some (rs_ringbuf_get_advance ring')\<rparr>"
    by (auto simp: redis_apply_def ring slot nl Let_def bind_eq_Some_conv split: if_splits prod.splits)
  have f2: "row_frame (?s1\<lparr>si_dump_info := di\<rparr>) s2" by (rule dml_data_frame [OF dml])
  have f3: "row_frame s2 s3" using rep by (auto simp: rs_redis_get_replies_def intro: row_frame_refl replies_frame split: if_splits)
  have c: "c_contents (arr_str info_cap di) = Some hdr"
    using di hdr arr_str_contents(2) [of hdr] by (auto simp: arr_write_start split: if_splits)
  have d3: "si_dump_info s3 = di" "si_ringbuf s3 = Some ring" "sl_file s3 = sl_file s"
    using f2 f3 ring by (simp_all add: row_frame_def)
  from flush_result [OF fl] c d3 r4 show ?thesis unfolding s' by auto
qed

text \<open>
  C12. A round in which the message at the head of the ring is applied takes it from the ring and leaves
  its position as the one to resume from; the file has that position or the one it had.
\<close>

theorem message_position_kept:
  assumes "redis_round os test ios s = Some (R_again, ios', s')" and "si_ringbuf s = Some ring" and "ring_inv ring"
    and "ring_queue ring = d # q" and "d_data d = Some x" and "sl_heap s x = Some (hdr @ 10 # rest)"
    and "0 \<notin> set hdr" and "10 \<notin> set hdr"
  shows "\<exists>ring'. si_ringbuf s' = Some ring' \<and> ring_inv ring' \<and> ring_queue ring' = q \<and>
    c_contents (arr_str info_cap (si_dump_info s')) = Some hdr \<and> sl_file s' \<in> {sl_file s, hdr}"
proof -
  from ring_take_some [OF assms(3,4)] obtain rb' where t: "ring_take ring = Some (Some (d, rb'))" "ring_inv rb'" "ring_queue rb' = q"
    by blast
  then obtain a where a: "rs_ringbuf_get ring = (RS_OK, Some a)" "slot_read ring a = Some d" "rb' = rs_ringbuf_get_advance ring"
    by (auto simp: ring_take_def rs_ringbuf_get_def bind_eq_Some_conv split: if_splits)
  from assms(1) have "redis_apply os test s a = Some (R_again, s')" by (auto simp: redis_round_def assms(2) a(1))
  from apply_result [OF this assms(2) a(2) assms(5-8)] t(2,3) a(3) show ?thesis by auto
qed

text \<open>
  C8. The row event in a message of the master is the event the table's function is given, with its
  length: the slave takes apart what \<^verbatim>\<open>rs_binlog_create_data\<close> has put together.
\<close>

theorem row_message_dispatched:
  assumes "msg = row_message fname pos t db tb ct cm rows" and "t \<in> {23, 24, 25}" and "length msg < 2 ^ 32"
    and "0 \<notin> set db" and "0 \<notin> set tb"
    and "si_table_func s = Some h" and "rs_shash_get h (db @ [46] @ tb @ [0] @ body) = Some (Some f)"
    and "body = le_bytes 4 (length ct) @ ct @ le_bytes 4 (length cm) @ cm @ rows"
    and "k = length fname + 1 + length (fmt_u (unat pos))"
  shows "rs_redis_dml_data os test s (drop k msg) (of_nat (length msg) - of_nat k) = do {
     (r, s') \<leftarrow> call_table_func f os test s body (of_nat (length body)) t;
     Some (if r \<noteq> RS_OK then RS_ERR else RS_OK, s') }"
proof -
  let ?key = "db @ [46] @ tb"
  have m: "msg = (fname @ [44] @ fmt_u (unat pos)) @ 10 # t # 44 # ?key @ 0 # body"
    by (simp add: assms(1,8) row_message_def row_header_def)
  have d: "drop k msg = 10 # t # 44 # ?key @ 0 # body"
    by (rule drop_split [OF m]) (simp add: assms(9))
  have tl: "c_strlen (?key @ 0 # body) = Some (length ?key)"
    by (rule c_strlen_append) (use assms(4,5) in auto)
  have l: "length msg = k + 4 + length ?key + length body" by (simp add: m assms(9))
  have rl: "of_nat (length msg) - of_nat k - 4 - of_nat (length ?key) = (of_nat (length body) :: u32)"
    by (simp add: l)
  have t: "t \<noteq> 0" using assms(2) by auto
  show ?thesis
    unfolding d rs_redis_dml_data_def using t assms(2,6,7) tl rl
    by (simp add: mem_get_def Let_def)
qed

section \<open>The rows of test.test\<close>

definition test_shape :: "dm_obj \<Rightarrow> bool" where
  "test_shape ob \<longleftrightarrow> length (ob_mem ob) = 32 \<and> (\<exists>q. ob_pstr ob = [(8, q)])"

text \<open>A row: an int and a string of at most max bytes.\<close>

definition test_cols :: "byte list \<Rightarrow> byte list \<Rightarrow> byte list \<Rightarrow> column list" where
  "test_cols mx b v = [(3, [], b), (15, mx, v)]"

definition set_command :: "byte list \<Rightarrow> byte list \<Rightarrow> byte list list" where
  "set_command b w = [ascii ''SET'', ascii ''test_'' @ fmt_d (of_nat (le_nat b)), w]"

lemma test_store:
  assumes run: "store_columns os rs_mysql_test_pas (test_cols mx b v) s ob = Some (RS_OK, s1, ob1)"
    and b: "length b = 4" and v: "length v < 2 ^ 32" and ob: "test_shape ob"
  shows "\<exists>x q. ob_pstr ob1 = [(8, q)] \<and> ps_data q = Some x \<and> sl_dheap s1 x = Some v \<and> mem_read (ob_mem ob1) 0 4 = Some b \<and>
    length (ob_mem ob1) = 32 \<and> sl_cmds s1 = sl_cmds s \<and> si_cmdn s1 = si_cmdn s"
proof -
  obtain q0 where q0: "length (ob_mem ob) = 32" "ob_pstr ob = [(8, q0)]" using ob by (auto simp: test_shape_def)
  let ?ob = "ob\<lparr>ob_mem := b @ drop 4 (ob_mem ob)\<rparr>"
  have id: "dm_value os (hd rs_mysql_test_pas) b 0 4 s ob = Some (RS_OK, s, ?ob)"
    using b q0 by (simp add: dm_value_def rs_mysql_test_pas_def mem_read_all obj_write_def mem_write_0 RS_DM_TYPE_HEX_def)
  have u: "unat (of_nat (length v) :: u32) = length v" using v by (simp add: unat_of_nat)
  have four: "of_nat (length b) = (4 :: u32)" using b by simp
  from run have col: "dm_value os (rs_mysql_test_pas ! 1) v 0 (of_nat (length v)) s ?ob = Some (RS_OK, s1, ob1)"
    using id by (auto simp: test_cols_def rs_mysql_test_pas_def four bind_eq_Some_conv split: if_splits)
  then show ?thesis using q0 b
    by (auto simp: dm_value_def rs_mysql_test_pas_def RS_DM_DATA_POOL_def RS_DM_DATA_STACK_def bind_eq_Some_conv Let_def
        obj_pstr_def u mem_read_all mem_read_def split: option.splits if_splits)
qed

lemma test_shape_init: "test_shape ob \<Longrightarrow> test_shape (rs_init_test_test ob)"
  by (auto simp: test_shape_def rs_init_test_test_def)

lemma test_deliver:
  assumes run: "deliver os (test_handlers os) rs_mysql_test_pas (Some rs_insert_test_test) (test_cols mx b v) s ob =
      Some (RS_OK, s', ob')"
    and b: "length b = 4" and v: "length v < 2 ^ 32" and ob: "test_shape ob"
  shows "\<exists>w. c_contents v = Some w \<and> sl_cmds s' = sl_cmds s @ [set_command b w] \<and> si_cmdn s' = si_cmdn s + 1 \<and> test_shape ob'"
proof -
  from run obtain s1 ob1 s2 ob2 where
    st: "store_columns os rs_mysql_test_pas (test_cols mx b v) s (rs_init_test_test ob) = Some (RS_OK, s1, ob1)"
    and ins: "rs_insert_test_test s1 ob1 = Some (RS_OK, s2, ob2)" and fr: "rs_free_test_test os s2 ob2 = Some (RS_OK, s', ob')"
    by (auto simp: deliver_def test_handlers_def call_dm_def rs_print_test_test_def rs_insert_test_test_def
        rs_free_test_test_def bind_eq_Some_conv split: if_splits option.splits)
  from test_store [OF st b v test_shape_init [OF ob]] obtain x q where
    q: "ob_pstr ob1 = [(8, q)]" "ps_data q = Some x" "sl_dheap s1 x = Some v" "mem_read (ob_mem ob1) 0 4 = Some b"
      "length (ob_mem ob1) = 32" and c: "sl_cmds s1 = sl_cmds s" "si_cmdn s1 = si_cmdn s" by blast
  have low: "set_low 0 b = (of_nat (le_nat b) :: u32)" by (rule set_low_zero)
  from ins obtain w where w: "c_contents v = Some w"
    and app: "rs_redis_append_command s1 (set_command b w) = Some (RS_OK, s2)" and ob2: "ob2 = ob1"
    by (auto simp: rs_insert_test_test_def q low set_command_def bind_eq_Some_conv split: if_splits)
  have "sl_cmds s2 = sl_cmds s1 @ [set_command b w]" "si_cmdn s2 = si_cmdn s1 + 1"
    using append_command_result(2) [OF app] by simp_all
  moreover have "sl_cmds s' = sl_cmds s2 \<and> si_cmdn s' = si_cmdn s2 \<and> ob' = ob1"
    using fr ob2 by (auto simp: rs_free_test_test_def q bind_eq_Some_conv split: option.splits)
  ultimately show ?thesis using w c q by (auto simp: test_shape_def)
qed

lemma test_deliver_all:
  assumes "deliver_all os (test_handlers os) rs_mysql_test_pas
      (map (\<lambda>(_, b, v). (Some rs_insert_test_test, test_cols mx b v)) xs) s ob = Some (RS_OK, s', ob')"
    and "\<forall>(_, b, v) \<in> set xs. length b = 4 \<and> length v < 2 ^ 32" and "test_shape ob"
  shows "\<exists>ws. map (\<lambda>(_, b, v). c_contents v) xs = map Some ws \<and>
    sl_cmds s' = sl_cmds s @ map (\<lambda>((_, b, _), w). set_command b w) (zip xs ws) \<and> si_cmdn s' = si_cmdn s + of_nat (length xs)"
  using assms
proof (induction xs arbitrary: s ob)
  case Nil
  then show ?case by simp
next
  case (Cons y xs)
  obtain z b v where y: "y = (z, b, v)" by (cases y)
  from Cons.prems(1) obtain s1 ob1 where one: "deliver os (test_handlers os) rs_mysql_test_pas (Some rs_insert_test_test)
        (test_cols mx b v) s ob = Some (RS_OK, s1, ob1)"
    and rest: "deliver_all os (test_handlers os) rs_mysql_test_pas
      (map (\<lambda>(_, b, v). (Some rs_insert_test_test, test_cols mx b v)) xs) s1 ob1 = Some (RS_OK, s', ob')"
    by (auto simp: y bind_eq_Some_conv split: if_splits)
  from test_deliver [OF one] Cons.prems(2,3) y obtain w where w: "c_contents v = Some w"
    "sl_cmds s1 = sl_cmds s @ [set_command b w]" "si_cmdn s1 = si_cmdn s + 1" "test_shape ob1" by auto
  from Cons.IH [OF rest _ w(4)] Cons.prems(2) obtain ws where
    "map (\<lambda>(_, b, v). c_contents v) xs = map Some ws"
    "sl_cmds s' = sl_cmds s1 @ map (\<lambda>((_, b, _), w). set_command b w) (zip xs ws)" "si_cmdn s' = si_cmdn s1 + of_nat (length xs)"
    by auto
  with w show ?case by (intro exI [of _ "w # ws"]) (simp add: y)
qed

definition test_row :: "byte list \<Rightarrow> byte list \<times> byte list \<times> byte list \<Rightarrow> row" where
  "test_row mx r = (case r of (nulls, b, v) \<Rightarrow> (nulls, test_cols mx b v))"

lemma test_row_fits:
  assumes "row_ok [3, 15] mx (test_row mx (z, b, v))"
  shows "length b = 4 \<and> length v < 2 ^ 32"
proof -
  have c: "col_ok 3 [] b" "col_ok 15 mx v" using assms by (auto simp: row_ok_def test_row_def test_cols_def cols_ok_def)
  have m: "length mx = 2" using c(2) meta_lens(1) by (simp add: col_ok_def)
  have "le_nat mx < 65536" using le_nat_bound [of mx] m by simp
  then show ?thesis using c column_types by (auto simp: col_ok_def rs_column_meta_def column_meta_def)
qed

lemma test_event:
  assumes "rows_event_ok 23 [3, 15] mx pre used [] (map (test_row mx) xs)"
    and "data = rows_message [3, 15] mx pre used [] (map (test_row mx) xs)" and "test_shape test"
    and "rs_dm_test_test os test s data (of_nat (length data)) 23 = Some (RS_OK, s')"
  shows "\<exists>ws. map (\<lambda>(_, b, v). c_contents v) xs = map Some ws \<and>
    sl_cmds s' = sl_cmds s @ map (\<lambda>((_, b, _), w). set_command b w) (zip xs ws) \<and> si_cmdn s' = si_cmdn s + of_nat (length xs)"
proof -
  have "assign_handlers (test_handlers os) 23 n (map (test_row mx) xs) =
      map (\<lambda>(_, b, v). (Some rs_insert_test_test, test_cols mx b v)) xs" for n
    by (induction xs) (auto simp: pick_handler_def test_handlers_def test_row_def)
  with rows_delivered [OF assms(1,2), of os s "test_handlers os" rs_mysql_test_pas test] assms(4)
  have "\<exists>ob'. deliver_all os (test_handlers os) rs_mysql_test_pas
      (map (\<lambda>(_, b, v). (Some rs_insert_test_test, test_cols mx b v)) xs) s test = Some (RS_OK, s', ob')"
    by (auto simp: rs_dm_test_test_def)
  then obtain ob' where d: "deliver_all os (test_handlers os) rs_mysql_test_pas
      (map (\<lambda>(_, b, v). (Some rs_insert_test_test, test_cols mx b v)) xs) s test = Some (RS_OK, s', ob')" by blast
  show ?thesis
    by (rule test_deliver_all [OF d _ assms(3)]) (use assms(1) test_row_fits in \<open>fastforce simp: rows_event_ok_def\<close>)
qed


lemma c_contents_none: "0 \<notin> set v \<Longrightarrow> c_contents v = None"
proof -
  assume "0 \<notin> set v"
  then have "c_strlen v = None" by (induction v) auto
  then show ?thesis by (simp add: c_contents_def)
qed

text \<open>
  A string without a NUL, which is what a varchar has, is read behind its end: no event that inserts
  one is applied successfully.
\<close>

theorem inserted_text_unterminated:
  assumes "rows_event_ok 23 [3, 15] mx pre used [] (map (test_row mx) xs)"
    and "data = rows_message [3, 15] mx pre used [] (map (test_row mx) xs)" and "test_shape test"
    and "(z, b, v) \<in> set xs" and "0 \<notin> set v"
  shows "rs_dm_test_test os test s data (of_nat (length data)) 23 \<noteq> Some (RS_OK, s')"
proof
  assume "rs_dm_test_test os test s data (of_nat (length data)) 23 = Some (RS_OK, s')"
  with test_event [OF assms(1-3)] obtain ws where "map (\<lambda>(_, b, v). c_contents v) xs = map Some ws" by blast
  then have "(\<lambda>(_, b, v). c_contents v) (z, b, v) \<in> Some ` set ws" using assms(4) by (metis image_eqI list.set_map)
  with c_contents_none [OF assms(5)] show False by auto
qed

section \<open>Examples\<close>

text \<open>A slave with one message in its ring, a table of handlers and a redis that takes one command.\<close>

definition demo_elem :: "byte list \<Rightarrow> rs_ringbuf_data_t" where
  "demo_elem msg = \<lparr>d_len = of_nat (length msg), d_data = Some 999, d_id = 0\<rparr>"

definition demo_full :: "byte list \<Rightarrow> rs_ringbuf_t" where
  "demo_full msg = the (the (ring_put (the (fst demo_ring)) (demo_elem msg)))"

lemma demo_full: "ring_inv (demo_full msg)" "ring_queue (demo_full msg) = [demo_elem msg]"
proof -
  have "ring_queue (the (fst demo_ring)) = [] \<and> rb_num (the (fst demo_ring)) = 2" by code_simp
  then have q: "ring_queue (the (fst demo_ring)) = []" "length (ring_queue (the (fst demo_ring))) \<noteq> unat (rb_num (the (fst demo_ring)))"
    by simp_all
  from ring_put_room [OF demo_slave_ring(2) q(2), of "demo_elem msg"] q(1)
  show "ring_inv (demo_full msg)" "ring_queue (demo_full msg) = [demo_elem msg]" by (auto simp: demo_full_def)
qed

definition demo_redis :: "byte list \<Rightarrow> slave_state" where
  "demo_redis msg = (demo_slave (cstr ''bin.1,4''))\<lparr>si_ringbuf := Some (demo_full msg), si_table_func := fst (snd conf_tables),
     sl_heap := [999 \<mapsto> msg], sl_connect := [False, True], sl_append := [True], sl_clock := [Some 1000],
     sl_file := ascii ''bin.1,4567890'', sl_file_write := [Wr_acc 100]\<rparr>"

definition test_stack :: dm_obj where
  "test_stack = \<lparr>ob_mem = replicate 32 0, ob_pstr = [(8, \<lparr>ps_len = 0, ps_data = None, ps_id = 0\<rparr>)]\<rparr>"

definition demo_rows :: "(byte list \<times> byte list \<times> byte list) list" where
  "demo_rows = [([0], [5, 0, 0, 0], [97, 98, 0]), ([0], [255, 255, 255, 255], [99, 0])]"

definition demo_event_rows :: "byte list" where
  "demo_event_rows = replicate 8 0 @ 2 # [3] @ concat (map (\<lambda>r. row_image (test_row [20, 0] r)) [hd demo_rows])"

definition demo_message :: "byte list" where
  "demo_message = row_message (ascii ''bin.1'') 120 23 (ascii ''test'') (ascii ''test'') [3, 15] [20, 0] demo_event_rows"


theorem message_position_kept_witness:
  "\<exists>s'. redis_round (os_grant 7) test_stack [] (demo_redis demo_message) = Some (R_again, [], s') \<and>
     c_contents (arr_str info_cap (si_dump_info s')) = Some (ascii ''bin.1,120'')"
proof -
  let ?s = "demo_redis demo_message"
  let ?r = "redis_round (os_grant 7) test_stack [] ?s"
  have "map_option (\<lambda>(r, io, s'). (r, length io)) ?r = Some (R_again, 0)" by code_simp
  then obtain s' where r: "?r = Some (R_again, [], s')" by auto
  have m: "demo_message = ascii ''bin.1,120'' @ 10 # (drop 10 demo_message)" by code_simp
  have st: "si_ringbuf ?s = Some (demo_full demo_message)"
    "sl_heap ?s 999 = Some (ascii ''bin.1,120'' @ 10 # (drop 10 demo_message))"
    using m by (simp_all add: demo_redis_def)
  have z: "0 \<notin> set (ascii ''bin.1,120'')" "10 \<notin> set (ascii ''bin.1,120'')" by (simp_all add: ascii_def)
  have "d_data (demo_elem demo_message) = Some 999" by (simp add: demo_elem_def)
  from message_position_kept [OF r st(1) demo_full this st(2) z] r show ?thesis by blast
qed

lemma demo_flush:
  "\<exists>s'. rs_flush_slave_info (demo_redis msg) = Some (RS_OK, s')" "flush_due (demo_redis msg) 1000"
  "c_contents (arr_str info_cap (si_dump_info (demo_redis msg))) = Some (ascii ''bin.1,4'')" "sl_clock (demo_redis msg) = [Some 1000]"
  by (simp_all add: rs_flush_slave_info_def flush_due_def demo_redis_def demo_slave_def blank_slave_def rs_slave_info_t_init_def
      rs_slave_info_t.defs slave_state.defs cstr_def ascii_def arr_str_def c_contents_def Let_def)

theorem flush_saves_position_witness:
  "\<exists>s'. rs_flush_slave_info (demo_redis []) = Some (RS_OK, s') \<and> sl_file s' = ascii ''bin.1,4''"
proof -
  obtain s' where r: "rs_flush_slave_info (demo_redis []) = Some (RS_OK, s')" using demo_flush(1) by blast
  from flush_saves_position [OF r demo_flush(3,4)] demo_flush(2) r show ?thesis by auto
qed

theorem row_message_dispatched_witness:
  "\<exists>b. rs_redis_dml_data (os_grant 7) test_stack (demo_redis []) (drop 9 demo_message) (of_nat (length demo_message) - of_nat 9) = do {
     (r, s') \<leftarrow> call_table_func Rs_dm_test_test (os_grant 7) test_stack (demo_redis []) b (of_nat (length b)) 23;
     Some (if r \<noteq> RS_OK then RS_ERR else RS_OK, s') } \<and> length b = 31"
proof -
  let ?body = "le_bytes 4 (length [3, 15 :: byte]) @ [3, 15] @ le_bytes 4 (length [20, 0 :: byte]) @ [20, 0] @ demo_event_rows"
  have c: "\<not> Option.is_none (fst (snd conf_tables)) \<and>
      rs_shash_get (the (fst (snd conf_tables))) (ascii ''test'' @ [46] @ ascii ''test'' @ [0] @ ?body) = Some (Some Rs_dm_test_test) \<and>
      length ?body = 31 \<and> length demo_message < 2 ^ 32 \<and> 9 = length (ascii ''bin.1'') + 1 + length (fmt_u (unat (120 :: u32)))"
    by code_simp
  have t: "si_table_func (demo_redis []) = Some (the (fst (snd conf_tables)))"
    using computes_Some [of "fst (snd conf_tables)"] c by (simp add: demo_redis_def)
  have z: "0 \<notin> set (ascii ''test'')" by (simp add: ascii_def)
  have "(23 :: byte) \<in> {23, 24, 25}" by simp
  from row_message_dispatched [OF demo_message_def this _ z z t _ refl, of Rs_dm_test_test 9] c show ?thesis by blast
qed


theorem inserted_text_unterminated_witness:
  "\<nexists>s'. rs_dm_test_test (os_grant 7) test_stack (demo_redis [])
      (rows_message [3, 15] [20, 0] (replicate 8 0) [3] [] [test_row [20, 0] ([0], [5, 0, 0, 0], [97, 98])]) 30 23 = Some (RS_OK, s')"
proof -
  have o: "rows_event_ok 23 [3, 15] [20, 0] (replicate 8 0) [3] [] (map (test_row [20, 0]) [([0], [5, 0, 0, 0], [97, 98])])" by code_simp
  let ?d = "rows_message [3, 15] [20, 0] (replicate 8 0) [3] [] (map (test_row [20, 0]) [([0], [5, 0, 0, 0], [97, 98])])"
  have l: "of_nat (length ?d) = (30 :: u32)" by code_simp
  have sh: "test_shape test_stack" by (simp add: test_shape_def test_stack_def)
  from inserted_text_unterminated [OF o refl sh, of "[0]" "[5, 0, 0, 0]" "[97, 98]", unfolded l] show ?thesis by simp
qed

end
