(* ===== verification/RS_DumpListen.thy ===== *)
theory RS_DumpListen
  imports RS_ReqDump RS_Conf
begin

text \<open>
  The state of the master (\<^verbatim>\<open>src/master/rs_master_info.h\<close>) and
  \<^verbatim>\<open>src/master/rs_dump_listen.c\<close>: opening the socket for the slaves and accepting
  them, each into a slot of the table of connections with a pool, a ring and two buffers of its own.
\<close>

section \<open>The state of the master\<close>

text \<open>The growth factor of the pools is kept as the text it is read from.\<close>

record rs_master_info_t =
  mi_listen_addr :: "byte list option"
  mi_listen_port :: int
  mi_binlog_idx_file :: "byte list option"
  mi_server_id :: u32
  mi_max_dump_thread :: u32
  mi_pool_factor :: "byte list"
  mi_pool_memsize :: u32
  mi_pool_initsize :: u32
  mi_ringbuf_num :: u32
  mi_sendbuf_size :: u32
  mi_iobuf_size :: u32
  mi_accept_thread :: nat
  mi_accept_thread_exit :: bool
  mi_svr_fd :: int
  mi_cf :: "conf_env option"
  mi_req_dump :: "(addr \<times> addr \<times> rs_reqdump_t) option" \<comment> \<open>where the table and its pool are, and the table\<close>
  mi_pool :: "addr option" \<comment> \<open>where the pool is\<close>
  mi_id :: int

text \<open>The initialisation macro leaves \<^verbatim>\<open>ringbuf_num\<close> and \<^verbatim>\<open>id\<close> as they were.\<close>

definition rs_master_info_t_init :: "rs_master_info_t \<Rightarrow> rs_master_info_t" where
  "rs_master_info_t_init mi =
     \<lparr>mi_listen_addr = Some (cstr ''127.0.0.1''), mi_listen_port = 1919, mi_binlog_idx_file = None,
      mi_server_id = 1, mi_max_dump_thread = 36, mi_pool_factor = ascii ''1.5'',
      mi_pool_memsize = 100 * 1024 * 1024, mi_pool_initsize = 100, mi_ringbuf_num = mi_ringbuf_num mi,
      mi_sendbuf_size = 1 * 1024, mi_iobuf_size = 1 * 1024, mi_accept_thread = 0,
      mi_accept_thread_exit = False, mi_svr_fd = -1, mi_cf = None, mi_req_dump = None, mi_pool = None,
      mi_id = mi_id mi\<rparr>"

section \<open>Listening\<close>

text \<open>
  One attempt: the descriptor \<^verbatim>\<open>socket\<close> returns (-1: none), whether
  \<^verbatim>\<open>setsockopt\<close> succeeds, what \<^verbatim>\<open>bind\<close> says and whether
  \<^verbatim>\<open>listen\<close> succeeds.
\<close>

datatype bind_result = Bound | Addr_in_use | Bind_error

record bind_ev =
  be_fd :: int
  be_opt :: bool
  be_bind :: bind_result
  be_listen :: bool

definition RS_RETRY_BIND_TIMES :: nat where "RS_RETRY_BIND_TIMES = 5"

text \<open>
  The loop, with the number of tries left. The third result is the descriptors that are open: a
  socket that could not be bound is forgotten, not closed. Behind the end of the list there is no
  socket.
\<close>

fun listen_tries :: "nat \<Rightarrow> bind_ev list \<Rightarrow> rs_master_info_t \<Rightarrow> int list \<Rightarrow> rs_code \<times> rs_master_info_t \<times> int list" where
  "listen_tries 0 es mi fds = (RS_ERR, mi, fds)"
| "listen_tries (Suc n) events mi fds =
     (case events of
        [] \<Rightarrow> (RS_ERR, mi\<lparr>mi_svr_fd := -1\<rparr>, fds)
      | e # es \<Rightarrow>
          (let mi1 = mi\<lparr>mi_svr_fd := be_fd e\<rparr>; fds1 = fds @ [be_fd e] in
           if be_fd e = -1 then (RS_ERR, mi1, fds)
           else if \<not> be_opt e then (RS_ERR, mi1, fds1)
           else case be_bind e of
               Addr_in_use \<Rightarrow> listen_tries n es (mi\<lparr>mi_svr_fd := -1\<rparr>) fds1
             | Bind_error \<Rightarrow> (RS_ERR, mi\<lparr>mi_svr_fd := -1\<rparr>, fds1)
             | Bound \<Rightarrow> (if \<not> be_listen e then RS_ERR else RS_OK, mi1, fds1)))"

text \<open>\<open>quad\<close> is \<^verbatim>\<open>inet_pton\<close>'s test of the address.\<close>

definition rs_dump_listen ::
    "(byte list \<Rightarrow> bool) \<Rightarrow> bind_ev list \<Rightarrow> rs_master_info_t \<Rightarrow> (rs_code \<times> rs_master_info_t \<times> int list) option" where
  "rs_dump_listen quad es mi = do {
     addr \<leftarrow> mi_listen_addr mi;
     Some (if \<not> quad addr then (RS_ERR, mi, []) else listen_tries RS_RETRY_BIND_TIMES es mi []) }"

section \<open>Accepting\<close>

text \<open>
  A connection: its descriptor, the memory of its two buffers (none when there is none) and the
  thread that is created for it (0: none).
\<close>

record conn_in =
  ci_fd :: int
  ci_send :: "byte list option"
  ci_io :: "byte list option"
  ci_thread :: nat

datatype accept_ev = Ac_eintr | Ac_err | Ac_conn conn_in

definition put_slot :: "rs_reqdump_t \<Rightarrow> nat \<Rightarrow> rs_reqdump_data_t \<Rightarrow> rs_reqdump_t" where
  "put_slot rq d slot = rq\<lparr>rq_data := (rq_data rq)[d := slot]\<rparr>"

text \<open>
  What a slot is given; False: the thread ends. \<open>grow\<close> is the multiplication with the growth
  factor.
\<close>

definition conn_slot ::
    "os_mem \<Rightarrow> (byte list \<Rightarrow> u32 \<Rightarrow> u32) \<Rightarrow> rs_master_info_t \<Rightarrow> conn_in \<Rightarrow> rs_reqdump_data_t \<Rightarrow>
     (bool \<times> rs_reqdump_data_t) option" where
  "conn_slot os grow mi c slot = do {
     p \<leftarrow> rs_create_pool os (mi_pool_initsize mi) (mi_pool_memsize mi) (1 * 1024 * 1024) RS_POOL_CLASS_IDX
            (grow (mi_pool_factor mi)) RS_POOL_PREALLOC;
     case p of
       None \<Rightarrow> Some (False, slot\<lparr>rd_pool := None\<rparr>)
     | Some p \<Rightarrow> do {
         (ring, p1) \<leftarrow> rs_create_ringbuf os p (mi_ringbuf_num mi);
         let send = rs_create_tmpbuf (ci_send c) (mi_sendbuf_size mi);
         let io = rs_create_tmpbuf (ci_io c) (mi_iobuf_size mi);
         let slot1 = slot\<lparr>rd_pool := Some p1, rd_ringbuf := ring\<rparr>;
         Some (if ring = None then (False, slot1)
               else if send = None then (False, slot1\<lparr>rd_send_buf := None\<rparr>)
               else if io = None then (False, slot1\<lparr>rd_send_buf := send, rd_io_buf := None\<rparr>)
               else (ci_thread c \<noteq> 0, slot1\<lparr>rd_send_buf := send, rd_io_buf := io, rd_cli_fd := ci_fd c,
                       rd_binlog_idx_file := mi_binlog_idx_file mi, rd_req_dump := True,
                       rd_server_id := mi_server_id mi, rd_dump_thread := ci_thread c\<rparr>)) } }"

text \<open>
  Registering a connection. When something fails the slot stays taken, and the connection open.
\<close>

definition accept_one ::
    "os_mem \<Rightarrow> thr_ops \<Rightarrow> (byte list \<Rightarrow> u32 \<Rightarrow> u32) \<Rightarrow> rs_master_info_t \<Rightarrow> conn_in \<Rightarrow> rs_reqdump_t \<Rightarrow>
     (bool \<times> rs_reqdump_t) option" where
  "accept_one os th grow mi c rq = do {
     (r, rq1) \<leftarrow> rs_get_reqdump_data th rq;
     case r of
       None \<Rightarrow> Some (False, rq1)
     | Some d \<Rightarrow> do {
         slot \<leftarrow> mem_get (rq_data rq1) d;
         (run, slot') \<leftarrow> conn_slot os grow mi c slot;
         Some (run, put_slot rq1 d slot') } }"

text \<open>
  The loop over what \<^verbatim>\<open>accept\<close> returns: True when it is still in the loop at the end of
  the history.
\<close>

fun accept_loop ::
    "os_mem \<Rightarrow> thr_ops \<Rightarrow> (byte list \<Rightarrow> u32 \<Rightarrow> u32) \<Rightarrow> rs_master_info_t \<Rightarrow> accept_ev list \<Rightarrow> rs_reqdump_t \<Rightarrow>
     (bool \<times> rs_reqdump_t) option" where
  "accept_loop os th grow mi [] rq = Some (True, rq)"
| "accept_loop os th grow mi (Ac_eintr # es) rq = accept_loop os th grow mi es rq"
| "accept_loop os th grow mi (Ac_err # es) rq = Some (False, rq)"
| "accept_loop os th grow mi (Ac_conn c # es) rq = do {
     (r, rq1) \<leftarrow> accept_one os th grow mi c rq;
     if r then accept_loop os th grow mi es rq1 else Some (False, rq1) }"

definition rs_free_accept_thread :: "rs_master_info_t \<Rightarrow> rs_master_info_t" where
  "rs_free_accept_thread mi = mi\<lparr>mi_accept_thread_exit := True\<rparr>"

definition rs_start_accept_thread ::
    "os_mem \<Rightarrow> thr_ops \<Rightarrow> (byte list \<Rightarrow> u32 \<Rightarrow> u32) \<Rightarrow> accept_ev list \<Rightarrow> rs_master_info_t \<Rightarrow> rs_master_info_t option" where
  "rs_start_accept_thread os th grow es mi = do {
     (a, q, rq) \<leftarrow> mi_req_dump mi;
     (run, rq') \<leftarrow> accept_loop os th grow mi es rq;
     let mi1 = mi\<lparr>mi_req_dump := Some (a, q, rq')\<rparr>;
     Some (if run then mi1 else rs_free_accept_thread mi1) }"

section \<open>The address is in use\<close>

lemma listen_busy:
  assumes "\<forall>e \<in> set busy. be_fd e \<noteq> -1 \<and> be_opt e \<and> be_bind e = Addr_in_use" and "length busy \<le> n"
  shows "listen_tries n (busy @ es) mi fds =
    listen_tries (n - length busy) es (if busy = [] then mi else mi\<lparr>mi_svr_fd := -1\<rparr>) (fds @ map be_fd busy)"
  using assms
proof (induction busy arbitrary: n mi fds)
  case (Cons e busy)
  then obtain n' where n: "n = Suc n'" by (cases n) auto
  have mi: "mi\<lparr>mi_svr_fd := -1, mi_svr_fd := -1\<rparr> = mi\<lparr>mi_svr_fd := -1\<rparr>" by simp
  show ?case using Cons.prems Cons.IH [of n' "mi\<lparr>mi_svr_fd := -1\<rparr>" "fds @ [be_fd e]"]
    by (simp add: n mi)
qed simp

text \<open>
  Binding is tried again while the address is in use, five times at most. Every socket that could
  not be bound stays open.
\<close>

theorem listen_retries:
  assumes "mi_listen_addr mi = Some addr" and "quad addr"
    and "\<forall>e \<in> set busy. be_fd e \<noteq> -1 \<and> be_opt e \<and> be_bind e = Addr_in_use" and "length busy \<le> 5"
    and "be_fd e \<noteq> -1" and "be_opt e" and "be_bind e = Bound" and "be_listen e"
  shows "rs_dump_listen quad (busy @ e # es) mi =
    (if length busy < 5 then Some (RS_OK, mi\<lparr>mi_svr_fd := be_fd e\<rparr>, map be_fd busy @ [be_fd e])
     else Some (RS_ERR, mi\<lparr>mi_svr_fd := -1\<rparr>, map be_fd busy))"
proof -
  note busy = listen_busy [OF assms(3,4), of "e # es" mi "[]"]
  show ?thesis
  proof (cases "length busy < 5")
    case True
    then obtain m where "5 - length busy = Suc m" by (cases "5 - length busy") auto
    then show ?thesis using True assms(1,2,5-8)
      by (simp add: rs_dump_listen_def RS_RETRY_BIND_TIMES_def busy)
  next
    case False
    with assms(4) have "length busy = 5" "busy \<noteq> []" by auto
    then show ?thesis using assms(1,2) by (simp add: rs_dump_listen_def RS_RETRY_BIND_TIMES_def busy)
  qed
qed

section \<open>Connections\<close>

lemma put_slot_reach:
  assumes "rq_reach rq0 rq" and "d \<in> open_slots rq" and "rd_open slot" and "rd_data slot = rd_data (rq_data rq ! d)"
  shows "rq_reach rq0 (put_slot rq d slot)"
  unfolding put_slot_def by (rule rq_reach.step [OF assms(1)]) (rule rq_step.fill [OF assms(2-4)])

lemma conn_slot_result:
  assumes "conn_slot os grow mi c slot = Some (r, slot')"
  shows "rd_open slot' = rd_open slot" and "rd_data slot' = rd_data slot"
    and "r \<Longrightarrow> rd_cli_fd slot' = ci_fd c \<and> rd_dump_thread slot' = ci_thread c \<and>
      rd_server_id slot' = mi_server_id mi \<and> rd_binlog_idx_file slot' = mi_binlog_idx_file mi \<and>
      rd_ringbuf slot' \<noteq> None \<and> rd_pool slot' \<noteq> None \<and> rd_send_buf slot' \<noteq> None \<and> rd_io_buf slot' \<noteq> None"
proof -
  define pool where "pool = rs_create_pool os (mi_pool_initsize mi) (mi_pool_memsize mi) (1 * 1024 * 1024) RS_POOL_CLASS_IDX
      (grow (mi_pool_factor mi)) RS_POOL_PREALLOC"
  define send where "send = rs_create_tmpbuf (ci_send c) (mi_sendbuf_size mi)"
  define io where "io = rs_create_tmpbuf (ci_io c) (mi_iobuf_size mi)"
  note run = assms [unfolded conn_slot_def, folded pool_def send_def io_def]
  have "rd_open slot' = rd_open slot \<and> rd_data slot' = rd_data slot \<and>
    (r \<longrightarrow> rd_cli_fd slot' = ci_fd c \<and> rd_dump_thread slot' = ci_thread c \<and>
      rd_server_id slot' = mi_server_id mi \<and> rd_binlog_idx_file slot' = mi_binlog_idx_file mi \<and>
      rd_ringbuf slot' \<noteq> None \<and> rd_pool slot' \<noteq> None \<and> rd_send_buf slot' \<noteq> None \<and> rd_io_buf slot' \<noteq> None)"
  proof (cases pool)
    case None
    with run show ?thesis by simp
  next
    case (Some q)
    show ?thesis
    proof (cases q)
      case None
      with run Some show ?thesis by auto
    next
      case (Some p)
      obtain ring p1 where ring: "rs_create_ringbuf os p (mi_ringbuf_num mi) = Some (ring, p1)"
        using run \<open>pool = Some q\<close> Some by (cases "rs_create_ringbuf os p (mi_ringbuf_num mi)") auto
      note run' = run [unfolded \<open>pool = Some q\<close> Some]
      consider "ring = None" | "ring \<noteq> None" "send = None" | "ring \<noteq> None" "send \<noteq> None" "io = None"
        | "ring \<noteq> None" "send \<noteq> None" "io \<noteq> None" by blast
      then show ?thesis by cases (use run' in \<open>auto simp: Let_def ring\<close>)
    qed
  qed
  then show "rd_open slot' = rd_open slot" and "rd_data slot' = rd_data slot"
    and "r \<Longrightarrow> rd_cli_fd slot' = ci_fd c \<and> rd_dump_thread slot' = ci_thread c \<and>
      rd_server_id slot' = mi_server_id mi \<and> rd_binlog_idx_file slot' = mi_binlog_idx_file mi \<and>
      rd_ringbuf slot' \<noteq> None \<and> rd_pool slot' \<noteq> None \<and> rd_send_buf slot' \<noteq> None \<and> rd_io_buf slot' \<noteq> None"
    by blast+
qed

text \<open>Whatever accepting a connection does to the table, it does by steps of the table.\<close>

lemma accept_one_result:
  assumes run: "accept_one os th grow mi c rq = Some (r, rq')" and lock: "th_lock th" and ok: "rq_ok rq"
  shows "rq_reach rq rq' \<and> (\<exists>d. d \<notin> open_slots rq \<and> d < length (rq_data rq) \<and> open_slots rq' = insert d (open_slots rq) \<and>
    (\<forall>i. i \<noteq> d \<longrightarrow> rq_data rq' ! i = rq_data rq ! i) \<and>
    (r \<longrightarrow> rd_cli_fd (rq_data rq' ! d) = ci_fd c \<and> rd_dump_thread (rq_data rq' ! d) = ci_thread c \<and>
      rd_server_id (rq_data rq' ! d) = mi_server_id mi \<and> rd_binlog_idx_file (rq_data rq' ! d) = mi_binlog_idx_file mi \<and>
      rd_ringbuf (rq_data rq' ! d) \<noteq> None \<and> rd_pool (rq_data rq' ! d) \<noteq> None \<and>
      rd_send_buf (rq_data rq' ! d) \<noteq> None \<and> rd_io_buf (rq_data rq' ! d) \<noteq> None))"
proof -
  obtain g rq1 where get: "rs_get_reqdump_data th rq = Some (g, rq1)"
    using run by (cases "rs_get_reqdump_data th rq") (simp_all add: accept_one_def split: prod.splits)
  obtain d where d: "d < length (rq_data rq)" "d \<notin> open_slots rq" "open_slots rq1 = insert d (open_slots rq)" "rq_ok rq1"
    and g: "g = (if th_unlock th then Some d else None)" and free: "rq_free rq = Some d"
    using get_reqdump_result [OF ok lock get] by metis
  have reach: "rq_reach rq rq1" by (rule rq_reach.step [OF rq_reach.start]) (rule rq_step.get [OF get])
  let ?slot = "(rq_data rq ! d)\<lparr>rd_open := True\<rparr>"
  have data: "rq_data rq1 = (rq_data rq)[d := ?slot]"
    using get lock free d(1) by (auto simp: rs_get_reqdump_data_def mem_get_def Let_def)
  show ?thesis
  proof (cases "th_unlock th")
    case False
    with run get g have "r = False \<and> rq' = rq1" by (simp add: accept_one_def)
    with reach d data show ?thesis by auto
  next
    case True
    have slot: "mem_get (rq_data rq1) d = Some ?slot" using d(1) by (simp add: data mem_get_def)
    obtain slot' where one: "conn_slot os grow mi c ?slot = Some (r, slot')" and rq': "rq' = put_slot rq1 d slot'"
      using run True get g slot by (auto simp: accept_one_def bind_eq_Some_conv)
    note res = conn_slot_result [OF one]
    have op: "d \<in> open_slots rq1" using d(3) by simp
    have "rd_data slot' = rd_data (rq_data rq1 ! d)" "rd_open slot'" using res(1,2) d(1) by (simp_all add: data)
    then have "rq_reach rq rq'" unfolding rq' by (intro put_slot_reach [OF reach op])
    moreover have "open_slots rq' = insert d (open_slots rq)"
      using d res(1) unfolding rq' put_slot_def
      by (auto simp: open_slots_def data nth_list_update split: if_splits)
    moreover have "rq_data rq' ! d = slot'" "\<forall>i. i \<noteq> d \<longrightarrow> rq_data rq' ! i = rq_data rq ! i"
      using d(1) by (auto simp: rq' put_slot_def data)
    ultimately show ?thesis using d(1,2) res(3) by (intro conjI exI [of _ d]) auto
  qed
qed

text \<open>
  C22. A connection that is accepted gets a slot of its own that was free, with the pool, the ring and
  the buffers of that connection only; no other slot changes.
\<close>

theorem accepted_connection_registered:
  assumes "accept_one os th grow mi c rq = Some (True, rq')" and "th_lock th" and "rq_ok rq"
  shows "\<exists>d. d \<notin> open_slots rq \<and> open_slots rq' = insert d (open_slots rq) \<and> rq_ok rq' \<and>
    (\<forall>i. i \<noteq> d \<longrightarrow> rq_data rq' ! i = rq_data rq ! i) \<and>
    rd_cli_fd (rq_data rq' ! d) = ci_fd c \<and> rd_dump_thread (rq_data rq' ! d) = ci_thread c \<and>
    rd_ringbuf (rq_data rq' ! d) \<noteq> None \<and> rd_pool (rq_data rq' ! d) \<noteq> None \<and>
    rd_send_buf (rq_data rq' ! d) \<noteq> None \<and> rd_io_buf (rq_data rq' ! d) \<noteq> None"
  using accept_one_result [OF assms] rq_reach_ok [OF _ assms(3)] by blast

lemma rq_reach_trans: "rq_reach b c \<Longrightarrow> rq_reach a b \<Longrightarrow> rq_reach a c"
  by (induction rule: rq_reach.induct) (auto intro: rq_reach.step)

text \<open>
  C21. However many connections come, the table stays consistent: every connection that is served has an
  open slot, and free and open slots add up to all of them.
\<close>

theorem accept_loop_table:
  assumes "accept_loop os th grow mi es rq = Some (r, rq')" and "th_lock th" and "rq_ok rq"
  shows "rq_reach rq rq' \<and> rq_ok rq' \<and> open_slots rq \<subseteq> open_slots rq' \<and>
    unat (rq_free_num rq') + card (open_slots rq') = unat (rq_num rq)"
proof -
  have "rq_reach rq rq' \<and> open_slots rq \<subseteq> open_slots rq'"
    using assms
  proof (induction os th grow mi es rq rule: accept_loop.induct)
    case (4 os th grow mi c es rq)
    then obtain r1 rq1 where one: "accept_one os th grow mi c rq = Some (r1, rq1)"
      and rest: "(\<not> r1 \<and> rq' = rq1) \<or> (r1 \<and> accept_loop os th grow mi es rq1 = Some (r, rq'))"
      by (auto simp: bind_eq_Some_conv split: if_splits)
    have 1: "rq_reach rq rq1" "open_slots rq \<subseteq> open_slots rq1"
      using accept_one_result [OF one "4.prems"(2,3)] by auto
    have ok1: "rq_ok rq1" using rq_reach_ok [OF 1(1) "4.prems"(3)] by simp
    show ?case
    proof (cases r1)
      case True
      with rest have go: "accept_loop os th grow mi es rq1 = Some (r, rq')" by simp
      have "rq_reach rq1 rq' \<and> open_slots rq1 \<subseteq> open_slots rq'"
        by (rule "4.IH" [OF one refl True go "4.prems"(2) ok1])
      with 1 show ?thesis using rq_reach_trans by blast
    qed (use rest 1 in simp)
  qed (auto intro: rq_reach.start)
  then show ?thesis using rq_reach_ok [OF _ assms(3)] rq_ok_count(1) [of rq'] by auto
qed

section \<open>Concrete runs\<close>

definition demo_master :: rs_master_info_t where
  "demo_master = rs_master_info_t_init
     \<lparr>mi_listen_addr = None, mi_listen_port = 0, mi_binlog_idx_file = None, mi_server_id = 0,
      mi_max_dump_thread = 0, mi_pool_factor = [], mi_pool_memsize = 0, mi_pool_initsize = 0, mi_ringbuf_num = 4,
      mi_sendbuf_size = 0, mi_iobuf_size = 0, mi_accept_thread = 0, mi_accept_thread_exit = False,
      mi_svr_fd = 0, mi_cf = None, mi_req_dump = None, mi_pool = None, mi_id = 0\<rparr>"

definition demo_peer :: conn_in where
  "demo_peer = \<lparr>ci_fd = 8, ci_send = Some (replicate 8 0), ci_io = Some (replicate 8 0), ci_thread = 3\<rparr>"

definition demo_accept :: "bool \<times> rs_reqdump_t" where
  "demo_accept = the (accept_one (os_grant 7) thr_good (\<lambda>_. grow_half) demo_master demo_peer (the (fst table2)))"

lemma demo_accept: "accept_one (os_grant 7) thr_good (\<lambda>_. grow_half) demo_master demo_peer (the (fst table2)) =
    Some (True, snd demo_accept)"
  unfolding demo_accept_def by (rule computes_pair) code_simp+

theorem listen_retries_witness:
  "rs_dump_listen (\<lambda>_. True)
     [\<lparr>be_fd = 4, be_opt = True, be_bind = Addr_in_use, be_listen = True\<rparr>,
      \<lparr>be_fd = 5, be_opt = True, be_bind = Bound, be_listen = True\<rparr>] demo_master =
   Some (RS_OK, demo_master\<lparr>mi_svr_fd := 5\<rparr>, [4, 5])"
  using listen_retries [of demo_master "cstr ''127.0.0.1''" "\<lambda>_. True"
      "[\<lparr>be_fd = 4, be_opt = True, be_bind = Addr_in_use, be_listen = True\<rparr>]"
      "\<lparr>be_fd = 5, be_opt = True, be_bind = Bound, be_listen = True\<rparr>" "[]"]
  by (simp add: demo_master_def rs_master_info_t_init_def)

lemma table2_ok: "rq_ok (the (fst table2))" "open_slots (the (fst table2)) = {}"
  using create_reqdump_ok(1,2) [OF table2_created] by simp_all

theorem accepted_connection_registered_witness:
  "\<exists>d. open_slots (snd demo_accept) = {d} \<and> rd_cli_fd (rq_data (snd demo_accept) ! d) = 8"
  using accepted_connection_registered [OF demo_accept _ table2_ok(1)] table2_ok(2)
  by (auto simp: thr_good_def demo_peer_def)

theorem accept_loop_table_witness:
  "unat (rq_free_num (snd demo_accept)) + card (open_slots (snd demo_accept)) = unat (rq_num (the (fst table2)))"
proof -
  have "accept_loop (os_grant 7) thr_good (\<lambda>_. grow_half) demo_master [Ac_eintr, Ac_conn demo_peer, Ac_err] (the (fst table2)) =
      Some (False, snd demo_accept)"
    by (simp add: demo_accept)
  from accept_loop_table [OF this _ table2_ok(1)] show ?thesis by (simp add: thr_good_def)
qed

end
