(* ===== verification/RS_Main.thy ===== *)
theory RS_Main
  imports RS_TmpBuf RS_String
begin

text \<open>
  \<^verbatim>\<open>src/core/rs.c\<close> and parts of \<^verbatim>\<open>src/core/rs_process.c\<close>: the
  command line, signals, the pid file and the main loop of both programs. What the loop calls is a
  trace of actions; the signals and whether the initialisations succeed are its input.
\<close>

section \<open>The command line\<close>

text \<open>\<open>op_conf\<close> is none while the default path is kept.\<close>

record options =
  op_help :: bool
  op_conf :: "byte list option"

text \<open>
  The characters of one argument behind the dash, with the arguments that follow it: 63 and 104 are
  the question mark and h, 99 is c.
\<close>

fun option_chars :: "byte list \<Rightarrow> byte list list \<Rightarrow> options \<Rightarrow> (rs_code \<times> byte list list \<times> options) option" where
  "option_chars [] as op = None"
| "option_chars (c # p) as op =
     (if c = 0 then Some (RS_OK, as, op)
      else if c = 63 \<or> c = 104 then option_chars p as (op\<lparr>op_help := True\<rparr>)
      else if c = 99 then
        (case p of
           [] \<Rightarrow> None
         | x # _ \<Rightarrow>
             if x \<noteq> 0 then Some (RS_OK, as, op\<lparr>op_conf := Some p\<rparr>)
             else (case as of
                 [] \<Rightarrow> Some (RS_ERR, as, op)
               | a # as' \<Rightarrow> Some (RS_OK, as', op\<lparr>op_conf := Some a\<rparr>)))
      else Some (RS_ERR, as, op))"

lemma option_chars_rest: "option_chars p as op = Some (r, as', op') \<Longrightarrow> length as' \<le> length as"
  by (induction p as op rule: option_chars.induct) (auto split: if_splits list.splits)

text \<open>The arguments behind the name of the program.\<close>

function rs_get_options :: "byte list list \<Rightarrow> options \<Rightarrow> (rs_code \<times> options) option" where
  "rs_get_options [] op = Some (RS_OK, op)"
| "rs_get_options (a # as) op =
     (case a of
        [] \<Rightarrow> None
      | c # p \<Rightarrow>
          if c \<noteq> 45 then Some (RS_ERR, op)
          else case option_chars p as op of
              None \<Rightarrow> None
            | Some (r, as', op') \<Rightarrow> if r \<noteq> RS_OK then Some (r, op') else rs_get_options as' op')"
  by pat_completeness auto
termination
  by (relation "measure (length \<circ> fst)") (auto simp: le_imp_less_Suc dest: option_chars_rest)

section \<open>Signals\<close>

definition SIGHUP :: int where "SIGHUP = 1"
definition SIGINT :: int where "SIGINT = 2"
definition SIGQUIT :: int where "SIGQUIT = 3"
definition SIGPIPE :: int where "SIGPIPE = 13"
definition SIGTERM :: int where "SIGTERM = 15"

text \<open>The new values of \<^verbatim>\<open>rs_quit\<close> and \<^verbatim>\<open>rs_reload\<close>.\<close>

definition rs_sig_handle :: "int \<Rightarrow> bool \<Rightarrow> bool \<Rightarrow> bool \<times> bool" where
  "rs_sig_handle signum quit reload =
     (if signum = SIGPIPE then (quit, reload)
      else if signum = SIGINT \<or> signum = SIGTERM \<or> signum = SIGQUIT then (True, reload)
      else if signum = SIGHUP then (quit, True)
      else (quit, reload))"

section \<open>The pid file\<close>

text \<open>What ends up in the file; \<open>opened\<close> tells whether it can be created.\<close>

definition rs_create_pidfile :: "bool \<Rightarrow> write_ev list \<Rightarrow> nat \<Rightarrow> rs_code \<times> byte list" where
  "rs_create_pidfile opened wr pid =
     (if \<not> opened then (RS_ERR, [])
      else (let s = take 11 (fmt_u pid @ [10]); len = length (fmt_u pid) + 1; (n, _) = rs_write wr len in
        (if n = Some len then RS_OK else RS_ERR, case n of None \<Rightarrow> [] | Some k \<Rightarrow> take k s)))"

section \<open>The main loop\<close>

text \<open>
  The core states are numbered as they are made. The other actions are those of the master or the
  slave.
\<close>

datatype main_act = Init_app | Free_app | Free_core nat | Delete_pid

text \<open>
  The variable \<^verbatim>\<open>ci\<close> of \<^verbatim>\<open>main\<close>, the global
  \<^verbatim>\<open>rs_core_info\<close>, how many core states have been made, and the two flags.
\<close>

record main_st =
  ms_ci :: "nat option"
  ms_core :: "nat option"
  ms_made :: nat
  ms_quit :: bool
  ms_reload :: bool
  ms_acts :: "main_act list"

datatype sig_ev = Sig_eintr | Sig_err | Sig int

abbreviation act :: "main_st \<Rightarrow> main_act list \<Rightarrow> main_st" where
  "act s as \<equiv> s\<lparr>ms_acts := ms_acts s @ as\<rparr>"

text \<open>
  The loop over what \<^verbatim>\<open>sigwaitinfo\<close> returns, each with whether a core state could be
  made then; the result tells whether the loop was left. A failed reload leaves \<^verbatim>\<open>ci\<close>
  NULL, through which the next call is made. The slave ends at a reload.
\<close>

fun main_loop :: "bool \<Rightarrow> (sig_ev \<times> bool) list \<Rightarrow> main_st \<Rightarrow> (bool \<times> main_st) option" where
  "main_loop slave [] s = Some (False, s)"
| "main_loop slave ((e, ok) # es) s =
     (if ms_ci s = None then None
      else case e of
        Sig_eintr \<Rightarrow> main_loop slave es s
      | Sig_err \<Rightarrow> Some (True, act s [Free_app])
      | Sig n \<Rightarrow>
          (let (q, r) = rs_sig_handle n (ms_quit s) (ms_reload s); s1 = s\<lparr>ms_quit := q, ms_reload := r\<rparr> in
           if q then Some (True, act s1 [Free_app])
           else if r then
             (if \<not> ok then main_loop slave es (s1\<lparr>ms_ci := None, ms_reload := False\<rparr>)
              else
               (let new = ms_made s1; s2 = s1\<lparr>ms_ci := Some new, ms_made := new + 1\<rparr> in
                if slave then Some (True, act s2 [Free_app])
                else
                  main_loop slave es
                    ((act s2 (Init_app # (case ms_core s2 of None \<Rightarrow> [] | Some oc \<Rightarrow> [Free_core oc])))
                       \<lparr>ms_reload := False, ms_core := Some new\<rparr>)))
           else main_loop slave es s1))"

text \<open>The end of \<^verbatim>\<open>main\<close>.\<close>

definition main_end :: "bool \<Rightarrow> main_st \<Rightarrow> main_st option" where
  "main_end pid s = (case ms_ci s of None \<Rightarrow> None | Some ci \<Rightarrow> Some (act s ((if pid then [Delete_pid] else []) @ [Free_core ci])))"

text \<open>
  From the first core state on: \<open>app\<close> tells whether the master or slave could be initialised,
  \<open>pid\<close> whether there is a path for the pid file. None inside when the program has not ended.
\<close>

definition main_run :: "bool \<Rightarrow> bool \<Rightarrow> bool \<Rightarrow> bool \<Rightarrow> (sig_ev \<times> bool) list \<Rightarrow> (int \<times> main_st) option option" where
  "main_run slave core app pid es =
     (let s = \<lparr>ms_ci = Some 0, ms_core = Some 0, ms_made = 1, ms_quit = False, ms_reload = False, ms_acts = [Init_app]\<rparr> in
      if \<not> core then Some (Some (1, s\<lparr>ms_ci := None, ms_core := None, ms_made := 0, ms_acts := []\<rparr>))
      else if \<not> app then map_option (\<lambda>t. Some (0, t)) (main_end pid s)
      else do {
        (over, t) \<leftarrow> main_loop slave es s;
        if over then map_option (\<lambda>t. Some (0, t)) (main_end pid t) else Some None })"

text \<open>
  The whole of \<^verbatim>\<open>main\<close>: \<open>texts\<close> tells whether the texts of errors
  could be copied, \<open>as\<close> are the arguments.
\<close>

definition rs_main :: "bool \<Rightarrow> byte list list \<Rightarrow> bool \<Rightarrow> bool \<Rightarrow> bool \<Rightarrow> bool \<Rightarrow> (sig_ev \<times> bool) list \<Rightarrow> (int \<times> main_st) option option" where
  "rs_main texts as slave core app pid es =
     (let s = \<lparr>ms_ci = None, ms_core = None, ms_made = 0, ms_quit = False, ms_reload = False, ms_acts = []\<rparr> in
      if \<not> texts then Some (Some (1, s))
      else do {
        (r, op) \<leftarrow> rs_get_options as \<lparr>op_help = False, op_conf = None\<rparr>;
        if r \<noteq> RS_OK then Some (Some (1, s))
        else if op_help op then Some (Some (0, s))
        else main_run slave core app pid es })"

section \<open>Reloading\<close>

lemma sig_reload [simp]: "rs_sig_handle SIGHUP q r = (q, True)"
  by (simp add: rs_sig_handle_def SIGHUP_def SIGINT_def SIGQUIT_def SIGPIPE_def SIGTERM_def)

text \<open>What goes before the end: interrupts, broken pipes and reloads that succeed.\<close>

definition quiet :: "sig_ev \<times> bool \<Rightarrow> bool" where
  "quiet e \<longleftrightarrow> fst e = Sig_eintr \<or> fst e = Sig SIGPIPE \<or> e = (Sig SIGHUP, True)"

definition reloads :: "(sig_ev \<times> bool) list \<Rightarrow> nat" where
  "reloads es = length (filter (\<lambda>e. e = (Sig SIGHUP, True)) es)"

lemma master_quiet:
  assumes "\<forall>e \<in> set es. quiet e" and "ms_ci s = Some k" and "ms_core s = Some k" and "ms_made s = k + 1"
    and "\<not> ms_quit s" and "\<not> ms_reload s"
  shows "main_loop False (es @ rest) s = main_loop False rest
    (s\<lparr>ms_ci := Some (k + reloads es), ms_core := Some (k + reloads es), ms_made := k + 1 + reloads es,
       ms_acts := ms_acts s @ concat (map (\<lambda>i. [Init_app, Free_core (k + i)]) [0..<reloads es])\<rparr>)"
  using assms
proof (induction es arbitrary: s k)
  case Nil
  then have same: "s\<lparr>ms_ci := Some k, ms_core := Some k, ms_made := Suc k\<rparr> = s" by (cases s) simp
  show ?case by (simp add: reloads_def same)
next
  case (Cons e es)
  obtain ev ok where e: "e = (ev, ok)" by (cases e)
  from Cons.prems(1) consider "ev = Sig_eintr" | "ev = Sig SIGPIPE" | "ev = Sig SIGHUP" "ok" by (auto simp: quiet_def e)
  then show ?case
  proof cases
    case 1
    with Cons show ?thesis by (simp add: e reloads_def)
  next
    case 2
    have same: "s\<lparr>ms_quit := False, ms_reload := False\<rparr> = s" using Cons.prems by (cases s) simp
    have step: "main_loop False ((e # es) @ rest) s = main_loop False (es @ rest) s"
      using Cons.prems(2,5,6) 2 by (simp add: e rs_sig_handle_def same [simplified])
    have r: "reloads (e # es) = reloads es" using 2 by (simp add: e reloads_def SIGPIPE_def SIGHUP_def)
    show ?thesis unfolding step r using Cons.IH Cons.prems by simp
  next
    case 3
    let ?s = "s\<lparr>ms_quit := False, ms_reload := False, ms_ci := Some (k + 1), ms_made := k + 2, ms_core := Some (k + 1),
        ms_acts := ms_acts s @ [Init_app, Free_core k]\<rparr>"
    have step: "main_loop False ((e # es) @ rest) s = main_loop False (es @ rest) ?s"
      using Cons.prems 3 by (cases s) (simp add: e Let_def)
    have upt: "concat (map (\<lambda>i. [Init_app, Free_core (k + i)]) [0..<Suc (reloads es)]) =
        [Init_app, Free_core k] @ concat (map (\<lambda>i. [Init_app, Free_core (k + 1 + i)]) [0..<reloads es])"
      by (simp add: upt_conv_Cons map_Suc_upt [symmetric] comp_def del: upt_Suc)
    have r: "reloads (e # es) = Suc (reloads es)" using 3 by (simp add: e reloads_def)
    have q: "ms_quit s = False" "ms_reload s = False" using Cons.prems by simp_all
    show ?thesis unfolding step r upt using Cons.IH [of ?s "k + 1"] Cons.prems(1) q by (cases s) simp
  qed
qed

text \<open>
  C33. The master, reloaded any number of times, ends when it is told to, with the master released once
  at the end and every core state it made released exactly once.
\<close>

theorem master_releases_cores:
  assumes "\<forall>e \<in> set es. quiet e" and "n \<in> {SIGINT, SIGTERM, SIGQUIT}"
  shows "\<exists>s. main_run False True True pid (es @ [(Sig n, ok)]) = Some (Some (0, s)) \<and>
    ms_made s = Suc (reloads es) \<and> filter (\<lambda>a. a = Free_app) (ms_acts s) = [Free_app] \<and>
    filter (\<lambda>a. \<exists>k. a = Free_core k) (ms_acts s) = map Free_core [0..<Suc (reloads es)]"
proof -
  let ?r = "reloads es"
  let ?s = "\<lparr>ms_ci = Some 0, ms_core = Some 0, ms_made = 1, ms_quit = False, ms_reload = False, ms_acts = [Init_app]\<rparr>"
  let ?acts = "Init_app # concat (map (\<lambda>i. [Init_app, Free_core i]) [0..<?r])"
  have sig: "rs_sig_handle n False False = (True, False)"
    using assms(2) by (auto simp: rs_sig_handle_def SIGHUP_def SIGINT_def SIGQUIT_def SIGPIPE_def SIGTERM_def)
  have loop: "main_loop False (es @ [(Sig n, ok)]) ?s = Some (True,
      \<lparr>ms_ci = Some ?r, ms_core = Some ?r, ms_made = Suc ?r, ms_quit = True, ms_reload = False, ms_acts = ?acts @ [Free_app]\<rparr>)"
    using master_quiet [OF assms(1), of ?s 0 "[(Sig n, ok)]"] by (simp add: sig)
  have a: "filter (\<lambda>a. a = Free_app) (concat (map (\<lambda>i. [Init_app, Free_core i]) xs)) = []" for xs by (induction xs) simp_all
  have c: "filter (\<lambda>a. \<exists>k. a = Free_core k) (concat (map (\<lambda>i. [Init_app, Free_core i]) xs)) = map Free_core xs" for xs
    by (induction xs) simp_all
  show ?thesis using loop by (simp add: main_run_def Let_def main_end_def a c)
qed

text \<open>
  C36. A reload that fails takes the program down: the next signal, whatever it is, is waited for through
  a NULL pointer.
\<close>

theorem failed_reload_is_fatal:
  assumes "\<forall>e \<in> set es. quiet e"
  shows "main_run False True True pid (es @ (Sig SIGHUP, False) # e # rest) = None"
proof -
  let ?s = "\<lparr>ms_ci = Some 0, ms_core = Some 0, ms_made = 1, ms_quit = False, ms_reload = False, ms_acts = [Init_app]\<rparr>"
  have "main_loop False (es @ (Sig SIGHUP, False) # e # rest) ?s = None"
    using master_quiet [OF assms, of ?s 0 "(Sig SIGHUP, False) # e # rest"] by (cases e) (simp add: Let_def)
  then show ?thesis by (simp add: main_run_def Let_def)
qed

text \<open>The slave does not reload: it ends, and the core state it started with is never released.\<close>

theorem slave_ends_at_reload:
  "main_run True True True pid ((Sig SIGHUP, True) # es) =
     Some (Some (0, \<lparr>ms_ci = Some 1, ms_core = Some 0, ms_made = 2, ms_quit = False, ms_reload = True,
       ms_acts = [Init_app, Free_app] @ (if pid then [Delete_pid] else []) @ [Free_core 1]\<rparr>))"
  by (simp add: main_run_def Let_def main_end_def)

theorem master_releases_cores_witness:
  "\<exists>s. main_run False True True True ([(Sig SIGHUP, True), (Sig SIGPIPE, True)] @ [(Sig SIGTERM, True)]) = Some (Some (0, s)) \<and>
     ms_made s = 2"
proof -
  have q: "\<forall>e \<in> set [(Sig SIGHUP, True), (Sig SIGPIPE, True)]. quiet e" by (simp add: quiet_def)
  have "reloads [(Sig SIGHUP, True), (Sig SIGPIPE, True)] = 1" by (simp add: reloads_def SIGHUP_def SIGPIPE_def)
  with master_releases_cores [OF q, of SIGTERM True True] show ?thesis by auto
qed

theorem failed_reload_is_fatal_witness:
  "main_run False True True True ([(Sig SIGHUP, True)] @ (Sig SIGHUP, False) # (Sig_eintr, True) # []) = None"
  by (rule failed_reload_is_fatal) (simp add: quiet_def)

end
