(* ===== verification/RS_Log.thy ===== *)
theory RS_Log
  imports RS_String
begin

text \<open>
  \<^verbatim>\<open>src/core/rs_log.c\<close> and \<^verbatim>\<open>rs_errno.c\<close>: the debug levels of the
  configuration and the line a log call writes, which is put together in a buffer of 2048 bytes.
  The time, the thread and the message are given as the text their formats expand to.
\<close>

section \<open>Debug levels\<close>

definition rs_debug_levels :: "byte list list" where
  "rs_debug_levels = map ascii [''ALLOC'', ''HASH'', ''TMPBUF'', ''RINGBUF'', ''BINLOG'']"

definition RS_DEBUG_FIRST :: u32 where "RS_DEBUG_FIRST = 0x010"

text \<open>The first level, from number i on, whose name p begins with.\<close>

fun find_debug_level :: "nat \<Rightarrow> byte list list \<Rightarrow> byte list \<Rightarrow> nat option option" where
  "find_debug_level i [] p = Some None"
| "find_debug_level i (t # ts) p = do {
     same \<leftarrow> c_strncmp_eq (length t) t p;
     if same then Some (Some i) else find_debug_level (Suc i) ts p }"

text \<open>
  The loop over the string. The first time p is at its beginning, later at the bar in front of the
  next name.
\<close>

function set_levels_loop :: "bool \<Rightarrow> byte list \<Rightarrow> u32 \<Rightarrow> (rs_code \<times> u32) option" where
  "set_levels_loop first p lv =
     (if p = [] then None
      else
       (let q = (if first then p else tl p) in
        case find_debug_level 0 rs_debug_levels q of
          None \<Rightarrow> None
        | Some None \<Rightarrow> Some (RS_ERR, lv)
        | Some (Some i) \<Rightarrow>
            (let lv' = lv OR push_bit i RS_DEBUG_FIRST in
             case c_strchr 124 q of
               None \<Rightarrow> None
             | Some None \<Rightarrow> Some (RS_OK, lv')
             | Some (Some k) \<Rightarrow> set_levels_loop False (drop k q) lv')))"
  by pat_completeness auto
termination
  by (relation "measure (\<lambda>(first, p, lv). length p + (if first then 1 else 0))")
    (auto simp: neq_Nil_conv split: if_splits)

declare set_levels_loop.simps [simp del]

definition rs_log_set_levels :: "byte list option \<Rightarrow> u32 \<Rightarrow> (rs_code \<times> u32) option" where
  "rs_log_set_levels debug_level lv =
     (case debug_level of None \<Rightarrow> Some (RS_OK, lv) | Some p \<Rightarrow> set_levels_loop True p lv)"

section \<open>Error texts\<close>

definition RS_SYS_NERR :: nat where "RS_SYS_NERR = 135"

text \<open>The bytes copied for an error; the number is looked at as unsigned.\<close>

definition rs_strerror :: "byte list list \<Rightarrow> u32 \<Rightarrow> nat \<Rightarrow> byte list option" where
  "rs_strerror errlist err sz =
     map_option (take sz)
       (if unat err < RS_SYS_NERR then mem_get errlist (unat err) else Some (ascii ''Unknown error''))"

text \<open>
  The texts are copied from the C library, each into memory of its own; \<open>ms\<close> tells which
  allocations succeed.
\<close>

fun strerror_loop :: "(nat \<Rightarrow> byte list) \<Rightarrow> nat \<Rightarrow> nat \<Rightarrow> bool list \<Rightarrow> rs_code \<times> byte list list" where
  "strerror_loop txt 0 err ms = (RS_OK, [])"
| "strerror_loop txt (Suc n) err ms =
     (if ms = [] \<or> \<not> hd ms then (RS_ERR, [])
      else (let (r, ts) = strerror_loop txt n (Suc err) (tl ms) in (r, txt err # ts)))"

definition rs_init_strerror :: "(nat \<Rightarrow> byte list) \<Rightarrow> bool \<Rightarrow> bool list \<Rightarrow> rs_code \<times> byte list list" where
  "rs_init_strerror txt made ms = (if made then strerror_loop txt RS_SYS_NERR 0 ms else (RS_ERR, []))"

text \<open>The numbers whose text is released: an empty one is not.\<close>

definition rs_free_strerr :: "byte list list option \<Rightarrow> nat list" where
  "rs_free_strerr errlist = (case errlist of None \<Rightarrow> [] | Some ts \<Rightarrow> filter (\<lambda>i. ts ! i \<noteq> []) [0..<RS_SYS_NERR])"

lemma strerror_loop_all:
  "length ms = n \<Longrightarrow> \<forall>m \<in> set ms. m \<Longrightarrow> strerror_loop txt n err ms = (RS_OK, map txt [err..<err + n])"
proof (induction n arbitrary: err ms)
  case (Suc n)
  from Suc.prems Suc.IH [of "tl ms" "Suc err"] show ?case by (cases ms) (auto simp: upt_conv_Cons simp del: upt_Suc)
qed simp

section \<open>A line of the log\<close>

definition rs_log_levels :: "byte list list" where
  "rs_log_levels = map ascii [''[ERROR] '', ''[INFO]  '', ''[DEBUG] '']"

definition RS_LOG_MAX :: u32 where "RS_LOG_MAX = 2"

abbreviation log_cap :: nat where "log_cap \<equiv> 2048"

text \<open>What \<^verbatim>\<open>snprintf(p, n, ...)\<close> stores of the text s.\<close>

definition snprintf_out :: "nat \<Rightarrow> byte list \<Rightarrow> byte list" where
  "snprintf_out n s = (if n = 0 then [] else take (n - 1) s @ [0])"

definition thread_text :: "nat \<Rightarrow> byte list" where
  "thread_text tid = ascii ''<thread : '' @ fmt_u tid @ ascii ''> ''"

text \<open>The text of an error, moved back over the message when the line is nearly full.\<close>

definition log_err :: "byte list list \<Rightarrow> u32 \<Rightarrow> byte list \<Rightarrow> nat \<Rightarrow> (byte list \<times> nat) option" where
  "log_err errlist err buf p = do {
     (buf1, p1) \<leftarrow> (if p > log_cap - 50
                    then map_option (\<lambda>b. (b, log_cap - 50 + 3)) (mem_write buf (log_cap - 50) [46, 46, 46])
                    else Some (buf, p));
     let e = ascii '' ---- ('' @ fmt_u (unat err) @ ascii '': '';
     buf2 \<leftarrow> mem_write buf1 p1 (snprintf_out (log_cap - p1) e);
     let p2 = p1 + length e;
     t \<leftarrow> rs_strerror errlist err (log_cap - p2);
     buf3 \<leftarrow> mem_write buf2 p2 t;
     let p3 = p2 + length t;
     if p3 < log_cap then map_option (\<lambda>b. (b, p3 + 1)) (mem_write buf3 p3 [41]) else Some (buf3, p3) }"

text \<open>
  The macro \<^verbatim>\<open>TIME_LEN\<close> is \<^verbatim>\<open>sizeof(...) - 1\<close> without parentheses, so
  subtracting it takes off 20 and another 1. Nothing is written when the level is above the limit.
\<close>

definition rs_log_base ::
    "byte list list \<Rightarrow> u32 \<Rightarrow> u32 \<Rightarrow> byte list \<Rightarrow> nat \<Rightarrow> byte list \<Rightarrow> u32 \<Rightarrow> byte list option option" where
  "rs_log_base errlist limit level time tid msg err =
     (if limit < level then Some None
      else do {
        lv \<leftarrow> mem_get rs_log_levels (unat (if level > RS_LOG_MAX then RS_LOG_MAX else level));
        let p = length time + 1;
        buf1 \<leftarrow> mem_write (replicate log_cap 0) 0 (time @ [32]);
        buf2 \<leftarrow> mem_write buf1 p lv;
        let p1 = p + length lv;
        buf3 \<leftarrow> mem_write buf2 p1 (snprintf_out (log_cap - p1) (thread_text tid));
        let p2 = p1 + length (thread_text tid);
        buf4 \<leftarrow> mem_write buf3 p2 (snprintf_out (log_cap - 20 - 1 - length lv) msg);
        let p3 = p2 + length msg;
        (buf5, p4) \<leftarrow> (if err \<noteq> 0 then log_err errlist err buf4 p3 else Some (buf4, p3));
        let p5 = min p4 (log_cap - 1);
        buf6 \<leftarrow> mem_write buf5 p5 [10];
        Some (Some (take (p5 + 1) buf6)) })"

section \<open>Levels by name\<close>

lemma debug_bytes: "rs_debug_levels =
    [[65, 76, 76, 79, 67], [72, 65, 83, 72], [84, 77, 80, 66, 85, 70], [82, 73, 78, 71, 66, 85, 70], [66, 73, 78, 76, 79, 71]]"
  by code_simp

lemma debug_names:
  assumes "i < 5" and "x \<in> {0, 124}"
  shows "find_debug_level 0 rs_debug_levels (rs_debug_levels ! i @ x # r) = Some (Some i)"
    and "0 \<notin> set (rs_debug_levels ! i)" and "124 \<notin> set (rs_debug_levels ! i)"
proof -
  consider "i = 0" | "i = 1" | "i = 2" | "i = 3" | "i = 4" using assms(1) by linarith
  note cases = this
  from cases show "find_debug_level 0 rs_debug_levels (rs_debug_levels ! i @ x # r) = Some (Some i)"
    by cases (simp_all add: debug_bytes)
  from cases show "0 \<notin> set (rs_debug_levels ! i)" by cases (simp_all add: debug_bytes)
  from cases show "124 \<notin> set (rs_debug_levels ! i)" by cases (simp_all add: debug_bytes)
qed

text \<open>Names joined by bars.\<close>

fun join_levels :: "nat list \<Rightarrow> byte list" where
  "join_levels [] = []"
| "join_levels [i] = rs_debug_levels ! i"
| "join_levels (i # js) = rs_debug_levels ! i @ 124 # join_levels js"

definition level_bits :: "nat list \<Rightarrow> u32 \<Rightarrow> u32" where
  "level_bits is lv = foldl (\<lambda>l i. l OR push_bit i RS_DEBUG_FIRST) lv is"

lemma set_levels_loop_join:
  assumes "is \<noteq> []" and "\<forall>i \<in> set is. i < 5"
  shows "set_levels_loop first ((if first then [] else [124]) @ join_levels is @ [0]) lv = Some (RS_OK, level_bits is lv)"
  using assms
proof (induction "is" arbitrary: first lv rule: join_levels.induct)
  case (2 i)
  then show ?case using debug_names(1) [of i 0 "[]"] debug_names(2,3) [of i 0] c_strchr_None [of "rs_debug_levels ! i" 124 "[]"]
    by (subst set_levels_loop.simps) (simp add: level_bits_def Let_def)
next
  case (3 i j js)
  let ?r = "join_levels (j # js) @ [0]"
  let ?lv = "lv OR push_bit i RS_DEBUG_FIRST"
  have "set_levels_loop False (124 # ?r) ?lv = Some (RS_OK, level_bits (j # js) ?lv)"
    using "3.IH" [of False ?lv] "3.prems" by simp
  moreover have "c_strchr 124 (rs_debug_levels ! i @ 124 # ?r) = Some (Some (length (rs_debug_levels ! i)))"
    using debug_names(2,3) [of i 0] "3.prems" by (intro c_strchr_append) auto
  ultimately show ?case using debug_names(1) [of i 124 ?r] "3.prems"
    by (subst set_levels_loop.simps) (simp add: level_bits_def Let_def)
qed simp

section \<open>The line\<close>

lemma fmt_u_length: "n < 10 ^ k \<Longrightarrow> 0 < k \<Longrightarrow> length (fmt_u n) \<le> k"
proof (induction n arbitrary: k rule: fmt_u.induct)
  case (1 n)
  show ?case
  proof (cases "n < 10")
    case True
    with "1.prems" show ?thesis by (subst fmt_u.simps) simp
  next
    case False
    then obtain k' where k: "k = Suc k'" "0 < k'" using "1.prems" by (cases k; cases "k - 1") auto
    then have "n div 10 < 10 ^ k'" using "1.prems" by (simp add: less_mult_imp_div_less mult.commute)
    with False "1.IH" [of k'] k show ?thesis by (subst fmt_u.simps) simp
  qed
qed

lemma mem_write_some: "off + length src \<le> length m \<Longrightarrow> \<exists>m'. mem_write m off src = Some m' \<and> length m' = length m"
  by (simp add: mem_write_def)

lemma mem_write_tail:
  assumes "a = take off m" and "off + length src \<le> length m"
  shows "\<exists>m'. mem_write m off src = Some m' \<and> length m' = length m \<and> take (off + length src) m' = a @ src"
  using assms by (simp add: mem_write_def)

lemma snprintf_length: "length (snprintf_out n s) \<le> n"
  by (auto simp: snprintf_out_def min_def)

lemma log_err_ok:
  assumes "length buf = log_cap" and "err < 2 ^ 31" and "length errlist = RS_SYS_NERR"
  shows "\<exists>buf' p'. log_err errlist err buf p = Some (buf', p') \<and> length buf' = log_cap"
proof -
  let ?e = "ascii '' ---- ('' @ fmt_u (unat err) @ ascii '': ''"
  have "unat err < 2 ^ 31" using assms(2) by (simp add: word_less_nat_alt)
  then have "length (fmt_u (unat err)) \<le> 10" by (intro fmt_u_length) simp_all
  then have e: "length ?e \<le> 19" by (simp add: ascii_def)
  define st where "st = (if p > log_cap - 50
      then map_option (\<lambda>b. (b, log_cap - 50 + 3)) (mem_write buf (log_cap - 50) [46, 46, 46]) else Some (buf, p))"
  obtain buf1 p1 where 1: "st = Some (buf1, p1)" "length buf1 = log_cap" "p1 \<le> log_cap - 47"
    using mem_write_some [of "log_cap - 50" "[46, 46, 46]" buf] assms(1) by (cases "p > log_cap - 50") (auto simp: st_def)
  have "p1 + length (snprintf_out (log_cap - p1) ?e) \<le> length buf1"
    using snprintf_length [of "log_cap - p1" ?e] 1 by simp
  from mem_write_some [OF this] obtain buf2 where 2: "mem_write buf1 p1 (snprintf_out (log_cap - p1) ?e) = Some buf2"
    "length buf2 = log_cap" using 1(2) by auto
  define p2 where "p2 = p1 + length ?e"
  have p2: "p2 \<le> log_cap" using 1(3) e by (simp add: p2_def)
  obtain t where t: "rs_strerror errlist err (log_cap - p2) = Some t" "length t \<le> log_cap - p2"
    using assms(3) by (cases "unat err < RS_SYS_NERR") (auto simp: rs_strerror_def mem_get_def)
  have "p2 + length t \<le> length buf2" using t(2) p2 2(2) by linarith
  from mem_write_some [OF this] obtain buf3 where 3: "mem_write buf2 p2 t = Some buf3" "length buf3 = log_cap"
    using 2(2) by auto
  have "p2 + length t < log_cap \<Longrightarrow> \<exists>b. mem_write buf3 (p2 + length t) [41] = Some b \<and> length b = log_cap"
    using mem_write_some [of "p2 + length t" "[41]" buf3] 3(2) by simp
  then show ?thesis unfolding log_err_def st_def [symmetric] Let_def 1(1)
    by (cases "p2 + length t < log_cap") (auto simp: 2(1) 3 t(1) p2_def [symmetric] simp del: length_append)
qed

definition log_head :: "u32 \<Rightarrow> byte list \<Rightarrow> nat \<Rightarrow> byte list" where
  "log_head level time tid =
     time @ [32] @ rs_log_levels ! unat (if level > RS_LOG_MAX then RS_LOG_MAX else level) @ thread_text tid"

lemma log_levels_length: "i < 3 \<Longrightarrow> length (rs_log_levels ! i) = 8"
  by (auto simp: rs_log_levels_def ascii_def less_Suc_eq numeral_3_eq_3)

lemma level_index: "unat (if (level :: u32) > RS_LOG_MAX then RS_LOG_MAX else level) < 3"
  by (auto simp: RS_LOG_MAX_def word_less_nat_alt)

lemma take_more: "take n m' = x \<Longrightarrow> k \<le> n \<Longrightarrow> take k m' = take k x"
  by auto

text \<open>The buffer behind the prefix and the message.\<close>

lemma log_prefix:
  assumes "length time = 19" and "tid < 2 ^ 64"
    and h_def: "h = log_head level time tid" and lv_def: "lv = rs_log_levels ! unat (if level > RS_LOG_MAX then RS_LOG_MAX else level)"
  obtains buf where "length buf = log_cap" and "take (length h) buf = h" and "41 \<le> length h" and "length h \<le> 61"
    and "length lv = 8"
    and "(do {
        buf1 \<leftarrow> mem_write (replicate log_cap 0) 0 (time @ [32]);
        buf2 \<leftarrow> mem_write buf1 (length time + 1) lv;
        mem_write buf2 (length time + 1 + length lv)
          (snprintf_out (log_cap - (length time + 1 + length lv)) (thread_text tid)) }) = Some buf"
proof -
  have lv: "length lv = 8" unfolding lv_def by (rule log_levels_length [OF level_index])
  have "length (fmt_u tid) \<le> 20" using assms(2) by (intro fmt_u_length) simp_all
  moreover have "1 \<le> length (fmt_u tid)" by (subst fmt_u.simps) simp
  ultimately have t: "13 \<le> length (thread_text tid)" "length (thread_text tid) \<le> 33"
    by (auto simp: thread_text_def ascii_def)
  have h: "h = (time @ [32]) @ lv @ thread_text tid" by (simp add: h_def log_head_def lv_def)
  have sn: "snprintf_out (log_cap - 28) (thread_text tid) = thread_text tid @ [0]"
    using t(2) by (simp add: snprintf_out_def)
  obtain b1 where b1: "mem_write (replicate log_cap 0) 0 (time @ [32]) = Some b1" "length b1 = log_cap" "take 20 b1 = time @ [32]"
    using mem_write_tail [of "[]" 0 "replicate log_cap 0" "time @ [32]"] assms(1) by auto
  obtain b2 where b2: "mem_write b1 20 lv = Some b2" "length b2 = log_cap" "take 28 b2 = (time @ [32]) @ lv"
    using mem_write_tail [of "time @ [32]" 20 b1 lv] b1 lv by auto
  obtain b3 where b3: "mem_write b2 28 (thread_text tid @ [0]) = Some b3" "length b3 = log_cap"
    "take (28 + (length (thread_text tid) + 1)) b3 = ((time @ [32]) @ lv) @ thread_text tid @ [0]"
    using mem_write_tail [of "(time @ [32]) @ lv" 28 b2 "thread_text tid @ [0]"] b2 t(2) by auto
  have "h @ [0] = take (length h + 1) b3" using b3(3) assms(1) lv by (simp add: h)
  then have "take (length h) b3 = h"
    by (metis append_eq_conv_conj le_add1 min.absorb1 take_take)
  with that [of b3] b1 b2 b3 t lv assms(1) sn show thesis by (simp add: h)
qed

lemma log_base_line:
  assumes "level \<le> limit" and "length time = 19" and "tid < 2 ^ 64" and "h = log_head level time tid"
  shows "length h + length msg < log_cap \<Longrightarrow>
      \<exists>buf. length buf = log_cap \<and> take (length h + length msg) buf = h @ msg \<and>
        rs_log_base errlist limit level time tid msg err = do {
          (buf5, p4) \<leftarrow> (if err \<noteq> 0 then log_err errlist err buf (length h + length msg) else Some (buf, length h + length msg));
          buf6 \<leftarrow> mem_write buf5 (min p4 (log_cap - 1)) [10];
          Some (Some (take (min p4 (log_cap - 1) + 1) buf6)) }"
    and "log_cap \<le> length h + length msg \<Longrightarrow> rs_log_base errlist limit level time tid msg err = None"
proof -
  define i where "i = unat (if level > RS_LOG_MAX then RS_LOG_MAX else level)"
  let ?lv = "rs_log_levels ! i"
  obtain b where b: "length b = log_cap" "take (length h) b = h" "41 \<le> length h" "length h \<le> 61" "length ?lv = 8"
    and run: "(do {
        buf1 \<leftarrow> mem_write (replicate log_cap 0) 0 (time @ [32]);
        buf2 \<leftarrow> mem_write buf1 (length time + 1) ?lv;
        mem_write buf2 (length time + 1 + length ?lv)
          (snprintf_out (log_cap - (length time + 1 + length ?lv)) (thread_text tid)) }) = Some b"
    using log_prefix [OF assms(2,3,4) refl] unfolding i_def by blast
  have lv: "mem_get rs_log_levels i = Some ?lv"
    using level_index [of level] by (simp add: mem_get_def rs_log_levels_def i_def)
  have lh: "length h = length time + 1 + length ?lv + length (thread_text tid)" by (simp add: assms(4) log_head_def i_def)
  have base: "rs_log_base errlist limit level time tid msg err = do {
      buf4 \<leftarrow> mem_write b (length h) (snprintf_out 2019 msg);
      (buf5, p4) \<leftarrow> (if err \<noteq> 0 then log_err errlist err buf4 (length h + length msg) else Some (buf4, length h + length msg));
      buf6 \<leftarrow> mem_write buf5 (min p4 (log_cap - 1)) [10];
      Some (Some (take (min p4 (log_cap - 1) + 1) buf6)) }"
  proof -
    from run obtain b1 b2 where "mem_write (replicate log_cap 0) 0 (time @ [32]) = Some b1"
      "mem_write b1 (length time + 1) ?lv = Some b2"
      "mem_write b2 (length time + 1 + length ?lv)
          (snprintf_out (log_cap - (length time + 1 + length ?lv)) (thread_text tid)) = Some b"
      by (auto simp: bind_eq_Some_conv)
    moreover have "\<not> limit < level" using assms(1) by simp
    ultimately show ?thesis unfolding rs_log_base_def Let_def i_def [symmetric] lh
      by (simp only: lv b(5) if_False bind.bind_lunit) simp
  qed
  show "log_cap \<le> length h + length msg \<Longrightarrow> rs_log_base errlist limit level time tid msg err = None"
    unfolding base using b by (auto simp: mem_write_def snprintf_out_def min_def)
  show "length h + length msg < log_cap \<Longrightarrow>
      \<exists>buf. length buf = log_cap \<and> take (length h + length msg) buf = h @ msg \<and>
        rs_log_base errlist limit level time tid msg err = do {
          (buf5, p4) \<leftarrow> (if err \<noteq> 0 then log_err errlist err buf (length h + length msg) else Some (buf, length h + length msg));
          buf6 \<leftarrow> mem_write buf5 (min p4 (log_cap - 1)) [10];
          Some (Some (take (min p4 (log_cap - 1) + 1) buf6)) }"
  proof -
    assume fit: "length h + length msg < log_cap"
    have sn: "snprintf_out 2019 msg = msg @ [0]" using fit b(3) by (simp add: snprintf_out_def)
    have "length h + length (msg @ [0]) \<le> length b" using fit b by simp
    from mem_write_tail [OF b(2) [symmetric] this] obtain b4 where b4: "mem_write b (length h) (msg @ [0]) = Some b4"
      "length b4 = log_cap" "take (length h + length (msg @ [0])) b4 = h @ msg @ [0]" using b(1) by auto
    have "take (length h + length msg) b4 = h @ msg"
      using take_more [OF b4(3), of "length h + length msg"] by simp
    with b4 show ?thesis unfolding base sn by auto
  qed
qed

section \<open>Properties\<close>

text \<open>The names of debug levels joined by bars switch on exactly their bits.\<close>

theorem log_levels_set:
  assumes "is \<noteq> []" and "\<forall>i \<in> set is. i < 5"
  shows "rs_log_set_levels (Some (join_levels is @ [0])) lv = Some (RS_OK, level_bits is lv)"
  using set_levels_loop_join [OF assms, of True lv] by (simp add: rs_log_set_levels_def)

theorem log_levels_set_witness:
  "rs_log_set_levels (Some (cstr ''BINLOG|ALLOC'')) 0 = Some (RS_OK, 0x110)"
proof -
  have "join_levels [4, 0] @ [0] = cstr ''BINLOG|ALLOC''" "level_bits [4, 0] 0 = 0x110" by code_simp+
  with log_levels_set [of "[4, 0]" 0] show ?thesis by simp
qed

text \<open>
  C34. A log line stays in its buffer exactly when the prefix and the message fit together: then it is
  written whole, and with an error it is at most the buffer. A longer message is stored behind the
  end of the array, since its bound leaves out the space and the text of the thread.
\<close>

theorem log_line_bounds:
  assumes "level \<le> limit" and "length time = 19" and "tid < 2 ^ 64" and "err < 2 ^ 31"
    and "length errlist = RS_SYS_NERR" and "h = log_head level time tid"
  shows "(if length h + length msg < log_cap
          then \<exists>line. rs_log_base errlist limit level time tid msg err = Some (Some line) \<and> length line \<le> log_cap \<and>
                 (err = 0 \<longrightarrow> line = h @ msg @ [10])
          else rs_log_base errlist limit level time tid msg err = None)"
proof (cases "length h + length msg < log_cap")
  case False
  with log_base_line(2) [OF assms(1-3,6)] show ?thesis by simp
next
  case True
  from log_base_line(1) [OF assms(1-3,6) True, of errlist err] obtain buf where
    buf: "length buf = log_cap" "take (length h + length msg) buf = h @ msg"
    and run: "rs_log_base errlist limit level time tid msg err = do {
          (buf5, p4) \<leftarrow> (if err \<noteq> 0 then log_err errlist err buf (length h + length msg) else Some (buf, length h + length msg));
          buf6 \<leftarrow> mem_write buf5 (min p4 (log_cap - 1)) [10];
          Some (Some (take (min p4 (log_cap - 1) + 1) buf6)) }" by blast
  show ?thesis
  proof (cases "err = 0")
    case True
    let ?n = "length h + length msg"
    have "?n + length [10 :: byte] \<le> length buf" using \<open>?n < log_cap\<close> buf(1) by simp
    from mem_write_tail [OF buf(2) [symmetric] this] obtain b6 where "mem_write buf ?n [10] = Some b6" "length b6 = log_cap"
      "take (?n + 1) b6 = (h @ msg) @ [10]" using buf(1) by auto
    then show ?thesis using \<open>?n < log_cap\<close> True run by (simp add: min_def)
  next
    case False
    from log_err_ok [OF buf(1) assms(4,5), of "length h + length msg"] obtain b5 p4 where
      e: "log_err errlist err buf (length h + length msg) = Some (b5, p4)" "length b5 = log_cap" by blast
    have "min p4 (log_cap - 1) + length [10 :: byte] \<le> length b5" using e(2) by simp
    from mem_write_some [OF this] obtain b6 where "mem_write b5 (min p4 (log_cap - 1)) [10] = Some b6" "length b6 = log_cap"
      using e(2) by auto
    then show ?thesis using \<open>length h + length msg < log_cap\<close> False by (simp add: run e(1))
  qed
qed

theorem log_line_bounds_witness:
  "rs_log_base (replicate RS_SYS_NERR []) 1 0 (replicate 19 48) 7 (replicate 2030 65) 0 = None"
proof -
  have h: "log_head 0 (replicate 19 48) 7 = replicate 19 48 @ [32] @ ascii ''[ERROR] <thread : 7> ''" by code_simp
  have l: "length (log_head 0 (replicate 19 48) 7) = 41" unfolding h by (simp add: ascii_def)
  from log_line_bounds [of 0 1 "replicate 19 48" 7 0 "replicate RS_SYS_NERR []" _ "replicate 2030 65", OF _ _ _ _ _ refl] l
  show ?thesis by simp
qed

end
