(* ===== verification/RS_ConfVars.thy ===== *)
theory RS_ConfVars
  imports RS_Conf
begin

text \<open>
  The variables of a state record that are registered with a configuration. The record is a chunk of
  memory; a variable is its offset. What a file has set is read back into the field of the record.
\<close>

type_synonym conf_reg = "byte list \<times> nat \<times> int"

text \<open>The chain of registrations: the first that fails ends it.\<close>

fun register_vars :: "os_mem \<Rightarrow> conf_env \<Rightarrow> addr \<Rightarrow> conf_reg list \<Rightarrow> (rs_code \<times> conf_env) option" where
  "register_vars os e a [] = Some (RS_OK, e)"
| "register_vars os e a ((key, off, ty) # rs) = do {
     (r, e1) \<leftarrow> rs_conf_register os e key (a + off) ty;
     if r \<noteq> RS_OK then Some (RS_ERR, e1) else register_vars os e1 a rs }"

definition var_u32 :: "conf_env \<Rightarrow> addr \<Rightarrow> u32 \<Rightarrow> u32" where
  "var_u32 e x old = (case ce_vars e x of Some (CV_uint32 w) \<Rightarrow> w | _ \<Rightarrow> old)"

definition var_int :: "conf_env \<Rightarrow> addr \<Rightarrow> int \<Rightarrow> int" where
  "var_int e x old = (case ce_vars e x of Some (CV_int32 i) \<Rightarrow> i | _ \<Rightarrow> old)"

definition var_text :: "conf_env \<Rightarrow> addr \<Rightarrow> byte list \<Rightarrow> byte list" where
  "var_text e x old = (case ce_vars e x of Some (CV_double t) \<Rightarrow> t | _ \<Rightarrow> old)"

definition var_str :: "conf_env \<Rightarrow> addr \<Rightarrow> byte list option \<Rightarrow> byte list option" where
  "var_str e x old = (case ce_vars e x of Some (CV_str s) \<Rightarrow> ce_strs e s | _ \<Rightarrow> old)"

text \<open>A configuration over an empty table.\<close>

definition new_conf :: "addr rs_shash_t \<Rightarrow> rs_pool_t \<Rightarrow> conf_env" where
  "new_conf h p = \<lparr>ce_table = h, ce_pool = p, ce_data = (\<lambda>_. None), ce_vars = (\<lambda>_. None), ce_strs = (\<lambda>_. None)\<rparr>"

text \<open>\<^verbatim>\<open>strcmp\<close> of two strings, for equality; none stands for a null pointer.\<close>

definition c_str_differ :: "byte list option \<Rightarrow> byte list option \<Rightarrow> bool option" where
  "c_str_differ a b = do { x \<leftarrow> a; y \<leftarrow> b; s \<leftarrow> c_contents x; t \<leftarrow> c_contents y; Some (s \<noteq> t) }"

section \<open>Running on concrete pools\<close>

text \<open>Simplification does not enter what follows a call before the call has a value.\<close>

lemma bind_weak_cong: "x = y \<Longrightarrow> Option.bind x f = Option.bind y f" by simp

definition demo_grow :: "u32 \<Rightarrow> u32" where "demo_grow s = s * 30"

text \<open>A class of a pool that nothing has been taken from.\<close>

definition demo_class :: "u32 \<Rightarrow> u32 \<Rightarrow> rs_pool_class_t" where
  "demo_class s n = rs_pool_class_t_init\<lparr>pc_size := s, pc_num := n\<rparr>"

lemma os_grant_simps [simp]: "os_malloc (os_grant b) n = Some b" "os_realloc (os_grant b) n"
  by (simp_all add: os_grant_def)

lemma buckets:
  "replicate 10 x = [x, x, x, x, x, x, x, x, x, x]"
  "replicate 18 x = [x, x, x, x, x, x, x, x, x, x, x, x, x, x, x, x, x, x]"
  by (simp_all add: numeral_eq_Suc)

lemma list_update_numeral: "(x # xs)[numeral k := y] = x # xs[pred_numeral k := y]"
  by (simp add: numeral_eq_Suc)

lemmas pool_run = rs_palloc_id_def pool_class_def rs_palloc_def palloc_take_def rs_palloc_new_def rs_palloc_grow_def
  rs_pmemalloc_def set_class_def realloc_cells_def mem_write_def mem_get_def rs_pool_class_t_init_def Let_def
  RS_POOL_PAGEALLOC_def RS_POOL_PREALLOC_def palloc_id_loop.simps rs_pfree_def rs_destroy_pool_def demo_class_def

lemmas conf_run = rs_create_conf_def rs_create_shash_def sizeof_rs_shash_t_def sizeof_rs_shash_head_t_def sizeof_rs_conf_data_t_def
  sizeof_rs_shash_node_t_def rs_conf_register_def rs_shash_add_def rs_shash_get_def shash_index_def rs_bkd_hash_def cstr_def ascii_def new_conf_def
  rs_shash_after_node_def RS_CONF_STR_def RS_CONF_INT32_def RS_CONF_UINT32_def RS_CONF_DOUBLE_def rs_conf_apply_def
  rs_destroy_conf_def rs_destroy_shash_def var_u32_def var_int_def var_str_def var_text_def
  shash_chunks_def buckets list_update_numeral

end
