(* ===== verification/RS_Master.thy ===== *)
theory RS_Master
  imports RS_DumpListen RS_ConfVars
begin

text \<open>
  \<^verbatim>\<open>src/master/rs_master_info.c\<close> and \<^verbatim>\<open>rs_master.c\<close>: starting, reloading
  and releasing the master. Pools are named by the address their memory starts at; a pool that is not
  in the map any more has been destroyed.
\<close>

section \<open>State\<close>

datatype master_rel =
    Ma_cancel nat | Ma_join nat | Ma_close int | Ma_slots "rs_release list" | Ma_pool addr

record master_st =
  ma_pools :: "addr \<Rightarrow> rs_pool_t option"
  ma_trace :: "master_rel list" \<comment> \<open>what was released, in order\<close>
  ma_info :: "(addr \<times> rs_master_info_t) option" \<comment> \<open>\<^verbatim>\<open>rs_master_info\<close>\<close>

definition ma_log :: "master_rel list \<Rightarrow> master_st \<Rightarrow> master_st" where
  "ma_log rs s = s\<lparr>ma_trace := ma_trace s @ rs\<rparr>"

definition set_pool :: "addr \<Rightarrow> rs_pool_t option \<Rightarrow> master_st \<Rightarrow> master_st" where
  "set_pool q p s = s\<lparr>ma_pools := (ma_pools s)(q := p)\<rparr>"

text \<open>
  What the system answers: the memory of the two pools, the configuration file at each of the two times
  it is read (none: not opened), what a fresh record and fresh slots hold, whether the old thread
  can be cancelled, and the thread that is created (0: none).
\<close>

record master_in =
  in_os1 :: os_mem
  in_os2 :: os_mem
  in_th :: thr_ops
  in_grow :: "byte list \<Rightarrow> u32 \<Rightarrow> u32"
  in_file1 :: "read_ev list option"
  in_file2 :: "read_ev list option"
  in_blank :: rs_master_info_t
  in_cancel :: bool
  in_quad :: "byte list \<Rightarrow> bool"
  in_binds :: "bind_ev list"
  in_fresh :: "rs_reqdump_data_t list"
  in_thread :: nat

section \<open>Configuration\<close>

definition sizeof_rs_master_info_t :: u32 where "sizeof_rs_master_info_t = 112"

definition RS_MASTER_CONF_NUM :: u32 where "RS_MASTER_CONF_NUM = 10"

definition master_vars :: "conf_reg list" where
  "master_vars =
     [(cstr ''listen.addr'', 0, RS_CONF_STR), (cstr ''listen.port'', 8, RS_CONF_INT32),
      (cstr ''binlog.index'', 16, RS_CONF_STR), (cstr ''pool.factor'', 32, RS_CONF_DOUBLE),
      (cstr ''pool.memsize'', 40, RS_CONF_UINT32), (cstr ''pool.initsize'', 44, RS_CONF_UINT32),
      (cstr ''ringbuf.num'', 48, RS_CONF_UINT32), (cstr ''sendbuf.size'', 52, RS_CONF_UINT32),
      (cstr ''server.id'', 24, RS_CONF_UINT32), (cstr ''iobuf.size'', 56, RS_CONF_UINT32),
      (cstr ''dump.thread'', 28, RS_CONF_UINT32)]"

definition rs_init_master_conf :: "os_mem \<Rightarrow> addr \<Rightarrow> read_ev list option \<Rightarrow> conf_env \<Rightarrow> (rs_code \<times> conf_env) option" where
  "rs_init_master_conf os a fp e = do {
     (r, e1) \<leftarrow> register_vars os e a master_vars;
     if r \<noteq> RS_OK then Some (RS_ERR, e1) else rs_init_conf os (cstr ''master'') e1 fp }"

text \<open>The record at a with the variables a configuration has set.\<close>

definition load_master :: "conf_env \<Rightarrow> addr \<Rightarrow> rs_master_info_t \<Rightarrow> rs_master_info_t" where
  "load_master e a mi = mi
     \<lparr>mi_listen_addr := var_str e a (mi_listen_addr mi),
      mi_listen_port := var_int e (a + 8) (mi_listen_port mi),
      mi_binlog_idx_file := var_str e (a + 16) (mi_binlog_idx_file mi),
      mi_server_id := var_u32 e (a + 24) (mi_server_id mi),
      mi_max_dump_thread := var_u32 e (a + 28) (mi_max_dump_thread mi),
      mi_pool_factor := var_text e (a + 32) (mi_pool_factor mi),
      mi_pool_memsize := var_u32 e (a + 40) (mi_pool_memsize mi),
      mi_pool_initsize := var_u32 e (a + 44) (mi_pool_initsize mi),
      mi_ringbuf_num := var_u32 e (a + 48) (mi_ringbuf_num mi),
      mi_sendbuf_size := var_u32 e (a + 52) (mi_sendbuf_size mi),
      mi_iobuf_size := var_u32 e (a + 56) (mi_iobuf_size mi)\<rparr>"

section \<open>Releasing\<close>

text \<open>The thread that accepts connections is cancelled unless it has ended, and joined; the socket is closed.\<close>

definition thread_rels :: "rs_master_info_t \<Rightarrow> master_rel list" where
  "thread_rels mi =
     (if mi_accept_thread mi = 0 then []
      else (if mi_accept_thread_exit mi then [] else [Ma_cancel (mi_accept_thread mi)]) @ [Ma_join (mi_accept_thread mi)])"

definition close_rels :: "rs_master_info_t \<Rightarrow> master_rel list" where
  "close_rels mi = (if mi_svr_fd mi = -1 then [] else [Ma_close (mi_svr_fd mi)])"

text \<open>
  The table is released into the pool it is from. The pool inside the configuration is the one the
  map holds.
\<close>

definition rs_free_master ::
    "os_mem \<Rightarrow> thr_ops \<Rightarrow> (addr \<times> rs_master_info_t) option \<Rightarrow> master_st \<Rightarrow> master_st option" where
  "rs_free_master os th data s =
     (case (case data of None \<Rightarrow> ma_info s | Some m \<Rightarrow> Some m) of
        None \<Rightarrow> Some s
      | Some (a, mi) \<Rightarrow> do {
          let s2 = ma_log (thread_rels mi @ close_rels mi) s;
          s3 \<leftarrow> (case mi_req_dump mi of
                   None \<Rightarrow> Some s2
                 | Some (d, q, rq) \<Rightarrow> do {
                     p \<leftarrow> ma_pools s2 q;
                     (rels, p') \<leftarrow> rs_destroy_reqdump os th p d rq;
                     Some (set_pool q (Some p') (ma_log [Ma_slots rels] s2)) });
          q \<leftarrow> mi_pool mi;
          p \<leftarrow> ma_pools s3 q;
          p1 \<leftarrow> (case mi_cf mi of None \<Rightarrow> Some p | Some e \<Rightarrow> rs_destroy_conf os (e\<lparr>ce_pool := p\<rparr>));
          p2 \<leftarrow> rs_pfree os p1 a (mi_id mi);
          _ \<leftarrow> rs_destroy_pool p2;
          Some (set_pool q None (ma_log [Ma_pool q] s3)) })"

section \<open>Starting and reloading\<close>

text \<open>
  A record in a new pool, with its configuration read: none when there is no memory for it, else the
  code of the configuration with the record. The pool is in the map; without a record it is destroyed.
\<close>

definition open_master ::
    "os_mem \<Rightarrow> read_ev list option \<Rightarrow> rs_master_info_t \<Rightarrow> rs_pool_t \<Rightarrow> master_st \<Rightarrow>
     ((rs_code \<times> addr \<times> rs_master_info_t) option \<times> master_st) option" where
  "open_master os fp blank p s = do {
     let q = p_start p;
     idx \<leftarrow> rs_palloc_id p sizeof_rs_master_info_t;
     (r, p1) \<leftarrow> rs_palloc os p sizeof_rs_master_info_t idx;
     case r of
       None \<Rightarrow> do { _ \<leftarrow> rs_destroy_pool p1; Some (None, ma_log [Ma_pool q] s) }
     | Some a \<Rightarrow> do {
         let mi = (rs_master_info_t_init blank)\<lparr>mi_pool := Some q, mi_id := idx\<rparr>;
         (cf, p2) \<leftarrow> rs_create_conf os p1 RS_MASTER_CONF_NUM;
         case cf of
           None \<Rightarrow> Some (Some (RS_ERR, a, mi), set_pool q (Some p2) s)
         | Some h \<Rightarrow> do {
             (r, e) \<leftarrow> rs_init_master_conf os a fp (new_conf h p2);
             Some (Some (r, a, load_master e a (mi\<lparr>mi_cf := Some e\<rparr>)), set_pool q (Some (ce_pool e)) s) } } }"

text \<open>Released, with nothing to return.\<close>

definition give_up ::
    "os_mem \<Rightarrow> thr_ops \<Rightarrow> addr \<times> rs_master_info_t \<Rightarrow> master_st \<Rightarrow> ((addr \<times> rs_master_info_t) option \<times> master_st) option" where
  "give_up os th m s = map_option (\<lambda>s'. (None, s')) (rs_free_master os th (Some m) s)"

text \<open>
  What is taken over from the old master: whether to listen anew, whether a new table is needed, the
  new and the old record.
\<close>

definition take_over ::
    "master_in \<Rightarrow> rs_master_info_t \<Rightarrow> rs_master_info_t \<Rightarrow> master_st \<Rightarrow>
     (bool \<times> bool \<times> rs_master_info_t \<times> rs_master_info_t \<times> master_st) option" where
  "take_over x mi om s = do {
     let t = mi_accept_thread om;
     let (om1, s1) = (if t \<noteq> 0 \<and> in_cancel x then (om\<lparr>mi_accept_thread_exit := True\<rparr>, ma_log [Ma_cancel t, Ma_join t] s)
                      else (om, s));
     d \<leftarrow> c_str_differ (mi_listen_addr mi) (mi_listen_addr om1);
     let nl = (d \<or> mi_listen_port mi \<noteq> mi_listen_port om1);
     let mi1 = (if nl then mi else mi\<lparr>mi_svr_fd := mi_svr_fd om1\<rparr>);
     let om2 = (if nl then om1 else om1\<lparr>mi_svr_fd := -1\<rparr>);
     d \<leftarrow> c_str_differ (mi_binlog_idx_file mi1) (mi_binlog_idx_file om2);
     let nd = (d \<and> mi_ringbuf_num om2 \<noteq> mi_ringbuf_num mi1);
     if nd then Some (nl, nd, mi1, om2, s1)
     else if nl then do {
       (a, q, rq) \<leftarrow> mi_req_dump om2;
       (rels, rq') \<leftarrow> rs_freeall_reqdump_data (in_os2 x) (in_th x) rq;
       Some (nl, nd, mi1\<lparr>mi_req_dump := Some (a, q, rq')\<rparr>, om2\<lparr>mi_req_dump := None\<rparr>, ma_log [Ma_slots rels] s1) }
     else Some (nl, nd, mi1\<lparr>mi_req_dump := mi_req_dump om2\<rparr>, om2\<lparr>mi_req_dump := None\<rparr>, s1) }"

text \<open>From the record with its configuration to a master that accepts connections.\<close>

definition run_master ::
    "master_in \<Rightarrow> bool \<Rightarrow> bool \<Rightarrow> addr \<Rightarrow> rs_master_info_t \<Rightarrow> rs_pool_t \<Rightarrow> master_st \<Rightarrow>
     ((addr \<times> rs_master_info_t) option \<times> master_st) option" where
  "run_master x nl nd a mi p s = do {
     (r, mi1, fds) \<leftarrow> (if nl then rs_dump_listen (in_quad x) (in_binds x) mi else Some (RS_OK, mi, []));
     if r \<noteq> RS_OK then give_up (in_os2 x) (in_th x) (a, mi1) s
     else do {
       (made, mi2, s1) \<leftarrow>
         (if nd then do {
            idx \<leftarrow> rs_palloc_id p (sizeof_rs_reqdump_t + sizeof_rs_reqdump_data_t * mi_max_dump_thread mi1);
            (d, _) \<leftarrow> rs_palloc (in_os2 x) p (sizeof_rs_reqdump_t + sizeof_rs_reqdump_data_t * mi_max_dump_thread mi1) idx;
            (rq, p') \<leftarrow> rs_create_reqdump (in_os2 x) (in_th x) p (mi_max_dump_thread mi1) (in_fresh x);
            Some (rq \<noteq> None,
              mi1\<lparr>mi_req_dump := (case (d, rq) of (Some d, Some rq) \<Rightarrow> Some (d, p_start p, rq) | _ \<Rightarrow> None)\<rparr>,
              set_pool (p_start p) (Some p') s) }
          else Some (True, mi1, s));
       if \<not> made then give_up (in_os2 x) (in_th x) (a, mi2) s1
       else if in_thread x = 0 then give_up (in_os2 x) (in_th x) (a, mi2) s1
       else Some (Some (a, mi2\<lparr>mi_accept_thread := in_thread x\<rparr>), s1) } }"

definition rs_init_master_info ::
    "master_in \<Rightarrow> master_st \<Rightarrow> ((addr \<times> rs_master_info_t) option \<times> master_st) option" where
  "rs_init_master_info x s = do {
     p \<leftarrow> rs_create_pool (in_os1 x) 200 (1024 * 1024 * 10) (1 * 1024 * 1024) RS_POOL_CLASS_IDX (in_grow x (ascii ''1.5'')) RS_POOL_PREALLOC;
     case p of
       None \<Rightarrow> Some (None, s)
     | Some p1 \<Rightarrow> do {
         (m, s1) \<leftarrow> open_master (in_os1 x) (in_file1 x) (in_blank x) p1 s;
         case m of
           None \<Rightarrow> Some (None, s1)
         | Some (r, a1, mi1) \<Rightarrow>
             if r \<noteq> RS_OK then give_up (in_os1 x) (in_th x) (a1, mi1) s1
             else do {
               p \<leftarrow> rs_create_pool (in_os2 x) (mi_pool_initsize mi1) (mi_pool_memsize mi1) (1 * 1024 * 1024) RS_POOL_CLASS_IDX
                      (in_grow x (mi_pool_factor mi1)) RS_POOL_PREALLOC;
               case p of
                 None \<Rightarrow> give_up (in_os1 x) (in_th x) (a1, mi1) s1
               | Some p2 \<Rightarrow> do {
                   s2 \<leftarrow> rs_free_master (in_os1 x) (in_th x) (Some (a1, mi1)) s1;
                   (m, s3) \<leftarrow> open_master (in_os2 x) (in_file2 x) (in_blank x) p2 s2;
                   case m of
                     None \<Rightarrow> Some (None, s3)
                   | Some (r, a, mi) \<Rightarrow>
                       if r \<noteq> RS_OK then give_up (in_os2 x) (in_th x) (a, mi) s3
                       else do {
                         (nl, nd, mi', s4) \<leftarrow>
                           (case ma_info s3 of
                              None \<Rightarrow> Some (True, True, mi, s3)
                            | Some (oa, om) \<Rightarrow> do {
                                (nl, nd, mi', om', s4) \<leftarrow> take_over x mi om s3;
                                Some (nl, nd, mi', s4\<lparr>ma_info := Some (oa, om')\<rparr>) });
                         p \<leftarrow> ma_pools s4 (p_start p2);
                         run_master x nl nd a mi' p s4 } } } } }"

text \<open>A new master, and the old one released.\<close>

definition rs_init_master :: "master_in \<Rightarrow> master_st \<Rightarrow> (rs_code \<times> master_st) option" where
  "rs_init_master x s = do {
     (m, s1) \<leftarrow> rs_init_master_info x s;
     case m of
       None \<Rightarrow> Some (RS_ERR, s1)
     | Some mi \<Rightarrow> do {
         s2 \<leftarrow> (case ma_info s1 of None \<Rightarrow> Some s1 | Some om \<Rightarrow> rs_free_master (in_os2 x) (in_th x) (Some om) s1);
         Some (RS_OK, s2\<lparr>ma_info := Some mi\<rparr>) } }"

section \<open>What releasing and opening do\<close>

lemma master_st_simps [simp]:
  "ma_info (ma_log rs s) = ma_info s" "ma_pools (ma_log rs s) = ma_pools s" "ma_trace (ma_log rs s) = ma_trace s @ rs"
  "ma_info (set_pool q p s) = ma_info s" "ma_trace (set_pool q p s) = ma_trace s"
  "ma_pools (set_pool q p s) = (ma_pools s)(q := p)"
  by (simp_all add: ma_log_def set_pool_def)

lemma free_master_result:
  assumes "rs_free_master os th (Some (a, mi)) s = Some s'"
  obtains q slots where "mi_pool mi = Some q" and "ma_pools s' q = None" and "ma_info s' = ma_info s"
    and "ma_trace s' = ma_trace s @ thread_rels mi @ close_rels mi @ slots @ [Ma_pool q]"
    and "slots = [] \<or> (\<exists>r. slots = [Ma_slots r])" and "mi_req_dump mi = None \<longrightarrow> slots = []"
proof -
  define s2 where "s2 = ma_log (thread_rels mi @ close_rels mi) s"
  define tab where "tab = (case mi_req_dump mi of
      None \<Rightarrow> Some s2
    | Some (d, q, rq) \<Rightarrow> do {
        p \<leftarrow> ma_pools s2 q;
        (rels, p') \<leftarrow> rs_destroy_reqdump os th p d rq;
        Some (set_pool q (Some p') (ma_log [Ma_slots rels] s2)) })"
  have run: "do {
      s3 \<leftarrow> tab;
      q \<leftarrow> mi_pool mi;
      p \<leftarrow> ma_pools s3 q;
      p1 \<leftarrow> (case mi_cf mi of None \<Rightarrow> Some p | Some e \<Rightarrow> rs_destroy_conf os (e\<lparr>ce_pool := p\<rparr>));
      p2 \<leftarrow> rs_pfree os p1 a (mi_id mi);
      _ \<leftarrow> rs_destroy_pool p2;
      Some (set_pool q None (ma_log [Ma_pool q] s3)) } = Some s'"
    using assms unfolding rs_free_master_def tab_def s2_def Let_def by simp
  then obtain s3 q where 3: "tab = Some s3" "mi_pool mi = Some q" "s' = set_pool q None (ma_log [Ma_pool q] s3)"
    by (auto simp: bind_eq_Some_conv)
  obtain slots where slots: "ma_info s3 = ma_info s" "ma_trace s3 = ma_trace s @ thread_rels mi @ close_rels mi @ slots"
    "slots = [] \<or> (\<exists>r. slots = [Ma_slots r])" "mi_req_dump mi = None \<Longrightarrow> slots = []"
  proof (cases "mi_req_dump mi")
    case None
    with that [of "[]"] 3(1) show thesis by (auto simp: tab_def s2_def)
  next
    case (Some r)
    obtain d q rq where r: "r = (d, q, rq)" by (cases r) auto
    from 3(1) Some r obtain rels p' where "s3 = set_pool q (Some p') (ma_log [Ma_slots rels] s2)"
      by (auto simp: tab_def bind_eq_Some_conv)
    with that [of "[Ma_slots rels]"] Some show thesis by (simp add: s2_def)
  qed
  show thesis by (rule that [of q slots]) (use 3 slots in auto)
qed

lemma open_master_result:
  assumes "open_master os fp blank p s = Some (m, s')"
  shows "ma_info s' = ma_info s"
    and "m = Some (r, a, mi) \<Longrightarrow> ma_trace s' = ma_trace s \<and> mi_pool mi = Some (p_start p) \<and> mi_svr_fd mi = -1 \<and>
      mi_accept_thread mi = 0 \<and> mi_req_dump mi = None"
proof -
  obtain i where i: "rs_palloc_id p sizeof_rs_master_info_t = Some i"
    using assms by (cases "rs_palloc_id p sizeof_rs_master_info_t") (auto simp: open_master_def Let_def)
  obtain d p1 where d: "rs_palloc os p sizeof_rs_master_info_t i = Some (d, p1)"
    using assms i by (cases "rs_palloc os p sizeof_rs_master_info_t i") (auto simp: open_master_def Let_def)
  have "ma_info s' = ma_info s \<and>
    (m = Some (r, a, mi) \<longrightarrow> ma_trace s' = ma_trace s \<and> mi_pool mi = Some (p_start p) \<and> mi_svr_fd mi = -1 \<and>
      mi_accept_thread mi = 0 \<and> mi_req_dump mi = None)"
  proof (cases d)
    case None
    with assms i d show ?thesis by (auto simp: open_master_def Let_def bind_eq_Some_conv)
  next
    case (Some b)
    obtain cf p2 where cf: "rs_create_conf os p1 RS_MASTER_CONF_NUM = Some (cf, p2)"
      using assms i d Some by (cases "rs_create_conf os p1 RS_MASTER_CONF_NUM") (auto simp: open_master_def Let_def)
    show ?thesis
    proof (cases cf)
      case None
      with assms i d Some cf show ?thesis by (auto simp: open_master_def Let_def rs_master_info_t_init_def)
    next
      case (Some h)
      obtain r' e where e: "rs_init_master_conf os b fp (new_conf h p2) = Some (r', e)"
        using assms i d \<open>d = Some b\<close> cf Some by (cases "rs_init_master_conf os b fp (new_conf h p2)") (auto simp: open_master_def Let_def)
      with assms i d \<open>d = Some b\<close> cf Some show ?thesis
        by (auto simp: open_master_def Let_def rs_master_info_t_init_def load_master_def)
    qed
  qed
  then show "ma_info s' = ma_info s"
    and "m = Some (r, a, mi) \<Longrightarrow> ma_trace s' = ma_trace s \<and> mi_pool mi = Some (p_start p) \<and> mi_svr_fd mi = -1 \<and>
      mi_accept_thread mi = 0 \<and> mi_req_dump mi = None" by blast+
qed

lemma take_over_result:
  assumes "take_over x mi om s = Some (nl, nd, mi', om', s')"
  defines "joined \<equiv> mi_accept_thread om \<noteq> 0 \<and> in_cancel x"
  obtains slots d d2 where "ma_info s' = ma_info s"
    and "ma_trace s' = ma_trace s @ (if joined then [Ma_cancel (mi_accept_thread om), Ma_join (mi_accept_thread om)] else []) @ slots"
    and "slots = [] \<or> (\<exists>r. slots = [Ma_slots r])"
    and "mi_accept_thread om' = mi_accept_thread om" and "mi_accept_thread_exit om' = (joined \<or> mi_accept_thread_exit om)"
    and "mi_pool om' = mi_pool om" and "mi_listen_addr mi' = mi_listen_addr mi" and "mi_listen_port mi' = mi_listen_port mi"
    and "mi_binlog_idx_file mi' = mi_binlog_idx_file mi" and "mi_ringbuf_num mi' = mi_ringbuf_num mi"
    and "c_str_differ (mi_listen_addr mi) (mi_listen_addr om) = Some d" and "nl = (d \<or> mi_listen_port mi \<noteq> mi_listen_port om)"
    and "c_str_differ (mi_binlog_idx_file mi) (mi_binlog_idx_file om) = Some d2"
    and "nd = (d2 \<and> mi_ringbuf_num om \<noteq> mi_ringbuf_num mi)"
    and "\<not> nl \<longrightarrow> mi_svr_fd mi' = mi_svr_fd om \<and> mi_svr_fd om' = -1"
    and "\<not> nd \<longrightarrow> map_option (\<lambda>(a, q, rq). (a, q)) (mi_req_dump mi') = map_option (\<lambda>(a, q, rq). (a, q)) (mi_req_dump om)"
proof -
  define om1 where "om1 = (if joined then om\<lparr>mi_accept_thread_exit := True\<rparr> else om)"
  define s1 where "s1 = (if joined then ma_log [Ma_cancel (mi_accept_thread om), Ma_join (mi_accept_thread om)] s else s)"
  have om1: "mi_listen_addr om1 = mi_listen_addr om" "mi_listen_port om1 = mi_listen_port om" "mi_svr_fd om1 = mi_svr_fd om"
    "mi_binlog_idx_file om1 = mi_binlog_idx_file om" "mi_ringbuf_num om1 = mi_ringbuf_num om" "mi_req_dump om1 = mi_req_dump om"
    "mi_accept_thread om1 = mi_accept_thread om" "mi_accept_thread_exit om1 = (joined \<or> mi_accept_thread_exit om)" "mi_pool om1 = mi_pool om"
    by (simp_all add: om1_def)
  have s1: "ma_info s1 = ma_info s" "ma_trace s1 = ma_trace s @
      (if joined then [Ma_cancel (mi_accept_thread om), Ma_join (mi_accept_thread om)] else [])" by (simp_all add: s1_def)
  have first: "(if mi_accept_thread om \<noteq> 0 \<and> in_cancel x
      then (om\<lparr>mi_accept_thread_exit := True\<rparr>, ma_log [Ma_cancel (mi_accept_thread om), Ma_join (mi_accept_thread om)] s)
      else (om, s)) = (om1, s1)" by (simp add: om1_def s1_def joined_def)
  note run = assms(1) [unfolded take_over_def Let_def first, simplified]
  obtain d where d: "c_str_differ (mi_listen_addr mi) (mi_listen_addr om) = Some d"
    using run by (cases "c_str_differ (mi_listen_addr mi) (mi_listen_addr om)") (simp_all add: om1)
  define n where "n = (d \<or> mi_listen_port mi \<noteq> mi_listen_port om)"
  define mi1 where "mi1 = (if n then mi else mi\<lparr>mi_svr_fd := mi_svr_fd om\<rparr>)"
  define om2 where "om2 = (if n then om1 else om1\<lparr>mi_svr_fd := -1\<rparr>)"
  have mi1: "mi_listen_addr mi1 = mi_listen_addr mi" "mi_listen_port mi1 = mi_listen_port mi"
    "mi_binlog_idx_file mi1 = mi_binlog_idx_file mi" "mi_ringbuf_num mi1 = mi_ringbuf_num mi"
    "\<not> n \<Longrightarrow> mi_svr_fd mi1 = mi_svr_fd om" by (simp_all add: mi1_def)
  have om2: "mi_binlog_idx_file om2 = mi_binlog_idx_file om" "mi_ringbuf_num om2 = mi_ringbuf_num om"
    "mi_req_dump om2 = mi_req_dump om" "mi_accept_thread om2 = mi_accept_thread om"
    "mi_accept_thread_exit om2 = (joined \<or> mi_accept_thread_exit om)" "mi_pool om2 = mi_pool om" "\<not> n \<Longrightarrow> mi_svr_fd om2 = -1"
    by (simp_all add: om2_def om1)
  note run2 = run [unfolded om1 d, simplified, folded n_def, folded mi1_def om2_def]
  obtain d2 where d2: "c_str_differ (mi_binlog_idx_file mi) (mi_binlog_idx_file om) = Some d2"
    using run2 by (cases "c_str_differ (mi_binlog_idx_file mi) (mi_binlog_idx_file om)") (simp_all add: mi1 om2)
  consider (new) "d2 \<and> mi_ringbuf_num om \<noteq> mi_ringbuf_num mi" "(nl, nd, mi', om', s') = (n, True, mi1, om2, s1)"
    | (cut) a q rq rels rq' where "\<not> (d2 \<and> mi_ringbuf_num om \<noteq> mi_ringbuf_num mi)" "n" "mi_req_dump om = Some (a, q, rq)"
        "(nl, nd, mi', om', s') = (n, False, mi1\<lparr>mi_req_dump := Some (a, q, rq')\<rparr>, om2\<lparr>mi_req_dump := None\<rparr>, ma_log [Ma_slots rels] s1)"
    | (keep) "\<not> (d2 \<and> mi_ringbuf_num om \<noteq> mi_ringbuf_num mi)" "\<not> n"
        "(nl, nd, mi', om', s') = (n, False, mi1\<lparr>mi_req_dump := mi_req_dump om\<rparr>, om2\<lparr>mi_req_dump := None\<rparr>, s1)"
  proof (cases "d2 \<and> mi_ringbuf_num om \<noteq> mi_ringbuf_num mi")
    case True
    with run2 new show thesis by (simp add: mi1 om2 d2)
  next
    case nd: False
    show thesis
    proof (cases n)
      case True
      obtain a q rq where t: "mi_req_dump om = Some (a, q, rq)"
        using run2 True nd by (cases "mi_req_dump om") (auto simp: mi1 om2 d2)
      obtain rels rq' where "rs_freeall_reqdump_data (in_os2 x) (in_th x) rq = Some (rels, rq')"
        using run2 True nd t by (cases "rs_freeall_reqdump_data (in_os2 x) (in_th x) rq") (auto simp: mi1 om2 d2)
      with run2 True nd t cut [of a q rq rq' rels] show thesis by (simp add: mi1 om2 d2)
    next
      case False
      with run2 nd keep show thesis by (simp add: mi1 om2 d2)
    qed
  qed
  then show thesis
  proof cases
    case new
    with that [of "[]" d d2] show thesis using d d2 by (simp add: s1 mi1 om2 n_def)
  next
    case cut
    with that [of "[Ma_slots rels]" d d2] show thesis using d d2 by (simp add: s1 mi1 om2 n_def)
  next
    case keep
    with that [of "[]" d d2] show thesis using d d2 by (simp add: s1 mi1 om2 n_def)
  qed
qed

lemma dump_listen_fields:
  "listen_tries n es mi fds = (r, mi', fds') \<Longrightarrow> \<exists>fd. mi' = mi\<lparr>mi_svr_fd := fd\<rparr>"
proof (induction n arbitrary: es mi fds)
  case 0
  then show ?case by (intro exI [of _ "mi_svr_fd mi"]) simp
next
  case (Suc n)
  have mi: "mi\<lparr>mi_svr_fd := a, mi_svr_fd := b\<rparr> = mi\<lparr>mi_svr_fd := b\<rparr>" for a b by simp
  show ?case
  proof (cases es)
    case (Cons e es')
    with Suc.prems Suc.IH [of es' "mi\<lparr>mi_svr_fd := -1\<rparr>"] show ?thesis
      by (auto simp: Let_def mi split: if_splits bind_result.splits)
  qed (use Suc.prems in auto)
qed

lemma run_master_result:
  assumes "run_master x nl nd a mi p s = Some (Some (a', mi'), s')"
  shows "a' = a" and "ma_info s' = ma_info s" and "ma_trace s' = ma_trace s"
    and "mi_listen_addr mi' = mi_listen_addr mi" and "mi_listen_port mi' = mi_listen_port mi"
    and "mi_binlog_idx_file mi' = mi_binlog_idx_file mi" and "mi_ringbuf_num mi' = mi_ringbuf_num mi"
    and "\<not> nl \<Longrightarrow> mi_svr_fd mi' = mi_svr_fd mi" and "\<not> nd \<Longrightarrow> mi_req_dump mi' = mi_req_dump mi"
proof -
  have gu: "give_up os th m t \<noteq> Some (Some y, t')" for os th m t y t' by (auto simp: give_up_def)
  obtain r mi1 fds where l: "(if nl then rs_dump_listen (in_quad x) (in_binds x) mi else Some (RS_OK, mi, [])) = Some (r, mi1, fds)"
    using assms by (auto simp: run_master_def bind_eq_Some_conv)
  then have mi1: "\<exists>fd. mi1 = mi\<lparr>mi_svr_fd := fd\<rparr>" "\<not> nl \<Longrightarrow> mi1 = mi"
    by (auto simp: rs_dump_listen_def bind_eq_Some_conv intro: exI [of _ "mi_svr_fd mi"] dump_listen_fields split: if_splits)
  note run = assms [unfolded run_master_def l, simplified]
  have r: "r = RS_OK" using run gu by (auto split: if_splits)
  have "a' = a \<and> ma_info s' = ma_info s \<and> ma_trace s' = ma_trace s \<and>
    (\<exists>t q. mi' = mi1\<lparr>mi_req_dump := q, mi_accept_thread := t\<rparr> \<and> (\<not> nd \<longrightarrow> q = mi_req_dump mi1))"
  proof (cases nd)
    case False
    have "mi1\<lparr>mi_accept_thread := in_thread x\<rparr> = mi1\<lparr>mi_req_dump := mi_req_dump mi1, mi_accept_thread := in_thread x\<rparr>" by simp
    with run r False gu show ?thesis by (auto split: if_splits)
  next
    case True
    with run r gu show ?thesis by (auto simp: bind_eq_Some_conv split: if_splits)
  qed
  with mi1 show "a' = a" and "ma_info s' = ma_info s" and "ma_trace s' = ma_trace s"
    and "mi_listen_addr mi' = mi_listen_addr mi" and "mi_listen_port mi' = mi_listen_port mi"
    and "mi_binlog_idx_file mi' = mi_binlog_idx_file mi" and "mi_ringbuf_num mi' = mi_ringbuf_num mi"
    and "\<not> nl \<Longrightarrow> mi_svr_fd mi' = mi_svr_fd mi" and "\<not> nd \<Longrightarrow> mi_req_dump mi' = mi_req_dump mi" by auto
qed

section \<open>A reload\<close>

text \<open>The part of a start up to what is taken over from the old master.\<close>

lemma init_info_parts:
  assumes run: "rs_init_master_info x s = Some (Some (a, mi'), s')" and "ma_info s = Some (oa, om)"
  obtains q1 mi s3 nl nd mi1 om1 s4 p where "ma_info s3 = ma_info s" and "ma_trace s3 = ma_trace s @ [Ma_pool q1]"
    and "take_over x mi om s3 = Some (nl, nd, mi1, om1, s4)"
    and "run_master x nl nd a mi1 p (s4\<lparr>ma_info := Some (oa, om1)\<rparr>) = Some (Some (a, mi'), s')"
proof -
  have gu: "give_up os th m t \<noteq> Some (Some y, t')" for os th m t y t' by (auto simp: give_up_def)
  obtain p1 where p1: "rs_create_pool (in_os1 x) 200 (1024 * 1024 * 10) (1 * 1024 * 1024) RS_POOL_CLASS_IDX
      (in_grow x (ascii ''1.5'')) RS_POOL_PREALLOC = Some (Some p1)"
    using run by (auto simp: rs_init_master_info_def bind_eq_Some_conv split: option.splits)
  note run1 = run [unfolded rs_init_master_info_def p1, simplified]
  obtain m s1 where m: "open_master (in_os1 x) (in_file1 x) (in_blank x) p1 s = Some (m, s1)"
    using run1 by (cases "open_master (in_os1 x) (in_file1 x) (in_blank x) p1 s") auto
  note run2 = run1 [unfolded m, simplified]
  obtain a1 mi1 where m1: "m = Some (RS_OK, a1, mi1)" using run2 gu by (auto split: option.splits if_splits)
  note run3 = run2 [unfolded m1, simplified]
  let ?pool = "rs_create_pool (in_os2 x) (mi_pool_initsize mi1) (mi_pool_memsize mi1) (1024 * 1024) RS_POOL_CLASS_IDX
      (in_grow x (mi_pool_factor mi1)) RS_POOL_PREALLOC"
  obtain p2 where p2: "?pool = Some (Some p2)"
    using run3 gu by (auto simp: bind_eq_Some_conv split: option.splits)
  note run4 = run3 [unfolded p2 [simplified], simplified]
  obtain s2 where s2: "rs_free_master (in_os1 x) (in_th x) (Some (a1, mi1)) s1 = Some s2"
    using run4 by (cases "rs_free_master (in_os1 x) (in_th x) (Some (a1, mi1)) s1") auto
  note run5 = run4 [unfolded s2, simplified]
  obtain m' s3 where m': "open_master (in_os2 x) (in_file2 x) (in_blank x) p2 s2 = Some (m', s3)"
    using run5 by (cases "open_master (in_os2 x) (in_file2 x) (in_blank x) p2 s2") auto
  note run6 = run5 [unfolded m', simplified]
  obtain a2 mi2 where m2: "m' = Some (RS_OK, a2, mi2)" using run6 gu by (auto split: option.splits if_splits)
  note o1 = open_master_result [OF m] and o2 = open_master_result [OF m']
  obtain q1 where free: "ma_info s2 = ma_info s1" "ma_trace s2 = ma_trace s1 @ [Ma_pool q1]"
    using free_master_result [OF s2] o1(2) [OF m1] by (auto simp: thread_rels_def close_rels_def)
  have s3: "ma_info s3 = ma_info s" "ma_trace s3 = ma_trace s @ [Ma_pool q1]"
    using o1(1) o1(2) [OF m1] free o2(1) o2(2) [OF m2] by simp_all
  note run7 = run6 [unfolded m2 s3(1) assms(2), simplified]
  obtain nl nd mi3 om3 s4 where t: "take_over x mi2 om s3 = Some (nl, nd, mi3, om3, s4)"
    using run7 by (cases "take_over x mi2 om s3") auto
  obtain p where "run_master x nl nd a2 mi3 p (s4\<lparr>ma_info := Some (oa, om3)\<rparr>) = Some (Some (a, mi'), s')"
    using run7 [unfolded t, simplified] by (auto simp: bind_eq_Some_conv)
  then show thesis using that [OF s3 t] run_master_result(1) by blast
qed

definition slot_rels :: "master_rel list \<Rightarrow> bool" where
  "slot_rels rs \<longleftrightarrow> rs = [] \<or> (\<exists>r. rs = [Ma_slots r])"

lemma slot_rels_no [simp]:
  assumes "slot_rels rs"
  shows "Ma_close fd \<notin> set rs" and "count_list rs (Ma_join t) = 0"
  using assms by (auto simp: slot_rels_def)

lemma reload_result:
  assumes run: "rs_init_master x s = Some (RS_OK, s')" and old: "ma_info s = Some (oa, om)"
  defines "t \<equiv> mi_accept_thread om" and "joined \<equiv> mi_accept_thread om \<noteq> 0 \<and> in_cancel x"
  obtains a mi q q1 sl1 sl2 om1 where "ma_info s' = Some (a, mi)"
    and "ma_trace s' = ma_trace s @ [Ma_pool q1] @ (if joined then [Ma_cancel t, Ma_join t] else []) @ sl1 @
      thread_rels om1 @ close_rels om1 @ sl2 @ [Ma_pool q]"
    and "slot_rels sl1" and "slot_rels sl2" and "mi_accept_thread om1 = t"
    and "mi_accept_thread_exit om1 = (joined \<or> mi_accept_thread_exit om)"
    and "mi_pool om = Some q" and "ma_pools s' q = None"
    and "c_str_differ (mi_listen_addr mi) (mi_listen_addr om) = Some False \<and> mi_listen_port mi = mi_listen_port om \<longrightarrow>
      mi_svr_fd mi = mi_svr_fd om \<and> mi_svr_fd om1 = -1"
    and "c_str_differ (mi_binlog_idx_file mi) (mi_binlog_idx_file om) = Some False \<or> mi_ringbuf_num mi = mi_ringbuf_num om \<longrightarrow>
      map_option (\<lambda>(a, q, rq). (a, q)) (mi_req_dump mi) = map_option (\<lambda>(a, q, rq). (a, q)) (mi_req_dump om)"
proof -
  obtain m s1 where m: "rs_init_master_info x s = Some (m, s1)"
    using run by (cases "rs_init_master_info x s") (auto simp: rs_init_master_def)
  obtain a mi where mi: "m = Some (a, mi)" using run m by (cases m) (auto simp: rs_init_master_def)
  obtain q1 mi0 s3 nl nd mi1 om1 s4 p where s3: "ma_info s3 = ma_info s" "ma_trace s3 = ma_trace s @ [Ma_pool q1]"
    and take: "take_over x mi0 om s3 = Some (nl, nd, mi1, om1, s4)"
    and go: "run_master x nl nd a mi1 p (s4\<lparr>ma_info := Some (oa, om1)\<rparr>) = Some (Some (a, mi), s1)"
    by (rule init_info_parts [OF m [unfolded mi] old])
  note r = run_master_result [OF go]
  obtain sl1 d d2 where s4: "ma_info s4 = ma_info s3"
    "ma_trace s4 = ma_trace s3 @ (if mi_accept_thread om \<noteq> 0 \<and> in_cancel x
        then [Ma_cancel (mi_accept_thread om), Ma_join (mi_accept_thread om)] else []) @ sl1"
    and sl1: "sl1 = [] \<or> (\<exists>r. sl1 = [Ma_slots r])"
    and om1: "mi_accept_thread om1 = mi_accept_thread om"
      "mi_accept_thread_exit om1 = (mi_accept_thread om \<noteq> 0 \<and> in_cancel x \<or> mi_accept_thread_exit om)" "mi_pool om1 = mi_pool om"
    and mi1: "mi_listen_addr mi1 = mi_listen_addr mi0" "mi_listen_port mi1 = mi_listen_port mi0"
      "mi_binlog_idx_file mi1 = mi_binlog_idx_file mi0" "mi_ringbuf_num mi1 = mi_ringbuf_num mi0"
    and d: "c_str_differ (mi_listen_addr mi0) (mi_listen_addr om) = Some d" "nl = (d \<or> mi_listen_port mi0 \<noteq> mi_listen_port om)"
      "c_str_differ (mi_binlog_idx_file mi0) (mi_binlog_idx_file om) = Some d2" "nd = (d2 \<and> mi_ringbuf_num om \<noteq> mi_ringbuf_num mi0)"
    and keep: "\<not> nl \<longrightarrow> mi_svr_fd mi1 = mi_svr_fd om \<and> mi_svr_fd om1 = -1"
      "\<not> nd \<longrightarrow> map_option (\<lambda>(a, q, rq). (a, q)) (mi_req_dump mi1) = map_option (\<lambda>(a, q, rq). (a, q)) (mi_req_dump om)"
    by (rule take_over_result [OF take]) (rule that)
  have info: "ma_info s1 = Some (oa, om1)" using r(2) by simp
  obtain s2 where s2: "rs_free_master (in_os2 x) (in_th x) (Some (oa, om1)) s1 = Some s2" "s' = s2\<lparr>ma_info := Some (a, mi)\<rparr>"
    using run m mi info by (auto simp: rs_init_master_def bind_eq_Some_conv)
  obtain q sl2 where f: "mi_pool om1 = Some q" "ma_pools s2 q = None" "ma_info s2 = ma_info s1"
    "ma_trace s2 = ma_trace s1 @ thread_rels om1 @ close_rels om1 @ sl2 @ [Ma_pool q]"
    "sl2 = [] \<or> (\<exists>r. sl2 = [Ma_slots r])" "mi_req_dump om1 = None \<longrightarrow> sl2 = []"
    by (rule free_master_result [OF s2(1)]) (rule that)
  show thesis
  proof (rule that [of a mi q1 sl1 om1 sl2 q])
    show "ma_trace s' = ma_trace s @ [Ma_pool q1] @ (if joined then [Ma_cancel t, Ma_join t] else []) @ sl1 @
      thread_rels om1 @ close_rels om1 @ sl2 @ [Ma_pool q]"
      using s2(2) f(4) r(3) s4(2) s3(2) by (simp add: t_def joined_def)
    show "slot_rels sl1" "slot_rels sl2" using sl1 f(5) by (simp_all add: slot_rels_def)
    show "mi_accept_thread om1 = t" "mi_accept_thread_exit om1 = (joined \<or> mi_accept_thread_exit om)" "mi_pool om = Some q"
      using om1 f(1) by (simp_all add: t_def joined_def)
    show "ma_info s' = Some (a, mi)" "ma_pools s' q = None" using s2(2) f(2) by simp_all
    show "c_str_differ (mi_listen_addr mi) (mi_listen_addr om) = Some False \<and> mi_listen_port mi = mi_listen_port om \<longrightarrow>
      mi_svr_fd mi = mi_svr_fd om \<and> mi_svr_fd om1 = -1"
      using r(4,5,8) mi1 d(1,2) keep(1) by auto
    show "c_str_differ (mi_binlog_idx_file mi) (mi_binlog_idx_file om) = Some False \<or> mi_ringbuf_num mi = mi_ringbuf_num om \<longrightarrow>
      map_option (\<lambda>(a, q, rq). (a, q)) (mi_req_dump mi) = map_option (\<lambda>(a, q, rq). (a, q)) (mi_req_dump om)"
      using r(6,7,9) mi1 d(3,4) keep(2) by auto
  qed
qed

section \<open>Properties\<close>

text \<open>
  C23. A reload that keeps address and port goes on with the socket that is open, and closes none.
\<close>

theorem reload_keeps_socket:
  assumes "rs_init_master x s = Some (RS_OK, s')" and "ma_info s = Some (oa, om)" and "ma_info s' = Some (a, mi)"
    and "c_str_differ (mi_listen_addr mi) (mi_listen_addr om) = Some False" and "mi_listen_port mi = mi_listen_port om"
  shows "mi_svr_fd mi = mi_svr_fd om \<and> (\<exists>rels. ma_trace s' = ma_trace s @ rels \<and> (\<forall>fd. Ma_close fd \<notin> set rels))"
proof (rule reload_result [OF assms(1,2)])
  fix a' mi' q q1 sl1 sl2 om1
  assume r: "ma_info s' = Some (a', mi')"
    "ma_trace s' = ma_trace s @ [Ma_pool q1] @
      (if mi_accept_thread om \<noteq> 0 \<and> in_cancel x then [Ma_cancel (mi_accept_thread om), Ma_join (mi_accept_thread om)] else []) @ sl1 @
      thread_rels om1 @ close_rels om1 @ sl2 @ [Ma_pool q]"
    "slot_rels sl1" "slot_rels sl2"
    "c_str_differ (mi_listen_addr mi') (mi_listen_addr om) = Some False \<and> mi_listen_port mi' = mi_listen_port om \<longrightarrow>
      mi_svr_fd mi' = mi_svr_fd om \<and> mi_svr_fd om1 = -1"
  then have "mi' = mi" "mi_svr_fd mi = mi_svr_fd om" "mi_svr_fd om1 = -1" using assms(3-5) by auto
  then show ?thesis using r(2-4) by (auto simp: thread_rels_def close_rels_def)
qed

text \<open>
  A reload that cancels the thread accepting connections joins it twice, the second time when it no
  longer exists.
\<close>

theorem reload_joins_twice:
  assumes "rs_init_master x s = Some (RS_OK, s')" and "ma_info s = Some (oa, om)"
    and "mi_accept_thread om \<noteq> 0" and "in_cancel x"
  shows "\<exists>rels. ma_trace s' = ma_trace s @ rels \<and> count_list rels (Ma_join (mi_accept_thread om)) = 2"
proof (rule reload_result [OF assms(1,2)])
  fix q q1 sl1 sl2 om1
  assume r: "ma_trace s' = ma_trace s @ [Ma_pool q1] @
      (if mi_accept_thread om \<noteq> 0 \<and> in_cancel x then [Ma_cancel (mi_accept_thread om), Ma_join (mi_accept_thread om)] else []) @ sl1 @
      thread_rels om1 @ close_rels om1 @ sl2 @ [Ma_pool q]"
    "slot_rels sl1" "slot_rels sl2" "mi_accept_thread om1 = mi_accept_thread om"
    "mi_accept_thread_exit om1 = (mi_accept_thread om \<noteq> 0 \<and> in_cancel x \<or> mi_accept_thread_exit om)"
  then show ?thesis using assms(3,4) by (simp add: thread_rels_def close_rels_def)
qed

text \<open>
  C24. When the index file is the same, a reload takes over the table of connections but destroys the
  pool that holds it: the new master can never be released.
\<close>

theorem reload_releases_kept_table:
  assumes "rs_init_master x s = Some (RS_OK, s')" and "ma_info s = Some (oa, om)" and "ma_info s' = Some (a, mi)"
    and "mi_pool om = Some q" and "mi_req_dump om = Some (d, q, rq)"
    and "c_str_differ (mi_binlog_idx_file mi) (mi_binlog_idx_file om) = Some False"
  shows "(\<exists>rq'. mi_req_dump mi = Some (d, q, rq')) \<and> ma_pools s' q = None \<and> rs_free_master os th None s' = None"
proof (rule reload_result [OF assms(1,2)])
  fix a' mi' q' 
  assume r: "ma_info s' = Some (a', mi')" "mi_pool om = Some q'" "ma_pools s' q' = None"
    "c_str_differ (mi_binlog_idx_file mi') (mi_binlog_idx_file om) = Some False \<or> mi_ringbuf_num mi' = mi_ringbuf_num om \<longrightarrow>
      map_option (\<lambda>(a, q, rq). (a, q)) (mi_req_dump mi') = map_option (\<lambda>(a, q, rq). (a, q)) (mi_req_dump om)"
  then have "mi' = mi" "q' = q" using assms(3,4) by auto
  then obtain rq' where kept: "mi_req_dump mi = Some (d, q, rq')" using r(4) assms(5,6) by auto
  moreover have "rs_free_master os th None s' = None"
    using r(3) \<open>q' = q\<close> kept assms(3) by (simp add: rs_free_master_def Let_def)
  ultimately show ?thesis using r(3) \<open>q' = q\<close> by blast
qed

section \<open>Concrete runs\<close>

definition master_settings :: "(byte list \<times> byte list) list" where
  "master_settings = [(ascii ''binlog.index'', ascii ''/b'')]"

definition master_file :: "read_ev list" where
  "master_file = [Rd_data (conf_file (ascii ''master'') master_settings)]"

lemma demo_conf: "rs_init_conf os (cstr ''master'') e (Some master_file) = conf_apply_all os e master_settings"
  unfolding cstr_def
  by (rule conf_file_run) (simp_all add: master_file_def master_settings_def ascii_def plain_def setting_ok_def)

text \<open>The pool of a start at an address, and the one of the size the configuration leaves.\<close>

definition master_pool :: "rs_pool_class_t list \<Rightarrow> u32 \<Rightarrow> addr \<Rightarrow> rs_pool_t" where
  "master_pool cs sz b = \<lparr>p_slab_class = cs @ [demo_class 1048576 1], p_cur_idx = 3, p_max_idx = 200, p_start = b + 12920, p_cur = b + 12920,
      p_max_size = sz, p_used_size = 0, p_free_size = sz, p_chunk_size = 1048576, p_flag = 1\<rparr>"

lemma master_pools_created:
  "rs_create_pool (os_grant b) 200 10485760 1048576 RS_POOL_CLASS_IDX demo_grow 1 =
     Some (Some (master_pool [demo_class 200 5242, demo_class 6000 174, demo_class 180000 5] 10485760 b))"
  "rs_create_pool (os_grant b) 100 104857600 1048576 RS_POOL_CLASS_IDX demo_grow 1 =
     Some (Some (master_pool [demo_class 104 10082, demo_class 3120 336, demo_class 93600 11] 104857600 b))"
  by (code_simp, simp)+

lemma demo_master_conf: "rs_init_master_conf os a (Some master_file) e = do {
     (r, e1) \<leftarrow> register_vars os e a master_vars;
     if r \<noteq> RS_OK then Some (RS_ERR, e1) else conf_apply_all os e1 master_settings }"
  unfolding rs_init_master_conf_def demo_conf ..

text \<open>The record that is read from the file, and a master that has been running for a while.\<close>

definition demo_loaded :: "int \<Rightarrow> addr \<Rightarrow> conf_env \<Rightarrow> rs_master_info_t" where
  "demo_loaded i q e = demo_master\<lparr>mi_binlog_idx_file := Some (cstr ''/b''), mi_cf := Some e, mi_pool := Some q, mi_id := i\<rparr>"

lemmas open_run = open_master_def demo_master_conf sizeof_rs_master_info_t_def RS_MASTER_CONF_NUM_def master_vars_def master_settings_def
  load_master_def rs_master_info_t_init_def demo_master_def demo_loaded_def

lemma demo_open1:
  "\<exists>e p2 p3. open_master (os_grant 1000) (Some master_file) demo_master
       (master_pool [demo_class 200 5242, demo_class 6000 174, demo_class 180000 5] 10485760 1000) s =
     Some (Some (RS_OK, 13920, demo_loaded 0 13920 e), set_pool 13920 (Some (ce_pool e)) s) \<and>
   rs_destroy_conf (os_grant 1000) e = Some p2 \<and> rs_pfree (os_grant 1000) p2 13920 0 = Some p3 \<and> rs_destroy_pool p3 = Some []"
  by (simp add: pool_run conf_run open_run master_pool_def cong: bind_weak_cong)

lemma demo_open2:
  "\<exists>e. open_master (os_grant 200001000) (Some master_file) demo_master
       (master_pool [demo_class 104 10082, demo_class 3120 336, demo_class 93600 11] 104857600 200001000) s =
     Some (Some (RS_OK, 200013920, demo_loaded 1 200013920 e), set_pool 200013920 (Some (ce_pool e)) s)"
  by (simp add: pool_run conf_run open_run master_pool_def cong: bind_weak_cong)


definition master_start :: "addr \<Rightarrow> nat \<Rightarrow> master_in" where
  "master_start b t = \<lparr>in_os1 = os_grant b, in_os2 = os_grant (b + 200000000), in_th = thr_good, in_grow = (\<lambda>_. demo_grow),
     in_file1 = Some master_file, in_file2 = Some master_file, in_blank = demo_master, in_cancel = True, in_quad = (\<lambda>_. True),
     in_binds = [], in_fresh = [], in_thread = t\<rparr>"

definition demo_old :: rs_master_info_t where
  "demo_old = demo_master\<lparr>mi_binlog_idx_file := Some (cstr ''/b''), mi_svr_fd := 5, mi_accept_thread := 3,
     mi_req_dump := Some (400013920, 400012920, the (fst table2)), mi_pool := Some 400012920, mi_id := rs_code_val RS_SLAB_OVERFLOW\<rparr>"

definition demo_before :: master_st where
  "demo_before = \<lparr>ma_pools = [400012920 \<mapsto> master_pool [] 10485760 400000000], ma_trace = [], ma_info = Some (400020000, demo_old)\<rparr>"

lemma demo_reload:
  "\<exists>s' mi. rs_init_master (master_start 1000 4) demo_before = Some (RS_OK, s') \<and> ma_info s' = Some (200013920, mi) \<and>
     mi_listen_addr mi = mi_listen_addr demo_old \<and> mi_listen_port mi = mi_listen_port demo_old \<and> mi_binlog_idx_file mi = mi_binlog_idx_file demo_old"
proof -
  from demo_open1 [of demo_before] obtain e p2 p3 where 1: "open_master (os_grant 1000) (Some master_file) demo_master
       (master_pool [demo_class 200 5242, demo_class 6000 174, demo_class 180000 5] 10485760 1000) demo_before =
     Some (Some (RS_OK, 13920, demo_loaded 0 13920 e), set_pool 13920 (Some (ce_pool e)) demo_before)"
   "rs_destroy_conf (os_grant 1000) e = Some p2" "rs_pfree (os_grant 1000) p2 13920 0 = Some p3" "rs_destroy_pool p3 = Some []" by blast
  define s2 where "s2 = set_pool 13920 None (ma_log [Ma_pool 13920] (set_pool 13920 (Some (ce_pool e)) demo_before))"
  have free: "rs_free_master (os_grant 1000) thr_good (Some (13920, demo_loaded 0 13920 e)) (set_pool 13920 (Some (ce_pool e)) demo_before) = Some s2"
    using 1 by (simp add: rs_free_master_def demo_loaded_def demo_master_def rs_master_info_t_init_def thread_rels_def close_rels_def s2_def ma_log_def Let_def)
  from demo_open2 [of s2] obtain e2 where 2: "open_master (os_grant 200001000) (Some master_file) demo_master
       (master_pool [demo_class 104 10082, demo_class 3120 336, demo_class 93600 11] 104857600 200001000) s2 =
     Some (Some (RS_OK, 200013920, demo_loaded 1 200013920 e2), set_pool 200013920 (Some (ce_pool e2)) s2)" by blast
  have i: "mi_pool_initsize (demo_loaded i q e) = 100" "mi_pool_memsize (demo_loaded i q e) = 104857600" for i q e
    by (simp_all add: demo_loaded_def demo_master_def rs_master_info_t_init_def)
  have s2: "ma_info s2 = Some (400020000, demo_old)" "ma_pools s2 400012920 = Some (master_pool [] 10485760 400000000)"
    by (simp_all add: s2_def demo_before_def)
  have start: "p_start (master_pool cs sz b) = b + 12920" "p_flag (master_pool cs sz b) = 1" for cs sz b by (simp_all add: master_pool_def)
  let ?kept = "(demo_loaded 1 200013920 e2)\<lparr>mi_svr_fd := 5, mi_req_dump := mi_req_dump demo_old\<rparr>"
  let ?left = "demo_old\<lparr>mi_accept_thread_exit := True, mi_svr_fd := -1, mi_req_dump := None\<rparr>"
  have take: "take_over (master_start 1000 4) (demo_loaded 1 200013920 e2) demo_old s =
      Some (False, False, ?kept, ?left, ma_log [Ma_cancel 3, Ma_join 3] s)" for s
    by (simp add: take_over_def master_start_def demo_old_def demo_loaded_def demo_master_def rs_master_info_t_init_def c_str_differ_def
      cstr_def ascii_def c_contents_def Let_def)
  have go: "run_master (master_start 1000 4) False False a mi p s = Some (Some (a, mi\<lparr>mi_accept_thread := 4\<rparr>), s)" for a mi p s
    by (simp add: run_master_def master_start_def)
  have left: "rs_free_master os th (Some (400020000, ?left)) s =
      Some (set_pool 400012920 None (ma_log [Ma_pool 400012920] (ma_log [Ma_join 3] s)))"
    if "ma_pools s 400012920 = Some (master_pool [] 10485760 400000000)" for os th s
    using that by (simp add: rs_free_master_def thread_rels_def close_rels_def demo_old_def demo_master_def rs_master_info_t_init_def
      rs_pfree_def rs_destroy_pool_def start RS_POOL_PAGEALLOC_def Let_def)
  have x: "in_os1 (master_start 1000 4) = os_grant 1000" "in_os2 (master_start 1000 4) = os_grant 200001000" "in_grow (master_start 1000 4) t = demo_grow"
    "in_file1 (master_start 1000 4) = Some master_file" "in_file2 (master_start 1000 4) = Some master_file" "in_blank (master_start 1000 4) = demo_master"
    "in_th (master_start 1000 4) = thr_good" for t
    by (simp_all add: master_start_def)
  have same: "mi_listen_addr (demo_loaded j q e) = mi_listen_addr demo_old" "mi_listen_port (demo_loaded j q e) = mi_listen_port demo_old"
    "mi_binlog_idx_file (demo_loaded j q e) = mi_binlog_idx_file demo_old" for j q e by (simp_all add: demo_loaded_def demo_old_def)
  show ?thesis
    by (simp add: x rs_init_master_def rs_init_master_info_def RS_POOL_PREALLOC_def master_pools_created 1(1) i free 2 s2 take go left start same
       cong: bind_weak_cong)
qed

lemma demo_reload_same:
  obtains s' mi where "rs_init_master (master_start 1000 4) demo_before = Some (RS_OK, s')" and "ma_info s' = Some (200013920, mi)"
    and "c_str_differ (mi_listen_addr mi) (mi_listen_addr demo_old) = Some False" and "mi_listen_port mi = mi_listen_port demo_old"
    and "c_str_differ (mi_binlog_idx_file mi) (mi_binlog_idx_file demo_old) = Some False"
proof -
  have "c_str_differ (mi_listen_addr demo_old) (mi_listen_addr demo_old) = Some False"
    "c_str_differ (mi_binlog_idx_file demo_old) (mi_binlog_idx_file demo_old) = Some False"
    by (simp_all add: demo_old_def demo_master_def rs_master_info_t_init_def c_str_differ_def cstr_def ascii_def c_contents_def)
  with demo_reload that show thesis by auto
qed

lemma demo_before_old: "ma_info demo_before = Some (400020000, demo_old)" "ma_trace demo_before = []"
  by (simp_all add: demo_before_def)

theorem reload_keeps_socket_witness:
  "\<exists>s'. rs_init_master (master_start 1000 4) demo_before = Some (RS_OK, s') \<and> (\<forall>fd. Ma_close fd \<notin> set (ma_trace s'))"
proof (rule demo_reload_same)
  fix s' mi
  assume r: "rs_init_master (master_start 1000 4) demo_before = Some (RS_OK, s')" "ma_info s' = Some (200013920, mi)"
    "c_str_differ (mi_listen_addr mi) (mi_listen_addr demo_old) = Some False" "mi_listen_port mi = mi_listen_port demo_old"
  from reload_keeps_socket [OF r(1) demo_before_old(1) r(2-4)] r(1) show ?thesis by (auto simp: demo_before_old(2))
qed

theorem reload_joins_twice_witness:
  "\<exists>s'. rs_init_master (master_start 1000 4) demo_before = Some (RS_OK, s') \<and> count_list (ma_trace s') (Ma_join 3) = 2"
proof (rule demo_reload_same)
  fix s' mi
  assume r: "rs_init_master (master_start 1000 4) demo_before = Some (RS_OK, s')"
  have "mi_accept_thread demo_old = 3" "in_cancel (master_start 1000 4)" by (simp_all add: demo_old_def master_start_def)
  with reload_joins_twice [OF r demo_before_old(1)] r show ?thesis by (auto simp: demo_before_old(2))
qed

theorem reload_releases_kept_table_witness:
  "\<exists>s'. rs_init_master (master_start 1000 4) demo_before = Some (RS_OK, s') \<and> rs_free_master (os_grant 7) thr_good None s' = None"
proof (rule demo_reload_same)
  fix s' mi
  assume r: "rs_init_master (master_start 1000 4) demo_before = Some (RS_OK, s')" "ma_info s' = Some (200013920, mi)"
    "c_str_differ (mi_binlog_idx_file mi) (mi_binlog_idx_file demo_old) = Some False"
  have "mi_pool demo_old = Some 400012920" "mi_req_dump demo_old = Some (400013920, 400012920, the (fst table2))"
    by (simp_all add: demo_old_def)
  from reload_releases_kept_table [OF r(1) demo_before_old(1) r(2) this r(3)] r(1) show ?thesis by auto
qed

end
