(* ===== verification/RS_SlaveMain.thy ===== *)
theory RS_SlaveMain
  imports RS_RedisThread RS_ConfVars
begin

text \<open>
  \<^verbatim>\<open>src/slave/rs_slave_info.c\<close> and \<^verbatim>\<open>rs_slave.c\<close>: starting and
  releasing the slave. The pool of the record is in the record; the one inside the configuration is the
  same pool.
\<close>

section \<open>Configuration\<close>

text \<open>With a \<^verbatim>\<open>dump_info\<close> of 4108 bytes at offset 120.\<close>

definition sizeof_rs_slave_info_t :: u32 where "sizeof_rs_slave_info_t = 4320"

definition RS_SLAVE_CONF_NUM :: u32 where "RS_SLAVE_CONF_NUM = 18"

definition slave_vars :: "conf_reg list" where
  "slave_vars =
     [(cstr ''listen.addr'', 8, RS_CONF_STR), (cstr ''listen.port'', 0, RS_CONF_INT32),
      (cstr ''slave.info'', 32, RS_CONF_STR), (cstr ''redis.addr'', 24, RS_CONF_STR),
      (cstr ''redis.port'', 16, RS_CONF_INT32), (cstr ''pool.factor'', 48, RS_CONF_DOUBLE),
      (cstr ''pool.memsize'', 56, RS_CONF_UINT32), (cstr ''pool.initsize'', 60, RS_CONF_UINT32),
      (cstr ''ringbuf.num'', 40, RS_CONF_UINT32), (cstr ''binlog.save'', 64, RS_CONF_UINT32),
      (cstr ''filter.tables'', 88, RS_CONF_STR), (cstr ''recvbuf.size'', 96, RS_CONF_UINT32),
      (cstr ''binlog.savesec'', 72, RS_CONF_UINT32), (cstr ''svr.ringbuf.esusec'', 100, RS_CONF_UINT32),
      (cstr ''cli.ringbuf.esusec'', 104, RS_CONF_UINT32)]"

definition rs_init_slave_conf :: "os_mem \<Rightarrow> addr \<Rightarrow> read_ev list option \<Rightarrow> conf_env \<Rightarrow> (rs_code \<times> conf_env) option" where
  "rs_init_slave_conf os a fp e = do {
     (r, e1) \<leftarrow> register_vars os e a slave_vars;
     if r \<noteq> RS_OK then Some (RS_ERR, e1) else rs_init_conf os (cstr ''slave'') e1 fp }"

definition load_slave :: "conf_env \<Rightarrow> addr \<Rightarrow> rs_slave_info_t \<Rightarrow> rs_slave_info_t" where
  "load_slave e a si = si
     \<lparr>si_listen_port := var_int e a (si_listen_port si),
      si_listen_addr := var_str e (a + 8) (si_listen_addr si),
      si_redis_port := var_int e (a + 16) (si_redis_port si),
      si_redis_addr := var_str e (a + 24) (si_redis_addr si),
      si_slave_info := var_str e (a + 32) (si_slave_info si),
      si_ringbuf_num := var_u32 e (a + 40) (si_ringbuf_num si),
      si_pool_factor := var_text e (a + 48) (si_pool_factor si),
      si_pool_memsize := var_u32 e (a + 56) (si_pool_memsize si),
      si_pool_initsize := var_u32 e (a + 60) (si_pool_initsize si),
      si_binlog_save := var_u32 e (a + 64) (si_binlog_save si),
      si_binlog_savesec := var_u32 e (a + 72) (si_binlog_savesec si),
      si_filter_tables := var_str e (a + 88) (si_filter_tables si),
      si_recvbuf_size := var_u32 e (a + 96) (si_recvbuf_size si),
      si_svr_rb_esusec := var_u32 e (a + 100) (si_svr_rb_esusec si),
      si_rb_esusec := var_u32 e (a + 104) (si_rb_esusec si)\<rparr>"

section \<open>Releasing\<close>

datatype slave_rel =
    Sl_cancel nat | Sl_join nat | Sl_close int | Sl_ring | Sl_buf | Sl_redis | Sl_tables
  | Sl_slabs "addr list" | Sl_pool

definition end_thread :: "nat \<Rightarrow> bool \<Rightarrow> slave_rel list" where
  "end_thread t exited = (if t \<noteq> 0 \<and> \<not> exited then [Sl_cancel t, Sl_join t] else [])"

text \<open>The argument is the record with its address, or none for \<^verbatim>\<open>rs_slave_info\<close>.\<close>

definition rs_free_slave ::
    "os_mem \<Rightarrow> (addr \<times> rs_slave_info_t) option \<Rightarrow> (addr \<times> rs_slave_info_t) option \<Rightarrow> slave_rel list option" where
  "rs_free_slave os data info =
     (case (case data of None \<Rightarrow> info | Some m \<Rightarrow> Some m) of
        None \<Rightarrow> Some []
      | Some (a, si) \<Rightarrow> do {
          p \<leftarrow> si_pool si;
          p1 \<leftarrow> (case si_ringbuf si of None \<Rightarrow> Some p | Some rb \<Rightarrow> rs_destroy_ringbuf os p rb);
          p2 \<leftarrow> (case si_table_func si of None \<Rightarrow> Some p1 | Some h \<Rightarrow> rs_destroy_shash os p1 h);
          slabs \<leftarrow> (case si_dpool si of None \<Rightarrow> Some [] | Some d \<Rightarrow> rs_destroy_pool d);
          p3 \<leftarrow> (case si_cf si of None \<Rightarrow> Some p2 | Some e \<Rightarrow> rs_destroy_conf os (e\<lparr>ce_pool := p2\<rparr>));
          p4 \<leftarrow> rs_pfree os p3 a (si_id si);
          _ \<leftarrow> rs_destroy_pool p4;
          Some (end_thread (si_io_thread si) (si_io_thread_exit si) @
            end_thread (si_redis_thread si) (si_redis_thread_exit si) @
            (if si_svr_fd si \<noteq> -1 then [Sl_close (si_svr_fd si)] else []) @
            (if si_ringbuf si \<noteq> None then [Sl_ring] else []) @
            (if si_recv_buf si \<noteq> None then [Sl_buf] else []) @
            (if si_info_fd si \<noteq> -1 then [Sl_close (si_info_fd si)] else []) @
            (if si_c si then [Sl_redis] else []) @
            (if si_table_func si \<noteq> None then [Sl_tables] else []) @
            (if si_dpool si \<noteq> None then [Sl_slabs slabs] else []) @ [Sl_pool]) })"

section \<open>Starting\<close>

text \<open>
  What the system answers, where \<open>sn_page\<close> is the size of a page. A thread 0 is one that could not
  be created.
\<close>

record slave_in =
  sn_page :: u32
  sn_os1 :: os_mem
  sn_os2 :: os_mem
  sn_osd :: os_mem \<comment> \<open>for the data pool\<close>
  sn_grow :: "byte list \<Rightarrow> u32 \<Rightarrow> u32"
  sn_file1 :: "read_ev list option"
  sn_file2 :: "read_ev list option"
  sn_blank :: rs_slave_info_t
  sn_buf :: "byte list option" \<comment> \<open>memory for the receive buffer\<close>
  sn_info_fd :: int
  sn_info :: "read_ev list" \<comment> \<open>what is read from \<^verbatim>\<open>slave.info\<close>\<close>
  sn_io_thread :: nat
  sn_redis_thread :: nat

text \<open>The rest of a start with a record at a: its configuration, or none for a table that was not made.\<close>

definition slave_conf ::
    "os_mem \<Rightarrow> read_ev list option \<Rightarrow> addr \<Rightarrow> rs_slave_info_t \<Rightarrow> rs_pool_t \<Rightarrow> (rs_code \<times> rs_slave_info_t) option" where
  "slave_conf os fp a si p = do {
     (cf, p1) \<leftarrow> rs_create_conf os p RS_SLAVE_CONF_NUM;
     case cf of
       None \<Rightarrow> Some (RS_ERR, si\<lparr>si_pool := Some p1\<rparr>)
     | Some h \<Rightarrow> do {
         (r, e) \<leftarrow> rs_init_slave_conf os a fp (new_conf h p1);
         Some (r, load_slave e a (si\<lparr>si_cf := Some e, si_pool := Some (ce_pool e)\<rparr>)) } }"

text \<open>The position is read with one call and ended with a NUL.\<close>

definition load_position :: "read_ev list \<Rightarrow> rs_slave_info_t \<Rightarrow> (rs_code \<times> rs_slave_info_t) option" where
  "load_position fd si =
     (case fst (rs_read fd info_cap) of
        None \<Rightarrow> Some (RS_ERR, si)
      | Some [] \<Rightarrow> Some (RS_ERR, si)
      | Some bs \<Rightarrow> map_option (\<lambda>d. (RS_OK, si\<lparr>si_dump_info := d\<rparr>)) (arr_write info_cap (si_dump_info si) 0 (bs @ [0])))"

text \<open>From the configuration to the two threads; the code says whether it got to the end.\<close>

definition slave_resources :: "slave_in \<Rightarrow> rs_slave_info_t \<Rightarrow> (rs_code \<times> rs_slave_info_t) option" where
  "slave_resources x si = do {
     p \<leftarrow> si_pool si;
     (ring, p1) \<leftarrow> rs_create_ringbuf (sn_os2 x) p (si_ringbuf_num si);
     let s1 = si\<lparr>si_ringbuf := ring, si_pool := Some p1\<rparr>;
     if ring = None then Some (RS_ERR, s1)
     else do {
       let buf = rs_create_tmpbuf (sn_buf x) (si_recvbuf_size s1);
       let s2 = s1\<lparr>si_recv_buf := buf\<rparr>;
       if buf = None then Some (RS_ERR, s2)
       else do {
         d \<leftarrow> rs_create_pool (sn_osd x) (si_pool_initsize s2) (si_pool_memsize s2) (sn_page x) RS_POOL_CLASS_IDX
                (sn_grow x (si_pool_factor s2)) RS_POOL_PAGEALLOC;
         let s3 = s2\<lparr>si_dpool := d\<rparr>;
         if d = None then Some (RS_ERR, s3)
         else do {
           (r, h, p2) \<leftarrow> rs_register_tables (sn_os2 x) p1;
           let s4 = s3\<lparr>si_table_func := h, si_pool := Some p2\<rparr>;
           if r \<noteq> RS_OK then Some (RS_ERR, s4)
           else do {
             let s5 = s4\<lparr>si_info_fd := sn_info_fd x\<rparr>;
             if sn_info_fd x = -1 then Some (RS_ERR, s5)
             else do {
               (r, s6) \<leftarrow> load_position (sn_info x) s5;
               if r \<noteq> RS_OK then Some (RS_ERR, s6)
               else if sn_io_thread x = 0 then Some (RS_ERR, s6)
               else do {
                 let s7 = s6\<lparr>si_io_thread := sn_io_thread x\<rparr>;
                 if sn_redis_thread x = 0 then Some (RS_ERR, s7)
                 else Some (RS_OK, s7\<lparr>si_redis_thread := sn_redis_thread x\<rparr>) } } } } } } }"

text \<open>
  A record in a pool, configured: none when there is no memory, else the code. The class idx of the
  second record is the one found in the first pool.
\<close>

definition open_slave ::
    "os_mem \<Rightarrow> read_ev list option \<Rightarrow> rs_slave_info_t \<Rightarrow> rs_pool_t \<Rightarrow> int \<Rightarrow> (rs_code \<times> addr \<times> rs_slave_info_t) option option" where
  "open_slave os fp blank p idx = do {
     (r, p1) \<leftarrow> rs_palloc os p sizeof_rs_slave_info_t idx;
     case r of
       None \<Rightarrow> Some None
     | Some a \<Rightarrow>
         if chunk_room p1 sizeof_rs_slave_info_t idx < unat sizeof_rs_slave_info_t then None
         else do {
           (r, si) \<leftarrow> slave_conf os fp a ((rs_slave_info_t_init blank)\<lparr>si_pool := Some p1, si_id := idx\<rparr>) p1;
           Some (Some (r, a, si)) } }"

definition rs_init_slave_info :: "slave_in \<Rightarrow> ((addr \<times> rs_slave_info_t) option \<times> slave_rel list) option" where
  "rs_init_slave_info x = do {
     p \<leftarrow> rs_create_pool (sn_os1 x) 200 (1024 * 1024 * 10) (sn_page x) RS_POOL_CLASS_IDX (sn_grow x (ascii ''1.5'')) RS_POOL_PREALLOC;
     case p of
       None \<Rightarrow> Some (None, [])
     | Some p1 \<Rightarrow> do {
         idx \<leftarrow> rs_palloc_id p1 sizeof_rs_slave_info_t;
         m \<leftarrow> open_slave (sn_os1 x) (sn_file1 x) (sn_blank x) p1 idx;
         case m of
           None \<Rightarrow> Some (None, [Sl_pool])
         | Some (r, a1, si1) \<Rightarrow> do {
             p \<leftarrow> (if r = RS_OK
                    then rs_create_pool (sn_os2 x) (si_pool_initsize si1) (si_pool_memsize si1) (sn_page x) RS_POOL_CLASS_IDX
                           (sn_grow x (si_pool_factor si1)) RS_POOL_PREALLOC
                    else Some None);
             rels \<leftarrow> rs_free_slave (sn_os1 x) (Some (a1, si1)) None;
             case p of
               None \<Rightarrow> Some (None, rels)
             | Some p2 \<Rightarrow> do {
                 m \<leftarrow> open_slave (sn_os2 x) (sn_file2 x) (sn_blank x) p2 idx;
                 case m of
                   None \<Rightarrow> Some (None, rels @ [Sl_pool])
                 | Some (r, a, si) \<Rightarrow> do {
                     (r, si') \<leftarrow> (if r = RS_OK then slave_resources x si else Some (RS_ERR, si));
                     if r = RS_OK then Some (Some (a, si'), rels)
                     else map_option (\<lambda>rels'. (None, rels @ rels')) (rs_free_slave (sn_os2 x) (Some (a, si')) None) } } } } }"

text \<open>A new slave, and the old one released.\<close>

definition rs_init_slave ::
    "slave_in \<Rightarrow> (addr \<times> rs_slave_info_t) option \<Rightarrow> (rs_code \<times> (addr \<times> rs_slave_info_t) option \<times> slave_rel list) option" where
  "rs_init_slave x info = do {
     (m, rels) \<leftarrow> rs_init_slave_info x;
     case m of
       None \<Rightarrow> Some (RS_ERR, info, rels)
     | Some si \<Rightarrow> do {
         rels' \<leftarrow> (case info of None \<Rightarrow> Some [] | Some os \<Rightarrow> rs_free_slave (sn_os2 x) (Some os) None);
         Some (RS_OK, Some si, rels @ rels') } }"

section \<open>Properties\<close>

text \<open>
  The position is read when it is shorter than its array; a file that fills the array is ended behind it.
\<close>

theorem position_loaded_bounds:
  assumes "rs_read fd info_cap = (Some bs, fd')" and "bs \<noteq> []" and "0 \<notin> set bs"
  shows "if length bs < info_cap
    then \<exists>si'. load_position fd si = Some (RS_OK, si') \<and> c_contents (arr_str info_cap (si_dump_info si')) = Some bs
    else load_position fd si = None"
proof -
  obtain b bs' where bs: "bs = b # bs'" using assms(2) by (cases bs) auto
  show ?thesis
  proof (cases "length bs < info_cap")
    case True
    then have "arr_write info_cap (si_dump_info si) 0 (bs @ [0]) = Some (bs @ 0 # drop (length bs + 1) (si_dump_info si))"
      by (simp add: arr_write_start)
    then have "load_position fd si = Some (RS_OK, si\<lparr>si_dump_info := bs @ 0 # drop (length bs + 1) (si_dump_info si)\<rparr>)"
      using assms(1) by (simp add: load_position_def bs)
    moreover have "c_contents (arr_str info_cap (bs @ 0 # drop (length bs + 1) (si_dump_info si))) = Some bs"
      by (rule arr_str_contents(2) [OF assms(3)])
    ultimately show ?thesis using True by simp
  next
    case False
    then have "arr_write info_cap (si_dump_info si) 0 (bs @ [0]) = None" by (simp add: arr_write_start)
    then show ?thesis using False assms(1) by (simp add: load_position_def bs)
  qed
qed

text \<open>
  C14. What the redis thread saves is what the next start of the slave goes on from.
\<close>

theorem saved_position_loaded:
  assumes "rs_flush_slave_info s = Some (RS_OK, s')" and "c_contents (arr_str info_cap (si_dump_info s)) = Some dump"
    and "sl_clock s = Some sec # ts" and "flush_due s sec" and "dump \<noteq> []" and "length dump < info_cap" and "0 \<notin> set dump"
  shows "\<exists>si'. load_position [Rd_data (sl_file s')] si = Some (RS_OK, si') \<and>
    c_contents (arr_str info_cap (si_dump_info si')) = Some dump"
proof -
  have "sl_file s' = dump" using flush_result(4) [OF assms(1,2)] assms(3,4) by auto
  moreover obtain b bs where d: "dump = b # bs" using assms(5) by (cases dump) auto
  moreover have "arr_write info_cap (si_dump_info si) 0 (dump @ [0]) = Some (dump @ 0 # drop (length dump + 1) (si_dump_info si))"
    using assms(6) by (simp add: arr_write_start)
  moreover have "c_contents (arr_str info_cap (dump @ 0 # drop (length dump + 1) (si_dump_info si))) = Some dump"
    by (rule arr_str_contents(2) [OF assms(7)])
  ultimately show ?thesis using assms(6) by (simp add: load_position_def)
qed

section \<open>Concrete runs\<close>

lemma empty_conf: "rs_init_conf os name e (Some []) = Some (RS_OK, e)"
  by (simp add: rs_init_conf_def conf_loop.simps)

definition slave_start :: "u32 \<Rightarrow> slave_in" where
  "slave_start page = \<lparr>sn_page = page, sn_os1 = os_grant 1000, sn_os2 = os_grant 20000000, sn_osd = os_grant 900000000, sn_grow = (\<lambda>_. demo_grow),
     sn_file1 = Some [], sn_file2 = Some [], sn_blank = blank_slave, sn_buf = Some [], sn_info_fd = 6,
     sn_info = [Rd_data (ascii ''bin.1,4'')], sn_io_thread = 3, sn_redis_thread = 4\<rparr>"

text \<open>The pools for pages of 8192 bytes.\<close>

definition slave_pool :: "rs_pool_class_t list \<Rightarrow> u32 \<Rightarrow> addr \<Rightarrow> rs_pool_t" where
  "slave_pool cs sz b = \<lparr>p_slab_class = cs @ [demo_class 8192 1], p_cur_idx = 2, p_max_idx = 200, p_start = b + 12920, p_cur = b + 12920,
      p_max_size = sz, p_used_size = 0, p_free_size = sz, p_chunk_size = 8192, p_flag = 1\<rparr>"

lemma slave_pools_created:
  "rs_create_pool (os_grant b) 200 10485760 8192 RS_POOL_CLASS_IDX demo_grow 1 =
     Some (Some (slave_pool [demo_class 200 40, demo_class 6000 1] 10485760 b))"
  "rs_create_pool (os_grant b) 100 104857600 8192 RS_POOL_CLASS_IDX demo_grow 1 =
     Some (Some (slave_pool [demo_class 104 78, demo_class 3120 2] 104857600 b))"
  by (code_simp, simp)+

lemma demo_opened:
  "\<exists>si. open_slave (os_grant 1000) (Some []) blank_slave (slave_pool [demo_class 200 40, demo_class 6000 1] 10485760 1000) 1 =
     Some (Some (RS_OK, 13920, si)) \<and> si_pool_initsize si = 100 \<and> si_pool_memsize si = 104857600 \<and>
     rs_free_slave (os_grant 1000) (Some (13920, si)) None = Some [Sl_pool]"
  by (simp add: pool_run conf_run slave_pool_def open_slave_def slave_conf_def rs_init_slave_conf_def slave_vars_def empty_conf
      load_slave_def rs_slave_info_t_init_def sizeof_rs_slave_info_t_def RS_SLAVE_CONF_NUM_def chunk_room_def cls_size_def
      rs_free_slave_def end_thread_def cong: bind_weak_cong)

text \<open>
  The class of the record is looked up in the first pool and used in the second, whose classes grow from
  another size: with pages of 8192 bytes the record is written behind its chunk.
\<close>

theorem stale_class_too_small: "rs_init_slave_info (slave_start 8192) = None"
proof -
  obtain si where 1: "open_slave (os_grant 1000) (Some []) blank_slave (slave_pool [demo_class 200 40, demo_class 6000 1] 10485760 1000) 1 =
     Some (Some (RS_OK, 13920, si))" "si_pool_initsize si = 100" "si_pool_memsize si = 104857600"
    "rs_free_slave (os_grant 1000) (Some (13920, si)) None = Some [Sl_pool]"
    using demo_opened by blast
  have 2: "open_slave (os_grant 20000000) (Some []) blank_slave (slave_pool [demo_class 104 78, demo_class 3120 2] 104857600 20000000) 1 = None"
    by (simp add: open_slave_def pool_run slave_pool_def sizeof_rs_slave_info_t_def chunk_room_def cls_size_def cong: bind_weak_cong)
  have id: "rs_palloc_id (slave_pool [demo_class 200 40, demo_class 6000 1] 10485760 1000) sizeof_rs_slave_info_t = Some 1"
    by (simp add: pool_run slave_pool_def sizeof_rs_slave_info_t_def)
  show ?thesis
    by (simp add: rs_init_slave_info_def slave_start_def RS_POOL_PREALLOC_def slave_pools_created id 1 2 cong: bind_weak_cong)
qed

theorem position_loaded_bounds_witness:
  "(\<exists>si'. load_position [Rd_data (ascii ''bin.1,4'')] blank_slave = Some (RS_OK, si')) \<and>
   load_position [Rd_data (replicate 4108 65)] blank_slave = None"
  using position_loaded_bounds [of "[Rd_data (ascii ''bin.1,4'')]" "ascii ''bin.1,4''" "[]" blank_slave]
    position_loaded_bounds [of "[Rd_data (replicate 4108 65)]" "replicate 4108 65" "[]" blank_slave]
  by (auto simp: ascii_def)

theorem saved_position_loaded_witness:
  "\<exists>s' si'. rs_flush_slave_info (demo_redis []) = Some (RS_OK, s') \<and> load_position [Rd_data (sl_file s')] blank_slave = Some (RS_OK, si') \<and>
     c_contents (arr_str info_cap (si_dump_info si')) = Some (ascii ''bin.1,4'')"
proof -
  obtain s' where r: "rs_flush_slave_info (demo_redis []) = Some (RS_OK, s')" using demo_flush(1) by blast
  from saved_position_loaded [OF r demo_flush(3,4,2), of blank_slave] r show ?thesis by (auto simp: ascii_def)
qed

end
