(* ===== verification/RS_CoreInfo.thy ===== *)
theory RS_CoreInfo
  imports RS_Main RS_Log RS_ConfVars
begin

text \<open>
  \<^verbatim>\<open>src/core/rs_core_info.c\<close> and the rest of \<^verbatim>\<open>rs_process.c\<close>: the
  state of the process. The answers of the system calls are arguments; what is done to the process and to
  files is a trace.
\<close>

section \<open>The process\<close>

datatype proc_act =
    Pr_exit | Pr_setsid | Pr_null int | Pr_close int | Pr_block "int set" | Pr_uid nat | Pr_gid nat | Pr_chdir "byte list"
  | Pr_unlink "byte list" | Pr_pidfile "byte list" "byte list" | Pr_open_log "byte list" | Pr_core_released

text \<open>What \<^verbatim>\<open>fork\<close> returned to this process.\<close>

datatype fork_result = Fork_error | Fork_child | Fork_parent

text \<open>
  The parent releases the core, closes its log and exits: no code. For the child the answers are those of
  \<^verbatim>\<open>setsid\<close>, \<^verbatim>\<open>open\<close> (-1: it failed), two calls of
  \<^verbatim>\<open>dup2\<close>, and \<^verbatim>\<open>close\<close>.
\<close>

definition rs_init_daemon ::
    "fork_result \<Rightarrow> bool \<Rightarrow> int \<Rightarrow> bool \<Rightarrow> bool \<Rightarrow> bool \<Rightarrow> int \<Rightarrow> rs_code option \<times> proc_act list" where
  "rs_init_daemon fk sid fd dup_in dup_out closed log_fd =
     (case fk of
        Fork_error \<Rightarrow> (Some RS_ERR, [])
      | Fork_parent \<Rightarrow> (None, Pr_core_released # (if log_fd \<noteq> 1 then [Pr_close log_fd] else []) @ [Pr_exit])
      | Fork_child \<Rightarrow>
          if \<not> sid then (Some RS_ERR, [])
          else if fd = -1 then (Some RS_ERR, [Pr_setsid])
          else if \<not> dup_in then (Some RS_ERR, [Pr_setsid])
          else if \<not> dup_out then (Some RS_ERR, [Pr_setsid, Pr_null 0])
          else if fd > 2 then (Some (if closed then RS_OK else RS_ERR), [Pr_setsid, Pr_null 0, Pr_null 1] @ (if closed then [Pr_close fd] else []))
          else (Some RS_OK, [Pr_setsid, Pr_null 0, Pr_null 1]))"

definition rs_init_signals :: "bool \<Rightarrow> rs_code \<times> int set \<times> proc_act list" where
  "rs_init_signals ok =
     (let waitset = {SIGINT, SIGTERM, SIGPIPE, SIGQUIT, SIGHUP} in
      if ok then (RS_OK, waitset, [Pr_block waitset]) else (RS_ERR, waitset, []))"

definition rs_delete_pidfile :: "byte list option \<Rightarrow> proc_act list" where
  "rs_delete_pidfile name = [Pr_unlink (case name of None \<Rightarrow> cstr ''./rs.pid'' | Some n \<Rightarrow> n)]"

text \<open>\<open>pw\<close> and \<open>gr\<close> are the tables of users and groups, \<open>ok\<close> tells whether the process may change.\<close>

definition rs_init_uid :: "(byte list \<Rightarrow> nat option) \<Rightarrow> bool \<Rightarrow> byte list \<Rightarrow> rs_code \<times> proc_act list" where
  "rs_init_uid pw ok user =
     (case pw user of None \<Rightarrow> (RS_ERR, []) | Some u \<Rightarrow> if ok then (RS_OK, [Pr_uid u]) else (RS_ERR, []))"

definition rs_init_gid :: "(byte list \<Rightarrow> nat option) \<Rightarrow> bool \<Rightarrow> byte list \<Rightarrow> rs_code \<times> proc_act list" where
  "rs_init_gid gr ok grp =
     (case gr grp of None \<Rightarrow> (RS_ERR, []) | Some g \<Rightarrow> if ok then (RS_OK, [Pr_gid g]) else (RS_ERR, []))"

definition rs_chdir :: "bool \<Rightarrow> byte list option \<Rightarrow> rs_code \<times> proc_act list" where
  "rs_chdir ok cwd =
     (case cwd of None \<Rightarrow> (RS_OK, []) | Some d \<Rightarrow> if ok then (RS_OK, [Pr_chdir d]) else (RS_ERR, []))"

section \<open>The core state\<close>

record rs_core_info_t =
  co_user :: "byte list option"
  co_cwd :: "byte list option"
  co_pid_path :: "byte list option"
  co_log_path :: "byte list option"
  co_daemon :: u32
  co_debug_level :: "byte list option"
  co_cf :: "conf_env option"
  co_pool :: rs_pool_t
  co_id :: int
  co_sig_set :: "int set"

definition rs_core_info_t_init :: "rs_core_info_t \<Rightarrow> rs_core_info_t" where
  "rs_core_info_t_init ci = ci\<lparr>co_user := None, co_cwd := None, co_pid_path := None, co_log_path := None,
     co_debug_level := None, co_daemon := 0\<rparr>"

text \<open>The globals of the log and the process.\<close>

record core_st =
  cs_log_level :: u32
  cs_debug_level :: u32
  cs_log_fd :: int
  cs_acts :: "proc_act list"

definition cs_do :: "proc_act list \<Rightarrow> core_st \<Rightarrow> core_st" where
  "cs_do as s = s\<lparr>cs_acts := cs_acts s @ as\<rparr>"

definition sizeof_rs_core_info_t :: u32 where "sizeof_rs_core_info_t = 328"

definition RS_CORE_CONF_NUM :: u32 where "RS_CORE_CONF_NUM = 7"

text \<open>Offsets in the record; the level of the log is the global at \<open>lv\<close>.\<close>

definition core_vars :: "addr \<Rightarrow> addr \<Rightarrow> conf_reg list" where
  "core_vars a lv =
     [(cstr ''cwd'', a + 8, RS_CONF_STR), (cstr ''user'', a, RS_CONF_STR), (cstr ''pid'', a + 16, RS_CONF_STR),
      (cstr ''log'', a + 24, RS_CONF_STR), (cstr ''log.level'', lv, RS_CONF_UINT32),
      (cstr ''debug.level'', a + 40, RS_CONF_STR), (cstr ''daemon'', a + 32, RS_CONF_UINT32)]"

definition rs_init_core_conf :: "os_mem \<Rightarrow> addr \<Rightarrow> addr \<Rightarrow> read_ev list option \<Rightarrow> conf_env \<Rightarrow> (rs_code \<times> conf_env) option" where
  "rs_init_core_conf os a lv fp e = do {
     (r, e1) \<leftarrow> register_vars os e 0 (core_vars a lv);
     if r \<noteq> RS_OK then Some (RS_ERR, e1) else rs_init_conf os (cstr ''core'') e1 fp }"

definition load_core :: "conf_env \<Rightarrow> addr \<Rightarrow> rs_core_info_t \<Rightarrow> rs_core_info_t" where
  "load_core e a ci = ci
     \<lparr>co_user := var_str e a (co_user ci), co_cwd := var_str e (a + 8) (co_cwd ci),
      co_pid_path := var_str e (a + 16) (co_pid_path ci), co_log_path := var_str e (a + 24) (co_log_path ci),
      co_daemon := var_u32 e (a + 32) (co_daemon ci), co_debug_level := var_str e (a + 40) (co_debug_level ci)\<rparr>"

definition rs_free_core :: "os_mem \<Rightarrow> addr \<Rightarrow> rs_core_info_t \<Rightarrow> unit option" where
  "rs_free_core os a ci = do {
     p \<leftarrow> (case co_cf ci of None \<Rightarrow> Some (co_pool ci) | Some e \<Rightarrow> rs_destroy_conf os (e\<lparr>ce_pool := co_pool ci\<rparr>));
     p1 \<leftarrow> rs_pfree os p a (co_id ci);
     _ \<leftarrow> rs_destroy_pool p1;
     Some () }"

text \<open>What the system answers at a start.\<close>

record core_in =
  cn_os :: os_mem
  cn_page :: u32
  cn_grow :: "u32 \<Rightarrow> u32"
  cn_level_at :: addr \<comment> \<open>where \<^verbatim>\<open>rs_log_level\<close> is\<close>
  cn_conf :: "read_ev list option"
  cn_blank :: rs_core_info_t
  cn_chdir :: bool
  cn_pw :: "byte list \<Rightarrow> nat option"
  cn_gr :: "byte list \<Rightarrow> nat option"
  cn_setuid :: bool
  cn_setgid :: bool
  cn_log :: int \<comment> \<open>the descriptor of the log, -1: not opened\<close>
  cn_mask :: bool
  cn_fork :: fork_result
  cn_setsid :: bool
  cn_null :: int \<comment> \<open>the descriptor of \<^verbatim>\<open>/dev/null\<close>\<close>
  cn_dup_in :: bool
  cn_dup_out :: bool
  cn_closed :: bool
  cn_pid :: nat
  cn_pidfile :: bool
  cn_pidwrite :: "write_ev list"

text \<open>User and group are separated by a space, which is overwritten.\<close>

definition core_user :: "core_in \<Rightarrow> rs_core_info_t \<Rightarrow> core_st \<Rightarrow> (rs_code \<times> rs_core_info_t \<times> core_st) option" where
  "core_user x ci s =
     (case co_user ci of
        None \<Rightarrow> Some (RS_OK, ci, s)
      | Some user \<Rightarrow> do {
          t \<leftarrow> c_strchr 32 user;
          let (user', grp) = (case t of None \<Rightarrow> (user, None) | Some k \<Rightarrow> (user[k := 0], Some (drop (k + 1) user)));
          let ci' = ci\<lparr>co_user := Some user'\<rparr>;
          g \<leftarrow> (case grp of None \<Rightarrow> Some None | Some g \<Rightarrow> map_option Some (c_contents g));
          u \<leftarrow> c_contents user';
          let (r, as) = (case g of None \<Rightarrow> (RS_OK, []) | Some g \<Rightarrow> rs_init_gid (cn_gr x) (cn_setgid x) g);
          let s1 = cs_do as s;
          if r \<noteq> RS_OK then Some (RS_ERR, ci', s1)
          else (let (r, as) = rs_init_uid (cn_pw x) (cn_setuid x) u in
            Some (if r \<noteq> RS_OK then RS_ERR else RS_OK, ci', cs_do as s1)) })"

text \<open>The log is opened when its path has changed; levels are only ever switched on.\<close>

definition core_log :: "core_in \<Rightarrow> rs_core_info_t \<Rightarrow> core_st \<Rightarrow> (rs_code \<times> core_st) option" where
  "core_log x ci s =
     (if cn_log x = -1 then Some (RS_ERR, s)
      else do {
        let s1 = cs_do [Pr_open_log (case co_log_path ci of None \<Rightarrow> cstr ''./rs.log'' | Some n \<Rightarrow> n)] s;
        (r, lv) \<leftarrow> rs_log_set_levels (co_debug_level ci) (cs_debug_level s1);
        let s2 = s1\<lparr>cs_debug_level := lv\<rparr>;
        Some (if r \<noteq> RS_OK then (RS_ERR, s2) else (RS_OK, s2\<lparr>cs_log_fd := cn_log x\<rparr>)) })"

text \<open>
  From the configuration on, with the old core state. The code is none when this process has become the
  parent of the daemon and ended.
\<close>

definition core_process ::
    "core_in \<Rightarrow> rs_core_info_t option \<Rightarrow> rs_core_info_t \<Rightarrow> core_st \<Rightarrow> (rs_code option \<times> rs_core_info_t \<times> core_st) option" where
  "core_process x oc ci s = do {
     (nl, nd, s1) \<leftarrow>
       (case oc of
          None \<Rightarrow> Some (True, True, s)
        | Some oc \<Rightarrow> do {
            nl \<leftarrow> c_str_differ (co_log_path oc) (co_log_path ci);
            moved \<leftarrow> c_str_differ (co_pid_path oc) (co_pid_path ci);
            Some (nl, co_daemon oc \<noteq> co_daemon ci, if moved then cs_do (rs_delete_pidfile (co_pid_path oc)) s else s) });
     let (r, as) = rs_chdir (cn_chdir x) (co_cwd ci);
     let s2 = cs_do as s1;
     if r \<noteq> RS_OK then Some (Some RS_ERR, ci, s2)
     else do {
       (r, ci1, s3) \<leftarrow> core_user x ci s2;
       if r \<noteq> RS_OK then Some (Some RS_ERR, ci1, s3)
       else do {
         (r, s4) \<leftarrow> (if nl then core_log x ci1 s3 else Some (RS_OK, s3));
         if r \<noteq> RS_OK then Some (Some RS_ERR, ci1, s4)
         else
           (let (r, mask, as) = rs_init_signals (cn_mask x); ci2 = ci1\<lparr>co_sig_set := mask\<rparr>; s5 = cs_do as s4 in
            if r \<noteq> RS_OK then Some (Some RS_ERR, ci2, s5)
            else
              (let (r, as) = (if nd \<and> co_daemon ci2 = 1
                    then rs_init_daemon (cn_fork x) (cn_setsid x) (cn_null x) (cn_dup_in x) (cn_dup_out x) (cn_closed x) (cs_log_fd s5)
                    else (Some RS_OK, [])); s6 = cs_do as s5 in
               if r \<noteq> Some RS_OK then Some (r, ci2, s6)
               else
                 (let (r, bs) = rs_create_pidfile (cn_pidfile x) (cn_pidwrite x) (cn_pid x);
                      s7 = (if cn_pidfile x then cs_do [Pr_pidfile (case co_pid_path ci2 of None \<Rightarrow> cstr ''./rs.pid'' | Some n \<Rightarrow> n) bs] s6 else s6) in
                  Some (Some (if r \<noteq> RS_OK then RS_ERR else RS_OK), ci2, s7)))) } } }"

text \<open>The new core state with its address; none also when the process has ended.\<close>

definition rs_init_core_info ::
    "core_in \<Rightarrow> rs_core_info_t option \<Rightarrow> core_st \<Rightarrow> ((addr \<times> rs_core_info_t) option \<times> core_st) option" where
  "rs_init_core_info x oc s = do {
     p \<leftarrow> rs_create_pool (cn_os x) 200 (1024 * 1024 * 10) (cn_page x) RS_POOL_CLASS_IDX (cn_grow x) RS_POOL_PREALLOC;
     case p of
       None \<Rightarrow> Some (None, s)
     | Some p \<Rightarrow> do {
         idx \<leftarrow> rs_palloc_id p sizeof_rs_core_info_t;
         (m, p1) \<leftarrow> rs_palloc (cn_os x) p sizeof_rs_core_info_t idx;
         case m of
           None \<Rightarrow> do { _ \<leftarrow> rs_destroy_pool p1; Some (None, s) }
         | Some a \<Rightarrow> do {
             (cf, p2) \<leftarrow> rs_create_conf (cn_os x) p1 RS_CORE_CONF_NUM;
             let ci = (cn_blank x)\<lparr>co_pool := p2, co_id := idx, co_cf := None\<rparr>;
             case cf of
               None \<Rightarrow> map_option (\<lambda>_. (None, cs_do [Pr_core_released] s)) (rs_free_core (cn_os x) a ci)
             | Some h \<Rightarrow> do {
                 (r, e) \<leftarrow> rs_init_core_conf (cn_os x) a (cn_level_at x) (cn_conf x) (new_conf h p2);
                 let ci1 = load_core e a ((rs_core_info_t_init ci)\<lparr>co_cf := Some e, co_pool := ce_pool e\<rparr>);
                 let s1 = s\<lparr>cs_log_level := var_u32 e (cn_level_at x) (cs_log_level s)\<rparr>;
                 (r, ci2, s2) \<leftarrow> (if r \<noteq> RS_OK then Some (Some RS_ERR, ci1, s1) else core_process x oc ci1 s1);
                 case r of
                   None \<Rightarrow> Some (None, s2)
                 | Some r \<Rightarrow>
                     if r = RS_OK then Some (Some (a, ci2), s2)
                     else map_option (\<lambda>_. (None, cs_do [Pr_core_released] s2)) (rs_free_core (cn_os x) a ci2) } } } }"

section \<open>Debug levels\<close>

lemma and_absorb_or: "(lv OR w) AND lv = (lv :: u32)"
  by (simp add: word_ao_absorbs)

lemma set_levels_loop_keeps:
  "set_levels_loop first p lv = Some (r, lv') \<Longrightarrow> lv' AND lv = lv"
proof (induction first p lv rule: set_levels_loop.induct)
  case (1 first p lv)
  let ?q = "if first then p else tl p"
  have ne: "p \<noteq> []" using "1.prems" by (subst (asm) set_levels_loop.simps) (simp split: if_splits)
  note run = "1.prems" [unfolded set_levels_loop.simps [of first p lv] Let_def, simplified ne if_False]
  show ?case
  proof (cases "find_debug_level 0 rs_debug_levels ?q")
    case None
    with run show ?thesis by simp
  next
    case (Some f)
    show ?thesis
    proof (cases f)
      case None
      with run Some show ?thesis by simp
    next
      case (Some i)
      let ?lv = "lv OR push_bit i RS_DEBUG_FIRST"
      note found = \<open>find_debug_level 0 rs_debug_levels ?q = Some f\<close> [unfolded Some]
      show ?thesis
      proof (cases "c_strchr 124 ?q")
        case None
        with run found show ?thesis by simp
      next
        case (Some c)
        show ?thesis
        proof (cases c)
          case None
          with run found Some show ?thesis by (auto simp: and_absorb_or)
        next
          case k: (Some k)
          with run found Some have "set_levels_loop False (drop k ?q) ?lv = Some (r, lv')" by simp
          with "1.IH" [OF ne refl found refl refl Some k] have "lv' AND ?lv = ?lv" by simp
          then have "lv' AND lv = (?lv AND lv') AND lv" by (metis and.assoc and.commute and_absorb_or)
          then show ?thesis using \<open>lv' AND ?lv = ?lv\<close> by (metis and.commute and_absorb_or)
        qed
      qed
    qed
  qed
qed

lemma cs_do_simps [simp]: "cs_debug_level (cs_do as s) = cs_debug_level s" "cs_log_fd (cs_do as s) = cs_log_fd s"
  "cs_log_level (cs_do as s) = cs_log_level s" "cs_acts (cs_do as s) = cs_acts s @ as"
  by (simp_all add: cs_do_def)

lemma core_user_levels:
  assumes "core_user x ci s = Some (r, ci', s')"
  shows "cs_debug_level s' = cs_debug_level s"
proof (cases "co_user ci")
  case None
  with assms show ?thesis by (simp add: core_user_def)
next
  case (Some user)
  obtain t where t: "c_strchr 32 user = Some t" using assms Some by (cases "c_strchr 32 user") (auto simp: core_user_def)
  define user' where "user' = (case t of None \<Rightarrow> user | Some k \<Rightarrow> user[k := 0])"
  define grp where "grp = (case t of None \<Rightarrow> None | Some k \<Rightarrow> Some (drop (k + 1) user))"
  have pair: "(case t of None \<Rightarrow> (user, None) | Some k \<Rightarrow> (user[k := 0], Some (drop (k + 1) user))) = (user', grp)"
    by (simp add: user'_def grp_def split: option.split)
  note run = assms [unfolded core_user_def Some, simplified, unfolded t, simplified, unfolded pair [simplified], simplified]
  obtain g where g: "(case grp of None \<Rightarrow> Some None | Some g \<Rightarrow> map_option Some (c_contents g)) = Some g"
    using run by (cases "case grp of None \<Rightarrow> Some None | Some g \<Rightarrow> map_option Some (c_contents g)") (auto simp: Let_def)
  obtain u where u: "c_contents user' = Some u" using run g by (cases "c_contents user'") (auto simp: Let_def)
  obtain r1 as1 where gid: "(case g of None \<Rightarrow> (RS_OK, []) | Some g \<Rightarrow> rs_init_gid (cn_gr x) (cn_setgid x) g) = (r1, as1)" by fastforce
  obtain r2 as2 where uid: "rs_init_uid (cn_pw x) (cn_setuid x) u = (r2, as2)" by fastforce
  show ?thesis using run by (auto simp: g u gid uid Let_def split: if_splits)
qed

lemma core_log_levels: "core_log x ci s = Some (r, s') \<Longrightarrow> cs_debug_level s' AND cs_debug_level s = cs_debug_level s"
  by (auto simp: core_log_def rs_log_set_levels_def Let_def bind_eq_Some_conv dest: set_levels_loop_keeps split: option.splits if_splits)

lemma core_process_levels:
  assumes "core_process x oc ci s = Some (r, ci', s')"
  shows "cs_debug_level s' AND cs_debug_level s = cs_debug_level s"
proof -
  define first where "first = (case oc of
          None \<Rightarrow> Some (True, True, s)
        | Some oc \<Rightarrow> do {
            nl \<leftarrow> c_str_differ (co_log_path oc) (co_log_path ci);
            moved \<leftarrow> c_str_differ (co_pid_path oc) (co_pid_path ci);
            Some (nl, co_daemon oc \<noteq> co_daemon ci, if moved then cs_do (rs_delete_pidfile (co_pid_path oc)) s else s) })"
  note run = assms [unfolded core_process_def, folded first_def]
  obtain nl nd s1 where 1: "first = Some (nl, nd, s1)" using run by (cases first) auto
  then have s1: "cs_debug_level s1 = cs_debug_level s"
    by (auto simp: first_def bind_eq_Some_conv split: option.splits if_splits)
  obtain r1 as1 where c: "rs_chdir (cn_chdir x) (co_cwd ci) = (r1, as1)" by fastforce
  note run1 = run [unfolded 1 c, simplified]
  show ?thesis
  proof (cases "r1 = RS_OK")
    case False
    with run1 s1 show ?thesis by auto
  next
    case True
    note runt = run1 [unfolded True, simplified]
    obtain r2 ci1 s3 where u: "core_user x ci (cs_do as1 s1) = Some (r2, ci1, s3)"
      using runt by (cases "core_user x ci (cs_do as1 s1)") auto
    have s3: "cs_debug_level s3 = cs_debug_level s" using core_user_levels [OF u] s1 by simp
    note run2 = runt [unfolded u, simplified]
    show ?thesis
    proof (cases "r2 = RS_OK")
      case False
      with run2 s3 show ?thesis by auto
    next
      case ok: True
      note run3 = run2 [unfolded ok, simplified]
      let ?log = "if nl then core_log x ci1 s3 else Some (RS_OK, s3)"
      obtain r3 s4 where l: "?log = Some (r3, s4)" using run3 by (cases ?log) auto
      then have s4: "cs_debug_level s4 AND cs_debug_level s = cs_debug_level s"
        using core_log_levels [of x ci1 s3 r3 s4] s3 by (auto split: if_splits)
      note run4 = run3 [unfolded l, simplified]
      have "cs_debug_level s' = cs_debug_level s4"
        using run4 by (auto simp: Let_def split: if_splits prod.splits)
      with s4 show ?thesis by simp
    qed
  qed
qed

section \<open>Properties\<close>

text \<open>
  C35. Whatever a start or a reload of the core does, and whether or not it succeeds, a debug level that was
  on stays on.
\<close>

theorem debug_levels_stay:
  assumes "rs_init_core_info x oc s = Some (m, s')"
  shows "cs_debug_level s' AND cs_debug_level s = cs_debug_level s"
proof -
  obtain p where p: "rs_create_pool (cn_os x) 200 (1024 * 1024 * 10) (cn_page x) RS_POOL_CLASS_IDX (cn_grow x) RS_POOL_PREALLOC = Some p"
    using assms by (auto simp: rs_init_core_info_def bind_eq_Some_conv)
  note run = assms [unfolded rs_init_core_info_def p, simplified]
  show ?thesis
  proof (cases p)
    case None
    with run show ?thesis by simp
  next
    case (Some q)
    note run0 = run [unfolded Some, simplified]
    obtain idx where idx: "rs_palloc_id q sizeof_rs_core_info_t = Some idx"
      using run0 by (cases "rs_palloc_id q sizeof_rs_core_info_t") auto
    note run1 = run0 [unfolded idx, simplified]
    obtain a p1 where a: "rs_palloc (cn_os x) q sizeof_rs_core_info_t idx = Some (a, p1)"
      using run1 by (cases "rs_palloc (cn_os x) q sizeof_rs_core_info_t idx") auto
    note run2 = run1 [unfolded a, simplified]
    show ?thesis
    proof (cases a)
      case None
      with run2 show ?thesis by (auto simp: bind_eq_Some_conv)
    next
      case at: (Some b)
      obtain cf p2 where cf: "rs_create_conf (cn_os x) p1 RS_CORE_CONF_NUM = Some (cf, p2)"
        using run2 at by (cases "rs_create_conf (cn_os x) p1 RS_CORE_CONF_NUM") auto
      note run3 = run2 [unfolded at, simplified, unfolded cf, simplified]
      show ?thesis
      proof (cases cf)
        case None
        with run3 show ?thesis by (auto simp: Let_def)
      next
        case h: (Some h)
        obtain r e where e: "rs_init_core_conf (cn_os x) b (cn_level_at x) (cn_conf x) (new_conf h p2) = Some (r, e)"
          using run3 h by (cases "rs_init_core_conf (cn_os x) b (cn_level_at x) (cn_conf x) (new_conf h p2)") (auto simp: Let_def)
        let ?ci = "load_core e b ((rs_core_info_t_init ((cn_blank x)\<lparr>co_pool := p2, co_id := idx, co_cf := None\<rparr>))
            \<lparr>co_cf := Some e, co_pool := ce_pool e\<rparr>)"
        let ?s = "s\<lparr>cs_log_level := var_u32 e (cn_level_at x) (cs_log_level s)\<rparr>"
        let ?go = "if r \<noteq> RS_OK then Some (Some RS_ERR, ?ci, ?s) else core_process x oc ?ci ?s"
        obtain r2 ci2 s2 where go: "?go = Some (r2, ci2, s2)"
          using run3 h e by (cases ?go) (auto simp: Let_def)
        have lv: "cs_debug_level s2 AND cs_debug_level s = cs_debug_level s"
          using go core_process_levels [of x oc ?ci ?s r2 ci2 s2] by (auto split: if_splits)
        have "cs_debug_level s' = cs_debug_level s2"
          using run3 h e go by (auto simp: Let_def split: option.splits if_splits)
        with lv show ?thesis by simp
      qed
    qed
  qed
qed

section \<open>A concrete run\<close>

definition core_settings :: "(byte list \<times> byte list) list" where
  "core_settings = [(ascii ''debug.level'', ascii ''HASH'')]"

definition core_file :: "read_ev list" where
  "core_file = [Rd_data (conf_file (ascii ''core'') core_settings)]"

lemma demo_core_conf: "rs_init_core_conf os a lv (Some core_file) e = do {
     (r, e1) \<leftarrow> register_vars os e 0 (core_vars a lv);
     if r \<noteq> RS_OK then Some (RS_ERR, e1) else conf_apply_all os e1 core_settings }"
proof -
  have c: "rs_init_conf os (cstr ''core'') e' (Some core_file) = conf_apply_all os e' core_settings" for e'
    unfolding cstr_def
    by (rule conf_file_run) (simp_all add: core_file_def core_settings_def ascii_def plain_def setting_ok_def)
  show ?thesis unfolding rs_init_core_conf_def c ..
qed

definition demo_blank :: rs_core_info_t where
  "demo_blank = \<lparr>co_user = None, co_cwd = None, co_pid_path = None, co_log_path = None, co_daemon = 0, co_debug_level = None,
     co_cf = None, co_pool = conf_pool 1, co_id = 0, co_sig_set = {}\<rparr>"

definition demo_core :: core_in where
  "demo_core = \<lparr>cn_os = os_grant 1000, cn_page = 4096, cn_grow = demo_grow, cn_level_at = 500, cn_conf = Some core_file, cn_blank = demo_blank,
     cn_chdir = True, cn_pw = (\<lambda>_. None), cn_gr = (\<lambda>_. None), cn_setuid = True, cn_setgid = True, cn_log = 4, cn_mask = True,
     cn_fork = Fork_child, cn_setsid = True, cn_null = 5, cn_dup_in = True, cn_dup_out = True, cn_closed = True,
     cn_pid = 77, cn_pidfile = True, cn_pidwrite = [Wr_acc 100]\<rparr>"

lemma core_pool_created:
  "rs_create_pool (os_grant b) 200 10485760 4096 RS_POOL_CLASS_IDX demo_grow 1 =
     Some (Some \<lparr>p_slab_class = [demo_class 200 20, demo_class 4096 1], p_cur_idx = 1, p_max_idx = 200, p_start = b + 12920, p_cur = b + 12920,
      p_max_size = 10485760, p_used_size = 0, p_free_size = 10485760, p_chunk_size = 4096, p_flag = 1\<rparr>)"
  by (code_simp, simp)

lemma demo_levels: "rs_log_set_levels (Some [72, 65, 83, 72, 0]) lv = Some (RS_OK, lv OR 0x20)"
proof -
  have "join_levels [1] @ [0] = [72, 65, 83, 72, 0]" "push_bit 1 RS_DEBUG_FIRST = 0x20" by code_simp+
  then show ?thesis using set_levels_loop_join [of "[1]" True lv] by (simp add: rs_log_set_levels_def level_bits_def)
qed

lemma demo_pid: "fmt_u 77 = [55, 55]"
  by code_simp

lemma demo_core_runs:
  "\<exists>m s'. rs_init_core_info demo_core None \<lparr>cs_log_level = 1, cs_debug_level = 0x10, cs_log_fd = 1, cs_acts = []\<rparr> = Some (Some m, s') \<and>
     cs_debug_level s' = 0x30"
  by (simp add: rs_init_core_info_def demo_core_def core_pool_created RS_POOL_PREALLOC_def pool_run conf_run demo_core_conf core_vars_def
      core_settings_def demo_blank_def rs_core_info_t_init_def load_core_def sizeof_rs_core_info_t_def RS_CORE_CONF_NUM_def
      core_process_def rs_chdir_def core_user_def core_log_def cs_do_def demo_levels demo_pid rs_init_signals_def rs_create_pidfile_def
      cong: bind_weak_cong)

theorem debug_levels_stay_witness:
  "\<exists>m s'. rs_init_core_info demo_core None \<lparr>cs_log_level = 1, cs_debug_level = 0x10, cs_log_fd = 1, cs_acts = []\<rparr> = Some (Some m, s') \<and>
     cs_debug_level s' AND 0x10 = 0x10"
proof -
  obtain m s' where r: "rs_init_core_info demo_core None \<lparr>cs_log_level = 1, cs_debug_level = 0x10, cs_log_fd = 1, cs_acts = []\<rparr> = Some (Some m, s')"
    using demo_core_runs by blast
  from debug_levels_stay [OF r] r show ?thesis by simp
qed

end
