(* ===== verification/Spec2Isabelle.thy ===== *)
theory Spec2Isabelle
  imports RS_String RS_Palloc RS_Shash RS_RingBuf RS_TmpBuf RS_Conf RS_EventStream RS_DumpThread RS_RedisThread
    RS_DumpListen RS_Main RS_Log RS_Master RS_SlaveMain RS_CoreInfo
begin

text \<open>
  MySQL-Syncer: a master process that follows the binlog of a MySQL server and sends its row events
  to slave processes, which turn them into commands for redis. Both are built from one tree,
  \<^verbatim>\<open>src/core\<close> with \<^verbatim>\<open>src/master\<close> or with
  \<^verbatim>\<open>src/slave\<close>.

  The parts and how they interact. The master listens (\<^verbatim>\<open>rs_dump_listen.c\<close>)
  and gives every slave that connects a slot of the table of dump connections
  (\<^verbatim>\<open>rs_request_dump.c\<close>) with a pool, a ring buffer, a send buffer and two threads. The I/O
  thread of the slot reads the binlog (\<^verbatim>\<open>rs_read_binlog.c\<close>), parses its events
  (\<^verbatim>\<open>rs_parse_binlog.c\<close>), and writes a message for a row event of a table the slave
  asked for into a chunk of the pool and into the ring (\<^verbatim>\<open>rs_filter_binlog.c\<close>). The dump
  thread takes messages from the ring, frames them into the send buffer and sends it. On the slave the
  I/O thread (\<^verbatim>\<open>rs_io_thread.c\<close>) asks for its position and its tables, receives the
  frames into chunks of its pool and puts them into its ring; the redis thread
  (\<^verbatim>\<open>rs_redis_thread.c\<close>) takes them out, finds the handler of the table in the hash table
  (\<^verbatim>\<open>rs_register_tables.c\<close>, \<^verbatim>\<open>rs_hash.c\<close>), which decodes the rows
  (\<^verbatim>\<open>rs_binlog_row.c\<close>, \<^verbatim>\<open>rs_mysql_test_test.c\<close>) and appends commands for
  redis (\<^verbatim>\<open>rs_redis.c\<close>), and saves the position.

  Conventions. A function of the code is a definition of the same name. \<^verbatim>\<open>None\<close> is
  undefined behaviour of C: an access outside an array or a chunk, or through a null pointer. What the
  code returns as a code, also an error, is a value of \<^verbatim>\<open>rs_code\<close> inside
  \<^verbatim>\<open>Some\<close>. Unsigned integers of the code are words of their width and wrap around;
  signed ones are \<^verbatim>\<open>int\<close>, read from a word where the code converts. Memory is a list of
  bytes; a fixed array is the list that was written to it (\<^verbatim>\<open>arr_write\<close>,
  \<^verbatim>\<open>arr_read\<close>), with its capacity checked. What the kernel, the C library, hiredis and the
  other processes do is an argument: a record of answers (\<^verbatim>\<open>os_mem\<close>,
  \<^verbatim>\<open>thr_ops\<close>) or a history, the list of results of successive calls, which the model
  consumes one by one.

  Theories.
  \<^item> \<^verbatim>\<open>RS_Prelude\<close>: codes, memory, C strings, bytes of integers, and lemmas on them.
  \<^item> \<^verbatim>\<open>RS_String\<close> (\<^verbatim>\<open>rs_string.c\<close>): decimal numbers, escapes, hex,
    packed integers; values and round trips.
  \<^item> \<^verbatim>\<open>RS_Palloc\<close> (\<^verbatim>\<open>rs_palloc.c\<close>): the slab pool; its invariant over
    all histories, chunks disjoint and inside the arena, release and reuse.
  \<^item> \<^verbatim>\<open>RS_Shash\<close> (\<^verbatim>\<open>rs_hash.c\<close>,
    \<^verbatim>\<open>rs_register_tables.c\<close>): the chained hash table against a map.
  \<^item> \<^verbatim>\<open>RS_RingBuf\<close> (ring of \<^verbatim>\<open>rs_buf.c\<close>): refinement of a bounded
    queue, and the interleavings of one writer and one reader, each store of the code a step.
  \<^item> \<^verbatim>\<open>RS_TmpBuf\<close> (rest of \<^verbatim>\<open>rs_buf.c\<close>, \<^verbatim>\<open>rs_io.c\<close>):
    connection buffers and blocking I/O on histories of reads and writes.
  \<^item> \<^verbatim>\<open>RS_Conf\<close> (\<^verbatim>\<open>rs_conf.c\<close>): registering variables and parsing a
    file, character by character.
  \<^item> \<^verbatim>\<open>RS_Array\<close>: fixed arrays of the records. \<^verbatim>\<open>RS_ReqDump\<close>: the table
    of connections as a step relation (\<^verbatim>\<open>rq_step\<close>) with its invariant.
  \<^item> \<^verbatim>\<open>RS_ReadBinlog\<close>, \<^verbatim>\<open>RS_FilterBinlog\<close>,
    \<^verbatim>\<open>RS_ParseBinlog\<close>: reading, messages, one handler per event type.
    \<^verbatim>\<open>RS_EventStream\<close> composes them: what a transaction publishes and how positions
    advance over any number of events.
  \<^item> \<^verbatim>\<open>RS_SlaveInfo\<close> (\<^verbatim>\<open>rs_slave_info.h\<close>), \<^verbatim>\<open>RS_SlaveIo\<close>
    (\<^verbatim>\<open>rs_io_thread.c\<close>): the state and the receiving thread of the slave.
    \<^verbatim>\<open>RS_DumpThread\<close>: the dump thread of the master and the command of the slave, with the
    round trip between the two processes.
  \<^item> \<^verbatim>\<open>RS_BinlogRow\<close> (\<^verbatim>\<open>rs_binlog_row.c\<close>): decoding the rows of an event
    for the handlers of a table. The locale \<^verbatim>\<open>row_table\<close> states what a table's handlers
    promise to keep, and is interpreted on those of test.test in \<^verbatim>\<open>RS_RedisThread\<close>
    (\<^verbatim>\<open>rs_redis_thread.c\<close>, \<^verbatim>\<open>rs_redis.c\<close>,
    \<^verbatim>\<open>rs_mysql_test_test.c\<close>).
  \<^item> \<^verbatim>\<open>RS_DumpListen\<close> (\<^verbatim>\<open>rs_dump_listen.c\<close>,
    \<^verbatim>\<open>rs_master_info.h\<close>): listening and accepting. \<^verbatim>\<open>RS_Log\<close>
    (\<^verbatim>\<open>rs_log.c\<close>, \<^verbatim>\<open>rs_errno.c\<close>): debug levels and the line of the log.
    \<^verbatim>\<open>RS_Main\<close> (\<^verbatim>\<open>rs.c\<close>, parts of \<^verbatim>\<open>rs_process.c\<close>):
    options, signals and the main loop, whose actions are a trace.
  \<^item> \<^verbatim>\<open>RS_ConfVars\<close>: registering the fields of a state record, a chunk of memory, and
    reading them back. On it rest \<^verbatim>\<open>RS_Master\<close> (\<^verbatim>\<open>rs_master_info.c\<close>,
    \<^verbatim>\<open>rs_master.c\<close>: what a reload takes over and what it releases),
    \<^verbatim>\<open>RS_SlaveMain\<close> (\<^verbatim>\<open>rs_slave_info.c\<close>, \<^verbatim>\<open>rs_slave.c\<close>: the
    position that was saved is the one the slave goes on from) and \<^verbatim>\<open>RS_CoreInfo\<close>
    (\<^verbatim>\<open>rs_core_info.c\<close>, the rest of \<^verbatim>\<open>rs_process.c\<close>).

  Interfaces. \<^verbatim>\<open>block_weight\<close> (what a pool accounts for; interpreted as the bytes
  of a block and as whether it covers an address), \<^verbatim>\<open>lookup_table\<close> (interpreted on
  the hash table), \<^verbatim>\<open>fifo_channel\<close> (interpreted on the ring) and
  \<^verbatim>\<open>row_table\<close>.

  Bounds and fuel. Loops over a history end with it; loops that wait have the history as their measure.
  The loops over events, over the rows of an event and over the columns have fuel, since a damaged event
  need not advance them. For rows and columns the theorems state the result on a well-formed event with
  the fuel the caller gives, the number of bytes of the event, and no event has more rows than bytes
  (a row has at least its NULL bits). \<^verbatim>\<open>binlog_loop\<close> is cut off after any number of events:
  \<^verbatim>\<open>loop_positions\<close> holds for every number.

  Not modelled. \<^verbatim>\<open>rs_str_to_double\<close> (floating point; a double of the configuration is
  kept as its text, and the growth of a pool is a function), \<^verbatim>\<open>rs_timestr_to_msec\<close>
  (\<^verbatim>\<open>strptime\<close>), \<^verbatim>\<open>rs_log_init\<close>,
  \<^verbatim>\<open>rs_get_time\<close> and the variadic wrappers of \<^verbatim>\<open>rs_log.c\<close> (a call
  each), the wrappers of \<^verbatim>\<open>recv\<close> and \<^verbatim>\<open>inotify\<close> in
  \<^verbatim>\<open>rs_io.c\<close>, and the unused \<^verbatim>\<open>rs_def_filter_data_handle\<close>. The
  memory behind log messages is modelled only in \<^verbatim>\<open>RS_Log\<close>: that a log call may
  overflow its buffer is not part of the other models.
\<close>

end
